(* ===== verification/Prelude.thy ===== *)
theory Prelude
  imports Main "HOL-Library.Word" "HOL-Library.Multiset"
begin

text \<open>
  Shared vocabulary of the development: the machine integers, strings, clock readings,
  map iteration orders and buffered channels of the Go program, with the lemmas about
  them that the component theories use.
\<close>

section \<open>Types\<close>

text \<open>
  A Go \<open>int64\<close> is a 64-bit word: \<open>+\<close> and \<open>-\<close> wrap around, and the comparisons of the
  source are comparisons of the two's complement readings \<open>sint\<close>.
\<close>

type_synonym i64 = "64 word"

text \<open>
  \<open>time.Time\<close> and \<open>time.Duration\<close> are counted in nanoseconds. A reading of the clock
  (\<open>time.Now()\<close>) is an argument of the operation that makes it.
\<close>

type_synonym time = int

definition Second :: time where
  "Second = 1000000000"

definition Minute :: time where
  "Minute = 60 * Second"

section \<open>Collections of facts\<close>

named_theorems keeps_inv \<open>an operation keeps its component's invariant\<close>

section \<open>Iteration over Go maps\<close>

text \<open>
  \<open>for k, v := range m\<close> visits every key of the map once, in an order the language does
  not fix. An iteration is modelled by the list of keys it visits; a list is a possible
  order exactly when it enumerates the domain.
\<close>

definition enumerates :: "'k list \<Rightarrow> ('k \<rightharpoonup> 'v) \<Rightarrow> bool" where
  "enumerates ks m \<longleftrightarrow> distinct ks \<and> set ks = dom m"

lemma enumerates_distinct [simp]: "enumerates ks m \<Longrightarrow> distinct ks"
  by (simp add: enumerates_def)

lemma enumerates_set: "enumerates ks m \<Longrightarrow> set ks = dom m"
  by (simp add: enumerates_def)

lemma enumerates_upd_mem:
  "enumerates ks m \<Longrightarrow> k \<in> dom m \<Longrightarrow> enumerates ks (m(k \<mapsto> v))"
  by (auto simp: enumerates_def)

section \<open>Buffered channels\<close>

text \<open>
  A buffered channel is the list of the values it holds, oldest first, and its capacity.
  \<open>try_send\<close> is the \<open>select\<close> with a \<open>default\<close> branch: it never waits, and gives None when
  the buffer is full.
\<close>

record 'a chan =
  ch_buf :: "'a list"
  ch_cap :: nat

definition make_chan :: "nat \<Rightarrow> 'a chan" where
  "make_chan n = \<lparr>ch_buf = [], ch_cap = n\<rparr>"

definition ch_ok :: "'a chan \<Rightarrow> bool" where
  "ch_ok c \<longleftrightarrow> length (ch_buf c) \<le> ch_cap c"

definition try_send :: "'a \<Rightarrow> 'a chan \<Rightarrow> 'a chan option" where
  "try_send x c =
     (if length (ch_buf c) < ch_cap c then Some (c\<lparr>ch_buf := ch_buf c @ [x]\<rparr>) else None)"

definition recv :: "'a chan \<Rightarrow> ('a \<times> 'a chan) option" where
  "recv c = (case ch_buf c of [] \<Rightarrow> None | x # xs \<Rightarrow> Some (x, c\<lparr>ch_buf := xs\<rparr>))"

lemma ch_ok_make_chan [keeps_inv, simp]: "ch_ok (make_chan n)"
  by (simp add: ch_ok_def make_chan_def)

lemma try_send_Some:
  "try_send x c = Some c' \<longleftrightarrow>
     length (ch_buf c) < ch_cap c \<and> c' = c\<lparr>ch_buf := ch_buf c @ [x]\<rparr>"
  by (auto simp: try_send_def)

lemma try_send_None: "try_send x c = None \<longleftrightarrow> ch_cap c \<le> length (ch_buf c)"
  by (auto simp: try_send_def)

lemma ch_ok_try_send [keeps_inv]: "try_send x c = Some c' \<Longrightarrow> ch_ok c'"
  by (auto simp: try_send_Some ch_ok_def)

lemma ch_ok_recv [keeps_inv]: "recv c = Some (x, c') \<Longrightarrow> ch_ok c \<Longrightarrow> ch_ok c'"
  by (auto simp: recv_def ch_ok_def split: list.splits)

section \<open>Machines with an invariant\<close>

text \<open>
  The interface of a transition system with an invariant: what a component proves of one
  step holds after any number of steps.
\<close>

locale invariant_system =
  fixes start :: "'s \<Rightarrow> bool"
    and step :: "'s \<Rightarrow> 's \<Rightarrow> bool"
    and inv :: "'s \<Rightarrow> bool"
  assumes start_inv: "start s \<Longrightarrow> inv s"
    and step_inv: "inv s \<Longrightarrow> step s t \<Longrightarrow> inv t"
begin

lemma steps_inv: "step\<^sup>*\<^sup>* s t \<Longrightarrow> inv s \<Longrightarrow> inv t"
  by (induction rule: rtranclp_induct) (auto intro: step_inv)

lemma reachable_inv: "start s \<Longrightarrow> step\<^sup>*\<^sup>* s t \<Longrightarrow> inv t"
  by (blast intro: start_inv steps_inv)

end

section \<open>Strings\<close>

text \<open>The separator of the composite keys of the program.\<close>

definition slash :: string where
  "slash = ''/''"

lemma append_slash_inj:
  assumes eq: "a @ slash @ b = c @ slash @ d"
    and a: "CHR ''/'' \<notin> set a" and c: "CHR ''/'' \<notin> set c"
  shows "a = c \<and> b = d"
proof -
  have "takeWhile ((\<noteq>) CHR ''/'') (x @ slash @ y) = x" if "CHR ''/'' \<notin> set x" for x y
    using that by (induction x) (auto simp: slash_def)
  from this [OF a, of b] this [OF c, of d] eq have "a = c" by simp
  with eq show ?thesis by (simp add: slash_def)
qed

section \<open>Words\<close>

lemma sint_minus_no_overflow:
  fixes a b :: i64
  assumes "- (2 ^ 63) \<le> sint a - sint b" and "sint a - sint b < 2 ^ 63"
  shows "sint (a - b) = sint a - sint b"
  using assms by (simp add: sint_word_ariths signed_take_bit_int_eq_self)

lemma sint_minus_nonneg:
  fixes a b :: i64
  assumes "0 \<le> sint a" and "0 \<le> sint b"
  shows "sint (a - b) = sint a - sint b"
proof -
  have "sint a < 2 ^ 63" "sint b < 2 ^ 63"
    using sint_less [of a] sint_less [of b] by simp_all
  with assms show ?thesis by (intro sint_minus_no_overflow) linarith+
qed

end
