(* ===== verification/Float64.thy ===== *)
theory Float64
  imports Complex_Main Prelude
begin

text \<open>
  Go's \<open>float64\<close>, as far as the program computes with it: the VRAM percentages of the
  registry, the request rate of the traffic analyzer and the download durations of the
  model cache. A value is a rational, an infinity or NaN; each operation is the exact
  rational operation followed by IEEE 754 rounding to binary64 (53-bit significand, ties
  to even, least exponent -1074, overflow to infinity at \<open>2 ^ 1024\<close>). The two zeros are
  identified: the program never divides by a float that can be zero and never looks at a
  sign of zero. The lemmas show that rounding is monotone and exact on integers up to
  \<open>2 ^ 53\<close>, which is what the threshold comparisons rest on.
\<close>

section \<open>Rounding\<close>

definition rne :: "rat \<Rightarrow> int" where
  "rne q = (let f = \<lfloor>q\<rfloor>; d = q - of_int f in
     if d < 1 / 2 then f else if 1 / 2 < d then f + 1 else if even f then f else f + 1)"

definition pow2 :: "int \<Rightarrow> rat" where
  "pow2 e = (if 0 \<le> e then of_int (2 ^ nat e) else 1 / of_int (2 ^ nat (- e)))"

function bits_of :: "int \<Rightarrow> int" where
  "bits_of n = (if n \<le> 0 then 0 else 1 + bits_of (n div 2))"
  by pat_completeness auto
termination
  by (relation "measure nat") auto

declare bits_of.simps [simp del]

definition ilog2 :: "rat \<Rightarrow> int" where
  "ilog2 q = (let (a, b) = quotient_of q; k = bits_of a - bits_of b
     in if pow2 k \<le> q then k else k - 1)"

definition ulp_exp :: "rat \<Rightarrow> int" where
  "ulp_exp q = max (ilog2 q - 52) (-1074)"

definition rnd_pos :: "rat \<Rightarrow> rat" where
  "rnd_pos q = (let p = pow2 (ulp_exp q) in of_int (rne (q / p)) * p)"

definition rnd :: "rat \<Rightarrow> rat" where
  "rnd q = (if q = 0 then 0 else if 0 < q then rnd_pos q else - rnd_pos (- q))"

lemma pow2_powi: "pow2 e = 2 powi e"
  by (simp add: pow2_def power_int_def field_simps)

lemma rnd_pos_eq: "rnd_pos q = of_int (rne (q / 2 powi ulp_exp q)) * 2 powi ulp_exp q"
  by (simp add: rnd_pos_def pow2_powi Let_def)

subsection \<open>Rounding to an integer\<close>

lemma rne_of_int [simp]: "rne (of_int n) = n"
  by (simp add: rne_def)

lemma rne_mono:
  assumes "p \<le> q"
  shows "rne p \<le> rne q"
proof (cases "\<lfloor>p\<rfloor> = \<lfloor>q\<rfloor>")
  case True
  with assms show ?thesis by (auto simp: rne_def Let_def)
next
  case False
  have "\<lfloor>p\<rfloor> \<le> \<lfloor>q\<rfloor>" using assms by (rule floor_mono)
  with False have "\<lfloor>p\<rfloor> + 1 \<le> \<lfloor>q\<rfloor>" by linarith
  moreover have "rne p \<le> \<lfloor>p\<rfloor> + 1" "\<lfloor>q\<rfloor> \<le> rne q" by (auto simp: rne_def Let_def)
  ultimately show ?thesis by linarith
qed

subsection \<open>The binary exponent\<close>

lemma powi_2_pos [simp]: "0 < (2 :: rat) powi e"
  by (simp add: zero_less_power_int)

lemma powi_2_mono: "d \<le> e \<Longrightarrow> (2 :: rat) powi d \<le> 2 powi e"
  by (rule power_int_increasing) simp_all

lemma powi_2_add: "(2 :: rat) powi (d + e) = 2 powi d * 2 powi e"
  by (rule power_int_add) simp

lemma powi_2_less: "(2 :: rat) powi d < 2 powi e \<longleftrightarrow> d < e"
proof
  show "d < e" if "(2 :: rat) powi d < 2 powi e"
    using that powi_2_mono [of e d] by (meson not_less)
  show "(2 :: rat) powi d < 2 powi e" if "d < e"
    using that by (intro power_int_strict_increasing) simp_all
qed

lemma bits_of_nonneg: "0 \<le> bits_of n"
  by (induction n rule: bits_of.induct) (simp add: bits_of.simps)

lemma bits_of_bounds:
  "0 < n \<Longrightarrow> 2 powi (bits_of n - 1) \<le> (of_int n :: rat) \<and> (of_int n :: rat) < 2 powi bits_of n"
proof (induction n rule: bits_of.induct)
  case (1 n)
  show ?case
  proof (cases "n = 1")
    case True
    then show ?thesis by (simp add: bits_of.simps [of 1] bits_of.simps [of 0])
  next
    case False
    define b where "b = bits_of (n div 2)"
    define h where "h = (of_int (n div 2) :: rat)"
    have IH: "2 powi (b - 1) \<le> h" "h < 2 powi b"
      using 1 False unfolding b_def h_def by auto
    have eq: "bits_of n = 1 + b" using 1(2) by (simp add: bits_of.simps [of n] b_def)
    have "2 * h \<le> of_int n" "of_int n \<le> 2 * h + 1"
      unfolding h_def by linarith+
    moreover have "2 powi b = 2 * (2 :: rat) powi (b - 1)"
      using powi_2_add [of 1 "b - 1"] by simp
    moreover have "2 powi (1 + b) = 2 * (2 :: rat) powi b" by (simp add: powi_2_add)
    moreover have "h + 1 \<le> 2 powi b"
    proof -
      have b0: "0 \<le> b" by (simp add: b_def bits_of_nonneg)
      have "(2 :: rat) powi b = of_int (2 ^ nat b)" using b0 by (simp add: power_int_def)
      with IH(2) have "n div 2 < 2 ^ nat b" unfolding h_def by (simp only: of_int_less_iff)
      then have "n div 2 + 1 \<le> 2 ^ nat b" by simp
      then have "(of_int (n div 2 + 1) :: rat) \<le> of_int (2 ^ nat b)" by (simp only: of_int_le_iff)
      then show ?thesis using b0 by (simp add: h_def power_int_def)
    qed
    ultimately show ?thesis using IH unfolding eq by simp
  qed
qed

lemma ilog2_bounds:
  assumes "0 < q"
  shows "2 powi ilog2 q \<le> q \<and> q < 2 powi (ilog2 q + 1)"
proof -
  obtain a b where ab: "quotient_of q = (a, b)" by fastforce
  have b: "0 < b" using ab by (rule quotient_of_denom_pos)
  have q: "q = of_int a / of_int b" using ab by (rule quotient_of_div)
  with assms b have a: "0 < a" by (simp add: zero_less_divide_iff)
  define m n where "m = bits_of a" and "n = bits_of b"
  have A: "2 powi (m - 1) \<le> (of_int a :: rat)" "(of_int a :: rat) < 2 powi m"
    using bits_of_bounds [OF a] by (simp_all add: m_def)
  have B: "2 powi (n - 1) \<le> (of_int b :: rat)" "(of_int b :: rat) < 2 powi n"
    using bits_of_bounds [OF b] by (simp_all add: n_def)
  have "(of_int a :: rat) < 2 powi m" by (rule A)
  also have "(2 :: rat) powi m = 2 powi (m - n + 1) * 2 powi (n - 1)"
    by (simp flip: powi_2_add)
  also have "\<dots> \<le> 2 powi (m - n + 1) * of_int b"
    using B(1) by (intro mult_left_mono) simp_all
  finally have up: "q < 2 powi (m - n + 1)" using b by (simp add: q divide_less_eq)
  have "2 powi (m - n - 1) * of_int b \<le> 2 powi (m - n - 1) * (2 :: rat) powi n"
    using B(2) by (intro mult_left_mono) simp_all
  also have "\<dots> = 2 powi (m - 1)" by (simp flip: powi_2_add)
  also have "\<dots> \<le> of_int a" by (rule A)
  finally have lo: "2 powi (m - n - 1) \<le> q" using b by (simp add: q le_divide_eq)
  show ?thesis using up lo by (auto simp: ilog2_def ab m_def n_def Let_def pow2_powi)
qed

lemma ilog2_less: "0 < q \<Longrightarrow> q < 2 powi k \<Longrightarrow> ilog2 q < k"
  using ilog2_bounds [of q] powi_2_less [of "ilog2 q" k] by fastforce

lemma ilog2_mono:
  assumes "0 < p" and "p \<le> q"
  shows "ilog2 p \<le> ilog2 q"
proof -
  have "p < 2 powi (ilog2 q + 1)" using assms ilog2_bounds [of q] by force
  with assms(1) have "ilog2 p < ilog2 q + 1" by (rule ilog2_less)
  then show ?thesis by simp
qed

subsection \<open>Rounding to a float\<close>

lemma rnd_pos_nonneg: "0 < q \<Longrightarrow> 0 \<le> rnd_pos q"
proof -
  assume "0 < q"
  then have "rne 0 \<le> rne (q / 2 powi ulp_exp q)" by (intro rne_mono) simp
  then show ?thesis using rne_of_int [of 0] by (simp add: rnd_pos_eq)
qed

lemma rnd_pos_upper:
  assumes "0 < q"
  shows "rnd_pos q \<le> 2 powi (ulp_exp q + 53)"
proof -
  let ?e = "ulp_exp q"
  have "ilog2 q + 1 \<le> ?e + 53" by (simp add: ulp_exp_def)
  then have "q < 2 powi (?e + 53)"
    using ilog2_bounds [OF assms] powi_2_mono [of "ilog2 q + 1" "?e + 53"] by linarith
  then have "q / 2 powi ?e \<le> 2 powi 53"
    by (simp add: divide_le_eq mult.commute powi_2_add)
  then have "rne (q / 2 powi ?e) \<le> rne (of_int (2 ^ 53))"
    by (intro rne_mono) simp
  then have "rne (q / 2 powi ?e) \<le> 2 ^ 53" by (simp only: rne_of_int)
  then have "(of_int (rne (q / 2 powi ?e)) :: rat) \<le> of_int (2 ^ 53)"
    by (simp only: of_int_le_iff)
  then have "rnd_pos q \<le> 2 powi 53 * 2 powi ?e"
    unfolding rnd_pos_eq by (intro mult_right_mono) simp_all
  then show ?thesis by (simp add: add.commute powi_2_add)
qed

lemma rnd_pos_lower:
  assumes "0 < q" and normal: "ulp_exp q = ilog2 q - 52"
  shows "2 powi (ulp_exp q + 52) \<le> rnd_pos q"
proof -
  let ?e = "ulp_exp q"
  have "2 powi (?e + 52) \<le> q" using ilog2_bounds [OF assms(1)] normal by simp
  then have "2 powi 52 \<le> q / 2 powi ?e"
    by (simp add: le_divide_eq mult.commute powi_2_add)
  then have "rne (of_int (2 ^ 52)) \<le> rne (q / 2 powi ?e)"
    by (intro rne_mono) simp
  then have "2 ^ 52 \<le> rne (q / 2 powi ?e)" by (simp only: rne_of_int)
  then have "of_int (2 ^ 52) \<le> (of_int (rne (q / 2 powi ?e)) :: rat)"
    by (simp only: of_int_le_iff)
  then have "2 powi 52 * 2 powi ?e \<le> rnd_pos q"
    unfolding rnd_pos_eq by (intro mult_right_mono) simp_all
  then show ?thesis by (simp add: add.commute powi_2_add)
qed

lemma rnd_pos_mono:
  assumes "0 < p" and "p \<le> q"
  shows "rnd_pos p \<le> rnd_pos q"
proof (cases "ulp_exp p = ulp_exp q")
  case True
  have "rne (p / 2 powi ulp_exp q) \<le> rne (q / 2 powi ulp_exp q)"
    using assms by (intro rne_mono divide_right_mono) simp_all
  with True show ?thesis by (simp add: rnd_pos_eq mult_right_mono)
next
  case False
  have "ilog2 p \<le> ilog2 q" using assms by (rule ilog2_mono)
  with False have less: "ulp_exp p + 53 \<le> ulp_exp q + 52" and "ulp_exp q = ilog2 q - 52"
    by (auto simp: ulp_exp_def)
  moreover have "0 < q" using assms by linarith
  ultimately have "2 powi (ulp_exp q + 52) \<le> rnd_pos q" by (intro rnd_pos_lower)
  moreover have "rnd_pos p \<le> 2 powi (ulp_exp p + 53)" using assms(1) by (rule rnd_pos_upper)
  moreover have "(2 :: rat) powi (ulp_exp p + 53) \<le> 2 powi (ulp_exp q + 52)"
    using less by (rule powi_2_mono)
  ultimately show ?thesis by linarith
qed

lemma rnd_mono:
  assumes "p \<le> q"
  shows "rnd p \<le> rnd q"
proof -
  consider "0 < p" | "p \<le> 0" "0 \<le> q" | "q < 0" using assms by linarith
  then show ?thesis
  proof cases
    case 1
    with assms rnd_pos_mono [of p q] show ?thesis by (simp add: rnd_def)
  next
    case 2
    then show ?thesis
      using rnd_pos_nonneg [of "- p"] rnd_pos_nonneg [of q] by (auto simp: rnd_def)
  next
    case 3
    with assms rnd_pos_mono [of "- q" "- p"] show ?thesis by (simp add: rnd_def)
  qed
qed

lemma rnd_0 [simp]: "rnd 0 = 0"
  by (simp add: rnd_def)

lemma rnd_minus: "rnd (- q) = - rnd q"
  by (auto simp: rnd_def)

text \<open>Integers of at most 53 bits are floats.\<close>

lemma rnd_nat:
  assumes "0 < n" and "n < 2 ^ 53"
  shows "rnd (of_int n) = of_int n"
proof -
  let ?q = "of_int n :: rat"
  have "?q < of_int (2 ^ 53)" using assms(2) by (simp only: of_int_less_iff)
  then have "?q < 2 powi 53" by simp
  with assms have "ilog2 ?q < 53" by (intro ilog2_less) simp_all
  then have e: "ulp_exp ?q \<le> 0" by (simp add: ulp_exp_def)
  define k where "k = nat (- ulp_exp ?q)"
  have "ulp_exp ?q = - int k" using e by (simp add: k_def)
  then have k: "2 powi ulp_exp ?q = 1 / (2 :: rat) ^ k"
    by (simp only: power_int_minus power_int_of_nat inverse_eq_divide)
  have "rne (?q / 2 powi ulp_exp ?q) = rne (of_int (n * 2 ^ k))" by (simp add: k)
  then have "rne (?q / 2 powi ulp_exp ?q) = n * 2 ^ k" by (simp only: rne_of_int)
  with assms show ?thesis by (simp add: rnd_def rnd_pos_eq k)
qed

lemma rnd_int: "\<bar>n\<bar> < 2 ^ 53 \<Longrightarrow> rnd (of_int n) = of_int n"
proof -
  assume n: "\<bar>n\<bar> < 2 ^ 53"
  consider "n = 0" | "0 < n" | "0 < - n" by linarith
  then show ?thesis
  proof cases
    case 1
    then show ?thesis by simp
  next
    case 2
    with n show ?thesis by (intro rnd_nat) linarith+
  next
    case 3
    with n have "rnd (of_int (- n)) = of_int (- n)" by (intro rnd_nat) linarith+
    then show ?thesis by (simp add: rnd_minus)
  qed
qed

section \<open>Values and operations\<close>

datatype f64 = Fin rat | PosInf | NegInf | NaN

definition f64_round :: "rat \<Rightarrow> f64" where
  "f64_round q = (let r = rnd q in
     if r \<noteq> 0 \<and> 1024 \<le> ilog2 \<bar>r\<bar> then (if 0 < r then PosInf else NegInf) else Fin r)"

definition f64_of_int :: "int \<Rightarrow> f64" where
  "f64_of_int n = f64_round (of_int n)"

text \<open>The sign of a float that is not NaN, for the products and quotients of infinities.\<close>

fun f64_sgn :: "f64 \<Rightarrow> int" where
  "f64_sgn (Fin q) = (if 0 < q then 1 else if q < 0 then -1 else 0)"
| "f64_sgn PosInf = 1"
| "f64_sgn NegInf = -1"
| "f64_sgn NaN = 0"

definition f64_inf :: "int \<Rightarrow> f64" where
  "f64_inf s = (if 0 < s then PosInf else if s < 0 then NegInf else NaN)"

fun f64_mult :: "f64 \<Rightarrow> f64 \<Rightarrow> f64" where
  "f64_mult (Fin p) (Fin q) = f64_round (p * q)"
| "f64_mult NaN _ = NaN"
| "f64_mult _ NaN = NaN"
| "f64_mult x y = f64_inf (f64_sgn x * f64_sgn y)"

fun f64_div :: "f64 \<Rightarrow> f64 \<Rightarrow> f64" where
  "f64_div (Fin p) (Fin q) = (if q = 0 then f64_inf (f64_sgn (Fin p)) else f64_round (p / q))"
| "f64_div NaN _ = NaN"
| "f64_div _ NaN = NaN"
| "f64_div (Fin _) _ = Fin 0"
| "f64_div x (Fin q) = f64_inf (f64_sgn x * (if q < 0 then -1 else 1))"
| "f64_div _ _ = NaN"

fun f64_gt :: "f64 \<Rightarrow> f64 \<Rightarrow> bool" where
  "f64_gt (Fin p) (Fin q) \<longleftrightarrow> q < p"
| "f64_gt NaN _ \<longleftrightarrow> False"
| "f64_gt _ NaN \<longleftrightarrow> False"
| "f64_gt PosInf y \<longleftrightarrow> y \<noteq> PosInf"
| "f64_gt NegInf _ \<longleftrightarrow> False"
| "f64_gt (Fin _) y \<longleftrightarrow> y = NegInf"

definition f64_ge :: "f64 \<Rightarrow> f64 \<Rightarrow> bool" where
  "f64_ge x y \<longleftrightarrow> x \<noteq> NaN \<and> (x = y \<or> f64_gt x y)"

subsection \<open>The two comparisons of the program\<close>

lemma f64_round_small: "\<bar>rnd q\<bar> < 2 ^ 1024 \<Longrightarrow> f64_round q = Fin (rnd q)"
proof -
  assume small: "\<bar>rnd q\<bar> < 2 ^ 1024"
  have "ilog2 \<bar>rnd q\<bar> < 1024" if "rnd q \<noteq> 0"
  proof (rule ilog2_less)
    show "\<bar>rnd q\<bar> < 2 powi 1024" using small by simp
  qed (use that in simp)
  then show ?thesis by (auto simp: f64_round_def Let_def)
qed

lemma f64_of_int_small: "\<bar>n\<bar> < 2 ^ 53 \<Longrightarrow> f64_of_int n = Fin (of_int n)"
proof -
  assume n: "\<bar>n\<bar> < 2 ^ 53"
  then have "\<bar>n\<bar> < 2 ^ 1024" by (rule less_trans) simp
  then have "\<bar>of_int n\<bar> < (2 :: rat) ^ 1024"
    by (metis of_int_abs of_int_less_iff of_int_numeral of_int_power)
  with n show ?thesis by (simp add: f64_of_int_def f64_round_small rnd_int)
qed

text \<open>
  The expression \<open>float64(u) / float64(t) * 100.0\<close>. Both roundings are monotone, so its
  comparison with 85 is settled by its value at 17/20, which is 85 exactly, and at the
  least quotient above 17/20 that a capacity of at most \<open>2 ^ 45\<close> can give.
\<close>

definition f64_pct :: "int \<Rightarrow> int \<Rightarrow> f64" where
  "f64_pct u t = f64_mult (f64_div (f64_of_int u) (f64_of_int t)) (Fin 100)"

lemma rnd_at_85: "rnd (rnd (17 / 20) * 100) = 85"
  by code_simp

lemma rnd_above_85: "85 < rnd (rnd (17 / 20 + 1 / 2 ^ 50) * 100)"
  by code_simp

lemma rnd_top: "rnd (2 ^ 53) = 2 ^ 53"
  by code_simp

lemma rnd_at_top: "rnd (rnd (2 ^ 53) * 100) = 2 ^ 53 * 100"
  by code_simp

lemma f64_pct_value:
  assumes u: "0 \<le> u" "u < 2 ^ 53" and t: "0 < t" "t < 2 ^ 53"
  shows "f64_pct u t = Fin (rnd (rnd (of_int u / of_int t) * 100))"
proof -
  let ?q = "of_int u / of_int t :: rat"
  have "(of_int u :: rat) \<le> of_int (2 ^ 53)" using u(2) by (simp only: of_int_le_iff)
  then have hi: "?q \<le> 2 ^ 53"
    using t(1) by (simp add: divide_le_eq)
  have lo: "0 \<le> ?q" using u t by simp
  have p0: "0 \<le> rnd ?q" using rnd_mono [OF lo] by simp
  have p1: "rnd ?q \<le> rnd (2 ^ 53)" using hi by (rule rnd_mono)
  have x0: "0 \<le> rnd (rnd ?q * 100)" using rnd_mono [of 0 "rnd ?q * 100"] p0 by simp
  have x1: "rnd (rnd ?q * 100) < 2 ^ 1024"
    using rnd_mono [of "rnd ?q * 100" "rnd (2 ^ 53) * 100"] p1 rnd_at_top by simp
  have "rnd (2 ^ 53) < 2 ^ 1024" using rnd_top by simp
  with p0 p1 have "\<bar>rnd ?q\<bar> < 2 ^ 1024" by linarith
  then have "f64_round ?q = Fin (rnd ?q)" by (rule f64_round_small)
  moreover have "f64_round (rnd ?q * 100) = Fin (rnd (rnd ?q * 100))"
    using x0 x1 by (intro f64_round_small) simp
  ultimately show ?thesis using u t by (simp add: f64_pct_def f64_of_int_small)
qed

text \<open>Percentages of realistic capacities compare with 85 as the exact quotients do.\<close>

lemma f64_pct_gt_85:
  assumes u: "0 \<le> u" "u < 2 ^ 53" and t: "0 < t" "t \<le> 2 ^ 45"
  shows "f64_gt (f64_pct u t) (Fin 85) \<longleftrightarrow> 17 * t < 20 * u"
proof -
  let ?q = "of_int u / of_int t :: rat"
  have v: "f64_pct u t = Fin (rnd (rnd ?q * 100))"
    using u t by (intro f64_pct_value) simp_all
  have T: "0 < (of_int t :: rat)" using t(1) by simp
  show ?thesis
  proof (cases "17 * t < 20 * u")
    case True
    then have "17 * t + 1 \<le> 20 * u" by simp
    then have "of_int (17 * t + 1) \<le> (of_int (20 * u) :: rat)" by (simp only: of_int_le_iff)
    then have "(17 * of_int t + 1) / (20 * of_int t) \<le> (20 * of_int u) / (20 * of_int t :: rat)"
      using T by (intro divide_right_mono) simp_all
    then have 1: "17 / 20 + 1 / (20 * of_int t) \<le> ?q" using T by (simp add: add_divide_distrib)
    have "20 * of_int t \<le> (2 :: rat) ^ 50"
    proof -
      have "20 * t \<le> 2 ^ 50" using t(2) by simp
      then have "of_int (20 * t) \<le> (of_int (2 ^ 50) :: rat)" by (simp only: of_int_le_iff)
      then show ?thesis by simp
    qed
    then have "1 / (2 :: rat) ^ 50 \<le> 1 / (20 * of_int t)"
      using T by (intro divide_left_mono) simp_all
    with 1 have "17 / 20 + 1 / 2 ^ 50 \<le> ?q" by linarith
    then have "rnd (17 / 20 + 1 / 2 ^ 50) \<le> rnd ?q" by (rule rnd_mono)
    then have "rnd (rnd (17 / 20 + 1 / 2 ^ 50) * 100) \<le> rnd (rnd ?q * 100)"
      by (intro rnd_mono) simp
    with rnd_above_85 True show ?thesis by (simp add: v)
  next
    case False
    then have "of_int (20 * u) \<le> (of_int (17 * t) :: rat)" by (simp only: of_int_le_iff not_less)
    then have "?q \<le> 17 / 20" using T by (simp add: field_simps)
    then have "rnd ?q \<le> rnd (17 / 20)" by (rule rnd_mono)
    then have "rnd (rnd ?q * 100) \<le> rnd (rnd (17 / 20) * 100)"
      by (intro rnd_mono) simp
    with rnd_at_85 False show ?thesis by (simp add: v)
  qed
qed

text \<open>The expression \<open>float64(n) / 5.0\<close>, for the length \<open>n\<close> of a slice.\<close>

definition f64_rpm :: "nat \<Rightarrow> f64" where
  "f64_rpm n = f64_div (f64_of_int (int n)) (Fin 5)"

lemma rnd_24_5: "rnd (24 / 5) < 5"
  by code_simp

lemma rnd_5: "rnd 5 = 5"
  using rnd_int [of 5] by simp

lemma f64_rpm_ge_5: "f64_ge (f64_rpm n) (Fin 5) \<longleftrightarrow> 25 \<le> n"
proof (cases "25 \<le> n")
  case True
  then have "(25 :: rat) \<le> of_int (int n)" by simp
  then have "rnd 25 \<le> rnd (of_int (int n))" by (rule rnd_mono)
  then have m: "25 \<le> rnd (of_int (int n))" using rnd_int [of 25] by simp
  then have "rnd 5 \<le> rnd (rnd (of_int (int n)) / 5)" by (intro rnd_mono) simp
  then have "5 \<le> rnd (rnd (of_int (int n)) / 5)" by (simp add: rnd_5)
  with m True show ?thesis
    by (auto simp: f64_rpm_def f64_of_int_def f64_round_def Let_def f64_ge_def f64_inf_def)
next
  case False
  then have "f64_of_int (int n) = Fin (of_int (int n))" by (intro f64_of_int_small) simp
  moreover have b: "rnd (of_int (int n) / 5) < 5"
    using False rnd_mono [of "of_int (int n) / 5" "24 / 5"] rnd_24_5 by simp
  moreover have "f64_round (of_int (int n) / 5) = Fin (rnd (of_int (int n) / 5))"
  proof (rule f64_round_small)
    have "0 \<le> rnd (of_int (int n) / 5)" using rnd_mono [of 0 "of_int (int n) / 5"] by simp
    with b show "\<bar>rnd (of_int (int n) / 5)\<bar> < 2 ^ 1024" by simp
  qed
  ultimately show ?thesis using False by (auto simp: f64_rpm_def f64_ge_def)
qed

end
