(* ===== verification/Node_Registry.thy ===== *)
theory Node_Registry
  imports Float64
begin

text \<open>
  \<open>scheduler/registry/node_registry.go\<close>: GPU nodes and their MIG slices, the capacity
  queries on them, and the registry of nodes. The registry is a map from composite keys to
  nodes; its operations take the lock for their whole body, so each is one step. Every
  iteration over the map takes the order of the keys as an argument (\<open>enumerates\<close>).
\<close>

section \<open>Slices and nodes\<close>

type_synonym MIGProfile = string

definition MIGProfile7g80gb :: MIGProfile where "MIGProfile7g80gb = ''7g.80gb''"
definition MIGProfile4g40gb :: MIGProfile where "MIGProfile4g40gb = ''4g.40gb''"
definition MIGProfile3g40gb :: MIGProfile where "MIGProfile3g40gb = ''3g.40gb''"
definition MIGProfile2g20gb :: MIGProfile where "MIGProfile2g20gb = ''2g.20gb''"
definition MIGProfile1g10gb :: MIGProfile where "MIGProfile1g10gb = ''1g.10gb''"
definition MIGProfile1g5gb :: MIGProfile where "MIGProfile1g5gb = ''1g.5gb''"

record MIGSlice =
  s_SliceID :: string
  s_Profile :: MIGProfile
  s_TotalVRAMMiB :: i64
  s_UsedVRAMMiB :: i64
  s_LoadedModels :: "string list"
  s_Healthy :: bool

record GPUNode =
  NodeID :: string
  GPUID :: string
  TotalVRAMMiB :: i64
  UsedVRAMMiB :: i64
  CUDACores :: i64
  NVLinkEnabled :: bool
  MIGEnabled :: bool
  MIGSlices :: "MIGSlice list"
  ModelWeightAffinity :: "string \<rightharpoonup> i64"
  LoadedModels :: "string list"
  AgentAddr :: string
  LastHeartbeat :: time
  Healthy :: bool

definition s_FreeVRAM :: "MIGSlice \<Rightarrow> i64" where
  "s_FreeVRAM s = s_TotalVRAMMiB s - s_UsedVRAMMiB s"

definition s_VRAMUtilizationPct :: "MIGSlice \<Rightarrow> f64" where
  "s_VRAMUtilizationPct s =
     (if s_TotalVRAMMiB s = 0 then Fin 0
      else f64_pct (sint (s_UsedVRAMMiB s)) (sint (s_TotalVRAMMiB s)))"

text \<open>
  \<open>max_free\<close> is the loop of \<open>GPUNode.FreeVRAM\<close> over the slices, from the slices that are
  left and the running maximum, which starts at 0.
\<close>

fun max_free :: "MIGSlice list \<Rightarrow> i64 \<Rightarrow> i64" where
  "max_free [] mx = mx"
| "max_free (s # ss) mx =
     max_free ss (if s_Healthy s \<and> sint mx < sint (s_FreeVRAM s) then s_FreeVRAM s else mx)"

definition FreeVRAM :: "GPUNode \<Rightarrow> i64" where
  "FreeVRAM g =
     (if \<not> MIGEnabled g \<or> MIGSlices g = [] then TotalVRAMMiB g - UsedVRAMMiB g
      else max_free (MIGSlices g) 0)"

fun sum_usage :: "MIGSlice list \<Rightarrow> i64 \<Rightarrow> i64 \<Rightarrow> i64 \<times> i64" where
  "sum_usage [] u c = (u, c)"
| "sum_usage (s # ss) u c =
     (if s_Healthy s then sum_usage ss (u + s_UsedVRAMMiB s) (c + s_TotalVRAMMiB s)
      else sum_usage ss u c)"

definition VRAMUtilizationPct :: "GPUNode \<Rightarrow> f64" where
  "VRAMUtilizationPct g =
     (if \<not> MIGEnabled g \<or> MIGSlices g = [] then
        (if TotalVRAMMiB g = 0 then Fin 0
         else f64_pct (sint (UsedVRAMMiB g)) (sint (TotalVRAMMiB g)))
      else let (totalUsed, totalCapacity) = sum_usage (MIGSlices g) 0 0 in
        if totalCapacity = 0 then Fin 0
        else f64_pct (sint totalUsed) (sint totalCapacity))"

definition HasWeights :: "GPUNode \<Rightarrow> string \<Rightarrow> bool" where
  "HasWeights g modelName = (ModelWeightAffinity g modelName \<noteq> None)"

fun best_slice :: "i64 \<Rightarrow> bool \<Rightarrow> MIGSlice list \<Rightarrow> MIGSlice option \<Rightarrow> MIGSlice option" where
  "best_slice neededMiB spreadMode [] best = best"
| "best_slice neededMiB spreadMode (s # ss) best =
     (if \<not> s_Healthy s \<or> sint (s_FreeVRAM s) < sint neededMiB
      then best_slice neededMiB spreadMode ss best
      else best_slice neededMiB spreadMode ss
        (case best of None \<Rightarrow> Some s
         | Some b \<Rightarrow>
             if spreadMode
             then (if sint (s_FreeVRAM b) < sint (s_FreeVRAM s) then Some s else Some b)
             else (if sint (s_FreeVRAM s) < sint (s_FreeVRAM b) then Some s else Some b)))"

definition BestSliceFor :: "GPUNode \<Rightarrow> i64 \<Rightarrow> bool \<Rightarrow> MIGSlice option" where
  "BestSliceFor g neededMiB spreadMode =
     (if \<not> MIGEnabled g \<or> MIGSlices g = [] then None
      else best_slice neededMiB spreadMode (MIGSlices g) None)"

definition SyntheticFullSlice :: "GPUNode \<Rightarrow> MIGSlice" where
  "SyntheticFullSlice g =
     \<lparr>s_SliceID = ''full'', s_Profile = MIGProfile7g80gb,
      s_TotalVRAMMiB = TotalVRAMMiB g, s_UsedVRAMMiB = UsedVRAMMiB g,
      s_LoadedModels = LoadedModels g, s_Healthy = Healthy g\<rparr>"

section \<open>The registry\<close>

record NodeRegistry =
  nodes :: "string \<rightharpoonup> GPUNode"

definition NewNodeRegistry :: NodeRegistry where
  "NewNodeRegistry = \<lparr>nodes = Map.empty\<rparr>"

definition node_key :: "string \<Rightarrow> string \<Rightarrow> string" where
  "node_key nodeID gpuID = nodeID @ slash @ gpuID"

definition key_of :: "GPUNode \<Rightarrow> string" where
  "key_of n = node_key (NodeID n) (GPUID n)"

definition Upsert :: "GPUNode \<Rightarrow> NodeRegistry \<Rightarrow> NodeRegistry" where
  "Upsert node r =
     (let key = node_key (NodeID node) (GPUID node); node' = node\<lparr>Healthy := True\<rparr>
      in r\<lparr>nodes := (nodes r)(key \<mapsto> node')\<rparr>)"

definition MarkUnhealthy :: "string \<Rightarrow> string \<Rightarrow> NodeRegistry \<Rightarrow> NodeRegistry" where
  "MarkUnhealthy nodeID gpuID r =
     (let key = node_key nodeID gpuID in
      case nodes r key of
        None \<Rightarrow> r
      | Some n \<Rightarrow> r\<lparr>nodes := (nodes r)(key \<mapsto> n\<lparr>Healthy := False\<rparr>)\<rparr>)"

definition All :: "string list \<Rightarrow> NodeRegistry \<Rightarrow> GPUNode list" where
  "All order r =
     List.map_filter
       (\<lambda>k. case nodes r k of None \<Rightarrow> None | Some n \<Rightarrow> if Healthy n then Some n else None)
       order"

definition Get :: "NodeRegistry \<Rightarrow> string \<Rightarrow> string \<Rightarrow> GPUNode option" where
  "Get r nodeID gpuID = nodes r (node_key nodeID gpuID)"

definition StaleNodes :: "string list \<Rightarrow> time \<Rightarrow> time \<Rightarrow> NodeRegistry \<Rightarrow> GPUNode list" where
  "StaleNodes order now threshold r =
     (let cutoff = now - threshold in
      List.map_filter
        (\<lambda>k. case nodes r k of None \<Rightarrow> None
         | Some n \<Rightarrow> if Healthy n \<and> LastHeartbeat n < cutoff then Some n else None)
        order)"

section \<open>Capacity queries\<close>

subsection \<open>The loops\<close>

lemma le_max_free_iff:
  "k \<le> sint (max_free ss mx) \<longleftrightarrow>
     k \<le> sint mx \<or> (\<exists>s \<in> set ss. s_Healthy s \<and> k \<le> sint (s_FreeVRAM s))"
  by (induction ss arbitrary: mx) auto

definition fits :: "i64 \<Rightarrow> MIGSlice \<Rightarrow> bool" where
  "fits needed s \<longleftrightarrow> s_Healthy s \<and> sint needed \<le> sint (s_FreeVRAM s)"

lemma best_slice_filter:
  "best_slice needed sp ss best = best_slice needed sp (filter (fits needed) ss) best"
  by (induction ss arbitrary: best) (auto simp: fits_def)

lemma best_slice_mem:
  "best_slice needed sp ss best = Some b \<Longrightarrow> best = Some b \<or> b \<in> set ss \<and> fits needed b"
proof (induction ss arbitrary: best)
  case (Cons s ss)
  then show ?case
    by (fastforce simp: fits_def split: if_splits option.splits)
qed simp

lemma best_slice_None_iff:
  "best_slice needed sp ss best = None \<longleftrightarrow> best = None \<and> (\<forall>s \<in> set ss. \<not> fits needed s)"
  by (induction ss arbitrary: best) (auto simp: fits_def split: option.splits)

lemma best_slice_least:
  "best_slice needed False ss best = Some b \<Longrightarrow>
     (\<forall>s \<in> set ss. fits needed s \<longrightarrow> sint (s_FreeVRAM b) \<le> sint (s_FreeVRAM s)) \<and>
     (\<forall>b0. best = Some b0 \<longrightarrow> sint (s_FreeVRAM b) \<le> sint (s_FreeVRAM b0))"
proof (induction ss arbitrary: best)
  case (Cons s ss)
  then show ?case
    by (cases best) (fastforce simp: fits_def split: if_splits)+
qed simp

lemma best_slice_most:
  "best_slice needed True ss best = Some b \<Longrightarrow>
     (\<forall>s \<in> set ss. fits needed s \<longrightarrow> sint (s_FreeVRAM s) \<le> sint (s_FreeVRAM b)) \<and>
     (\<forall>b0. best = Some b0 \<longrightarrow> sint (s_FreeVRAM b0) \<le> sint (s_FreeVRAM b))"
proof (induction ss arbitrary: best)
  case (Cons s ss)
  then show ?case
    by (cases best) (fastforce simp: fits_def split: if_splits)+
qed simp

subsection \<open>Room on a slice, in integers\<close>

text \<open>
  For the usages an agent can report (not negative) the wrapped difference is the real one,
  so a slice that fits a request has the memory for it.
\<close>

lemma sint_s_FreeVRAM:
  "0 \<le> sint (s_TotalVRAMMiB s) \<Longrightarrow> 0 \<le> sint (s_UsedVRAMMiB s) \<Longrightarrow>
     sint (s_FreeVRAM s) = sint (s_TotalVRAMMiB s) - sint (s_UsedVRAMMiB s)"
  by (simp add: s_FreeVRAM_def sint_minus_nonneg)

lemma sint_zero_iff: "sint (w :: i64) = 0 \<longleftrightarrow> w = 0"
  by (metis sint_0 signed_word_eqI)

text \<open>The threshold test on a slice, as a comparison of integers.\<close>

lemma s_VRAMUtilizationPct_gt_85:
  assumes "0 \<le> sint (s_UsedVRAMMiB s)" "sint (s_UsedVRAMMiB s) < 2 ^ 53"
    and "0 \<le> sint (s_TotalVRAMMiB s)" "sint (s_TotalVRAMMiB s) \<le> 2 ^ 45"
  shows "f64_gt (s_VRAMUtilizationPct s) (Fin 85) \<longleftrightarrow>
    s_TotalVRAMMiB s \<noteq> 0 \<and> 17 * sint (s_TotalVRAMMiB s) < 20 * sint (s_UsedVRAMMiB s)"
proof (cases "s_TotalVRAMMiB s = 0")
  case True
  then show ?thesis by (simp add: s_VRAMUtilizationPct_def)
next
  case False
  with assms(3) have "0 < sint (s_TotalVRAMMiB s)"
    using sint_zero_iff [of "s_TotalVRAMMiB s"] by linarith
  with assms False show ?thesis
    by (simp add: s_VRAMUtilizationPct_def f64_pct_gt_85)
qed

section \<open>The registry as a keyed store\<close>

text \<open>
  What the clients of the registry rely on: a value that is put is the one found under its
  key, in the form \<open>norm\<close> in which the store keeps it, and no other key changes. The lemma
  is the one the dispatcher needs: after a sequence of updates, a key holds the last value
  put under it.
\<close>

locale keyed_store =
  fixes key :: "'v \<Rightarrow> 'k"
    and norm :: "'v \<Rightarrow> 'w"
    and put :: "'v \<Rightarrow> 's \<Rightarrow> 's"
    and find :: "'s \<Rightarrow> 'k \<Rightarrow> 'w option"
  assumes find_put: "find (put v s) k = (if k = key v then Some (norm v) else find s k)"
begin

lemma find_put_same [simp]: "find (put v s) (key v) = Some (norm v)"
  by (simp add: find_put)

lemma find_put_other [simp]: "k \<noteq> key v \<Longrightarrow> find (put v s) k = find s k"
  by (simp add: find_put)

lemma find_puts:
  "find (fold put vs s) k =
     (case filter (\<lambda>v. key v = k) (rev vs) of [] \<Rightarrow> find s k | v # _ \<Rightarrow> Some (norm v))"
proof (induction vs rule: rev_induct)
  case (snoc v vs)
  then show ?case by (auto simp: find_put)
qed simp

lemma find_puts_last:
  assumes "\<forall>v' \<in> set vs. key v' \<noteq> key v"
  shows "find (fold put vs (put v s)) (key v) = Some (norm v)"
proof -
  have "filter (\<lambda>w. key w = key v) (rev vs) = []" using assms by (auto simp: filter_empty_conv)
  then show ?thesis by (simp add: find_puts)
qed

end

lemma nodes_Upsert: "nodes (Upsert n r) = (nodes r)(key_of n \<mapsto> n\<lparr>Healthy := True\<rparr>)"
  by (simp add: Upsert_def key_of_def Let_def)

lemma nodes_MarkUnhealthy:
  "nodes (MarkUnhealthy nid gid r) =
     (case nodes r (node_key nid gid) of
        None \<Rightarrow> nodes r
      | Some n \<Rightarrow> (nodes r)(node_key nid gid \<mapsto> n\<lparr>Healthy := False\<rparr>))"
  by (simp add: MarkUnhealthy_def Let_def split: option.splits)

interpretation reg: keyed_store key_of "\<lambda>n. n\<lparr>Healthy := True\<rparr>" Upsert nodes
  by unfold_locales (simp add: nodes_Upsert)

section \<open>Well-formed registries\<close>

text \<open>Every node is filed under its own composite key.\<close>

definition registry_ok :: "NodeRegistry \<Rightarrow> bool" where
  "registry_ok r \<longleftrightarrow> (\<forall>k n. nodes r k = Some n \<longrightarrow> k = key_of n)"

lemma registry_ok_New [keeps_inv]: "registry_ok NewNodeRegistry"
  by (simp add: registry_ok_def NewNodeRegistry_def)

lemma registry_ok_Upsert [keeps_inv]: "registry_ok r \<Longrightarrow> registry_ok (Upsert n r)"
  by (simp add: registry_ok_def nodes_Upsert key_of_def)

lemma registry_ok_MarkUnhealthy [keeps_inv]:
  "registry_ok r \<Longrightarrow> registry_ok (MarkUnhealthy nid gid r)"
  by (auto simp: registry_ok_def nodes_MarkUnhealthy key_of_def split: option.splits)

lemma dom_Upsert [simp]: "dom (nodes (Upsert n r)) = insert (key_of n) (dom (nodes r))"
  by (simp add: nodes_Upsert)

lemma dom_MarkUnhealthy [simp]: "dom (nodes (MarkUnhealthy nid gid r)) = dom (nodes r)"
  by (auto simp: nodes_MarkUnhealthy split: option.splits)

lemma registry_okD: "registry_ok r \<Longrightarrow> nodes r k = Some n \<Longrightarrow> k = key_of n"
  by (simp add: registry_ok_def)

text \<open>The healthy nodes, and the stale ones, as sets.\<close>

definition healthy_nodes :: "NodeRegistry \<Rightarrow> GPUNode set" where
  "healthy_nodes r = {n \<in> ran (nodes r). Healthy n}"

lemma set_map_filter_alt: "set (List.map_filter f xs) = {y. \<exists>x \<in> set xs. f x = Some y}"
  by (induction xs) (auto simp: List.map_filter_simps split: option.splits)

lemma set_All: "enumerates ks (nodes r) \<Longrightarrow> set (All ks r) = healthy_nodes r"
  by (fastforce simp: All_def set_map_filter_alt enumerates_def healthy_nodes_def ran_def
      split: option.splits if_splits)

lemma set_StaleNodes:
  "enumerates ks (nodes r) \<Longrightarrow>
     set (StaleNodes ks now th r) = {n \<in> healthy_nodes r. LastHeartbeat n < now - th}"
  by (fastforce simp: StaleNodes_def set_map_filter_alt enumerates_def healthy_nodes_def ran_def
      Let_def split: option.splits if_splits)

lemma distinct_keys_map_filter:
  assumes "registry_ok r" and "distinct ks"
    and f: "\<And>k n. f k = Some n \<Longrightarrow> nodes r k = Some n"
  shows "distinct (map key_of (List.map_filter f ks))"
  using assms(2)
proof (induction ks)
  case (Cons k ks)
  show ?case
  proof (cases "f k")
    case None
    with Cons show ?thesis by (simp add: List.map_filter_simps)
  next
    case (Some n)
    then have kn: "k = key_of n" using f registry_okD [OF assms(1)] by blast
    have "key_of n \<notin> key_of ` set (List.map_filter f ks)"
    proof
      assume "key_of n \<in> key_of ` set (List.map_filter f ks)"
      then obtain k' n' where "k' \<in> set ks" "f k' = Some n'" "key_of n' = key_of n"
        by (auto simp: set_map_filter_alt)
      then have "k' = k" using f registry_okD [OF assms(1)] kn by metis
      with \<open>k' \<in> set ks\<close> Cons.prems show False by simp
    qed
    with Some Cons show ?thesis by (simp add: List.map_filter_simps)
  qed
qed simp

lemma distinct_keys_All:
  "registry_ok r \<Longrightarrow> enumerates ks (nodes r) \<Longrightarrow> distinct (map key_of (All ks r))"
  unfolding All_def
  by (rule distinct_keys_map_filter) (auto split: option.splits if_splits)

lemma distinct_keys_StaleNodes:
  "registry_ok r \<Longrightarrow> enumerates ks (nodes r) \<Longrightarrow>
     distinct (map key_of (StaleNodes ks now th r))"
  unfolding StaleNodes_def Let_def
  by (rule distinct_keys_map_filter) (auto split: option.splits if_splits)

section \<open>Runs of the registry\<close>

text \<open>The two writes of the registry, as steps; who makes them is not determined.\<close>

inductive registry_step :: "NodeRegistry \<Rightarrow> NodeRegistry \<Rightarrow> bool" where
  upsert: "registry_step r (Upsert n r)"
| mark: "registry_step r (MarkUnhealthy nid gid r)"

interpretation reg_runs: invariant_system "\<lambda>r. r = NewNodeRegistry" registry_step registry_ok
  by unfold_locales (auto simp: registry_ok_New elim!: registry_step.cases
      intro: registry_ok_Upsert registry_ok_MarkUnhealthy)

lemma dom_mono_step: "registry_step r r' \<Longrightarrow> dom (nodes r) \<subseteq> dom (nodes r')"
  by (erule registry_step.cases) (simp_all add: subset_insertI)

text \<open>
  In every registry that updates and health marks can build from the empty one, each
  node is filed under the key made of its own identifiers, so the keys of the nodes that
  \<open>All\<close> and \<open>StaleNodes\<close> return are pairwise different: no node is returned twice, in
  whatever order the map is visited.
\<close>

theorem registry_nodes_unique:
  assumes "registry_step\<^sup>*\<^sup>* NewNodeRegistry r" and "enumerates ks (nodes r)"
  shows "registry_ok r \<and> distinct (map key_of (All ks r)) \<and>
    distinct (map key_of (StaleNodes ks now threshold r))"
proof -
  have "registry_ok r" using reg_runs.reachable_inv [OF _ assms(1)] by simp
  with assms(2) show ?thesis by (simp add: distinct_keys_All distinct_keys_StaleNodes)
qed

definition plain_node :: "string \<Rightarrow> string \<Rightarrow> i64 \<Rightarrow> i64 \<Rightarrow> GPUNode" where
  "plain_node nid gid cap used =
     \<lparr>NodeID = nid, GPUID = gid, TotalVRAMMiB = cap, UsedVRAMMiB = used, CUDACores = 0,
      NVLinkEnabled = False, MIGEnabled = False, MIGSlices = [],
      ModelWeightAffinity = Map.empty, LoadedModels = [], AgentAddr = [],
      LastHeartbeat = 0, Healthy = False\<rparr>"

theorem registry_nodes_unique_witness:
  "registry_ok (Upsert (plain_node ''a'' ''g'' 10 1) NewNodeRegistry) \<and>
   distinct (map key_of (All [''a/g''] (Upsert (plain_node ''a'' ''g'' 10 1) NewNodeRegistry)))"
proof -
  let ?n = "plain_node ''a'' ''g'' 10 1" and ?r = "Upsert (plain_node ''a'' ''g'' 10 1) NewNodeRegistry"
  have "registry_step\<^sup>*\<^sup>* NewNodeRegistry ?r"
    by (rule r_into_rtranclp) (rule registry_step.upsert)
  moreover have "enumerates [''a/g''] (nodes ?r)"
    by (simp add: enumerates_def nodes_Upsert NewNodeRegistry_def key_of_def node_key_def
        slash_def plain_node_def)
  ultimately show ?thesis
    using registry_nodes_unique [of ?r "[''a/g'']"] by blast
qed

text \<open>
  \<open>Get\<close> returns the node of the last heartbeat received for its identifiers, marked
  healthy, whatever nodes with other keys reported since.
\<close>

theorem get_returns_last_heartbeat:
  assumes "\<forall>m \<in> set later. key_of m \<noteq> key_of n"
  shows "Get (fold Upsert later (Upsert n r)) (NodeID n) (GPUID n) = Some (n\<lparr>Healthy := True\<rparr>)"
  using reg.find_puts_last [OF assms] by (simp add: Get_def key_of_def)

theorem get_returns_last_heartbeat_witness:
  "Get (fold Upsert [plain_node ''b'' ''g'' 5 5] (Upsert (plain_node ''a'' ''g'' 10 1) NewNodeRegistry))
     ''a'' ''g'' = Some ((plain_node ''a'' ''g'' 10 1)\<lparr>Healthy := True\<rparr>)"
  using get_returns_last_heartbeat [of "[plain_node ''b'' ''g'' 5 5]" "plain_node ''a'' ''g'' 10 1"]
  by (simp add: key_of_def node_key_def slash_def plain_node_def)

text \<open>
  Composite keys identify a node as long as node identifiers hold no slash: two nodes
  share a key exactly when both identifiers agree.
\<close>

theorem node_key_identifies:
  assumes "CHR ''/'' \<notin> set (NodeID n)" and "CHR ''/'' \<notin> set (NodeID m)"
  shows "key_of n = key_of m \<longleftrightarrow> NodeID n = NodeID m \<and> GPUID n = GPUID m"
proof
  assume "key_of n = key_of m"
  then have "NodeID n @ slash @ GPUID n = NodeID m @ slash @ GPUID m"
    by (simp add: key_of_def node_key_def)
  then show "NodeID n = NodeID m \<and> GPUID n = GPUID m"
    using assms by (rule append_slash_inj)
qed (simp add: key_of_def)

theorem node_key_identifies_witness:
  "key_of (plain_node ''a'' ''g0'' 10 1) \<noteq> key_of (plain_node ''a'' ''g1'' 10 1)"
proof -
  have "CHR ''/'' \<notin> set (NodeID (plain_node ''a'' ''g0'' 10 1))"
    and "CHR ''/'' \<notin> set (NodeID (plain_node ''a'' ''g1'' 10 1))"
    by (simp_all add: plain_node_def)
  from node_key_identifies [OF this] show ?thesis by (simp add: plain_node_def)
qed

text \<open>
  Without that hypothesis keys collide: a heartbeat of GPU \<open>c\<close> on node \<open>a/b\<close> replaces
  the entry of GPU \<open>b/c\<close> on node \<open>a\<close>.
\<close>

lemma node_key_collision:
  "Get (Upsert (plain_node ''a/b'' ''c'' 20 2) (Upsert (plain_node ''a'' ''b/c'' 10 1) r)) ''a'' ''b/c''
     = Some ((plain_node ''a/b'' ''c'' 20 2)\<lparr>Healthy := True\<rparr>)"
  by (simp add: Get_def nodes_Upsert key_of_def node_key_def slash_def plain_node_def)

end
