(* ===== verification/Go_Sort.thy ===== *)
theory Go_Sort
  imports Prelude
begin

text \<open>
  The contract of the standard library's \<open>sort.Slice\<close>, which the bin packer calls: for a
  \<open>less\<close> that is a strict weak order it permutes the slice so that no element is lt than
  an earlier one. The sort is not stable and its order of ties is not promised, so the
  packer's model takes the sort as a parameter. The locale states the contract; Go's own
  insertion sort, which \<open>sort.Slice\<close> runs on slices of at most 12 elements, satisfies it.
\<close>

definition strict_weak :: "('a \<Rightarrow> 'a \<Rightarrow> bool) \<Rightarrow> bool" where
  "strict_weak lt \<longleftrightarrow> (\<forall>x. \<not> lt x x) \<and> (\<forall>x y z. lt x y \<longrightarrow> lt y z \<longrightarrow> lt x z) \<and>
     (\<forall>x y z. \<not> lt x y \<longrightarrow> \<not> lt y z \<longrightarrow> \<not> lt x z)"

lemma strict_weak_key: "strict_weak (\<lambda>x y. (f x :: 'b :: linorder) < f y)"
  by (auto simp: strict_weak_def)

locale slice_sorter =
  fixes sort_slice :: "('a \<Rightarrow> 'a \<Rightarrow> bool) \<Rightarrow> 'a list \<Rightarrow> 'a list"
  assumes sort_perm: "strict_weak lt \<Longrightarrow> mset (sort_slice lt xs) = mset xs"
    and sort_sorted: "strict_weak lt \<Longrightarrow> sorted_wrt (\<lambda>x y. \<not> lt y x) (sort_slice lt xs)"
begin

lemma sort_set: "strict_weak lt \<Longrightarrow> set (sort_slice lt xs) = set xs"
  using sort_perm by (metis set_mset_mset)

text \<open>The first element of a sorted list that passes a lower bound is a least one.\<close>

lemma first_fit:
  fixes f :: "'a \<Rightarrow> 'b :: linorder"
  assumes found: "find (\<lambda>x. k \<le> f x) (sort_slice (\<lambda>x y. f x < f y) xs) = Some c"
  shows "c \<in> set xs \<and> k \<le> f c \<and> (\<forall>c' \<in> set xs. k \<le> f c' \<longrightarrow> f c \<le> f c')"
proof -
  let ?ys = "sort_slice (\<lambda>x y. f x < f y) xs"
  have sw: "strict_weak (\<lambda>x y. f x < f y)" by (rule strict_weak_key)
  have sorted: "sorted_wrt (\<lambda>x y. f x \<le> f y) ?ys"
    using sort_sorted [OF sw, of xs] by (simp add: not_less)
  from found obtain i where i: "i < length ?ys" "c = ?ys ! i" "k \<le> f c"
    and before: "\<forall>j < i. \<not> k \<le> f (?ys ! j)"
    by (auto simp: find_Some_iff)
  have "f c \<le> f c'" if "c' \<in> set xs" "k \<le> f c'" for c'
  proof -
    from that(1) sort_set [OF sw, of xs] obtain j where j: "j < length ?ys" "c' = ?ys ! j"
      by (metis in_set_conv_nth)
    with before that(2) have "i \<le> j" by (meson not_less)
    show ?thesis
    proof (cases "i = j")
      case False
      with \<open>i \<le> j\<close> have "i < j" by simp
      from sorted_wrt_nth_less [OF sorted this j(1)] show ?thesis by (simp add: i(2) j(2))
    qed (simp add: i(2) j(2))
  qed
  moreover have "c \<in> set ?ys" unfolding i(2) using i(1) by (rule nth_mem)
  then have "c \<in> set xs" unfolding sort_set [OF sw] .
  ultimately show ?thesis using i by blast
qed

lemma first_fit_None:
  fixes f :: "'a \<Rightarrow> 'b :: linorder"
  shows "find (\<lambda>x. k \<le> f x) (sort_slice (\<lambda>x y. f x < f y) xs) = None \<longleftrightarrow> (\<forall>c \<in> set xs. \<not> k \<le> f c)"
  by (auto simp: find_None_iff sort_set strict_weak_key)

end

section \<open>Go's insertion sort\<close>

text \<open>
  \<open>ins_back\<close> moves a new element down from the end of the sorted prefix, which is held
  reversed, past the elements it is lt than.
\<close>

fun ins_back :: "('a \<Rightarrow> 'a \<Rightarrow> bool) \<Rightarrow> 'a \<Rightarrow> 'a list \<Rightarrow> 'a list" where
  "ins_back lt x [] = [x]"
| "ins_back lt x (y # ys) = (if lt x y then y # ins_back lt x ys else x # y # ys)"

definition insertion_sort :: "('a \<Rightarrow> 'a \<Rightarrow> bool) \<Rightarrow> 'a list \<Rightarrow> 'a list" where
  "insertion_sort lt xs = rev (fold (ins_back lt) xs [])"

lemma mset_ins_back [simp]: "mset (ins_back lt x ys) = add_mset x (mset ys)"
  by (induction ys) auto

lemma set_ins_back [simp]: "set (ins_back lt x ys) = insert x (set ys)"
  by (induction ys) auto

lemma sorted_ins_back:
  "strict_weak lt \<Longrightarrow> sorted_wrt (\<lambda>a b. \<not> lt a b) ys \<Longrightarrow>
     sorted_wrt (\<lambda>a b. \<not> lt a b) (ins_back lt x ys)"
proof (induction ys)
  case (Cons y ys)
  from Cons.prems have IH: "sorted_wrt (\<lambda>a b. \<not> lt a b) (ins_back lt x ys)"
    and below: "\<forall>z \<in> set ys. \<not> lt y z"
    by (simp_all add: Cons.IH)
  show ?case
  proof (cases "lt x y")
    case True
    then have "\<not> lt y x" using Cons.prems(1) unfolding strict_weak_def by blast
    with True IH below show ?thesis by simp
  next
    case False
    have "\<not> lt x z" if "z \<in> set ys" for z
      using False below that Cons.prems(1) unfolding strict_weak_def by blast
    with False Cons.prems show ?thesis by simp
  qed
qed simp

lemma mset_fold_ins: "mset (fold (ins_back lt) xs ys) = mset xs + mset ys"
  by (induction xs arbitrary: ys) auto

lemma sorted_fold_ins:
  "strict_weak lt \<Longrightarrow> sorted_wrt (\<lambda>a b. \<not> lt a b) ys \<Longrightarrow>
     sorted_wrt (\<lambda>a b. \<not> lt a b) (fold (ins_back lt) xs ys)"
  by (induction xs arbitrary: ys) (auto intro: sorted_ins_back)

interpretation go_insertion: slice_sorter insertion_sort
  by unfold_locales
    (auto simp: insertion_sort_def mset_fold_ins sorted_wrt_rev intro: sorted_fold_ins)

end
