(* ===== verification/Bin_Packer.thy ===== *)
theory Bin_Packer
  imports Node_Registry Go_Sort
begin

text \<open>
  The placement half of \<open>scheduler/scheduler/bin_packer.go\<close>: expanding nodes into
  candidates, and \<open>Schedule\<close>. \<open>Schedule\<close> reads the registry and changes nothing; it takes
  the order in which the registry's map is visited and the sort of the standard library
  as arguments.
\<close>

section \<open>Requests, decisions, candidates\<close>

definition P0Production :: int where "P0Production = 0"
definition P1Development :: int where "P1Development = 1"
definition P2BatchTrain :: int where "P2BatchTrain = 2"

definition VRAMEvictionThresholdPct :: f64 where
  "VRAMEvictionThresholdPct = Fin 85"

record ScheduleRequest =
  ModelName :: string
  VRAMNeededMiB :: i64
  Priority :: int

record ScheduleDecision =
  d_NodeID :: string
  d_GPUID :: string
  d_SliceID :: string
  d_MIGEnabled :: bool
  d_AffinityHit :: bool

record placementCandidate =
  c_node :: GPUNode
  c_slice :: MIGSlice
  c_affHit :: bool

datatype schedule_error =
  NoHealthyNodes
| NoSliceFits i64 string
| CouldNotSelect string

section \<open>Expanding nodes\<close>

definition expandNode :: "GPUNode \<Rightarrow> i64 \<Rightarrow> placementCandidate list" where
  "expandNode n neededMiB =
     (if \<not> MIGEnabled n \<or> MIGSlices n = [] then
        let syn = SyntheticFullSlice n in
        if sint (s_FreeVRAM syn) < sint neededMiB then []
        else [\<lparr>c_node = n, c_slice = syn, c_affHit = False\<rparr>]
      else
        [\<lparr>c_node = n, c_slice = s, c_affHit = False\<rparr>.
          s \<leftarrow> MIGSlices n, \<not> (\<not> s_Healthy s \<or> sint (s_FreeVRAM s) < sint neededMiB)])"

definition expandNodeForModel :: "GPUNode \<Rightarrow> i64 \<Rightarrow> string \<Rightarrow> placementCandidate list" where
  "expandNodeForModel n neededMiB modelName =
     (let affHit = HasWeights n modelName in
      if \<not> MIGEnabled n \<or> MIGSlices n = [] then
        let syn = SyntheticFullSlice n in
        if sint (s_FreeVRAM syn) < sint neededMiB then []
        else [\<lparr>c_node = n, c_slice = syn, c_affHit = affHit\<rparr>]
      else
        [\<lparr>c_node = n, c_slice = s, c_affHit = affHit\<rparr>.
          s \<leftarrow> MIGSlices n, \<not> (\<not> s_Healthy s \<or> sint (s_FreeVRAM s) < sint neededMiB)])"

section \<open>Choosing a slice\<close>

definition c_free :: "placementCandidate \<Rightarrow> int" where
  "c_free c = sint (s_FreeVRAM (c_slice c))"

definition anySliceAboveThreshold :: "placementCandidate list \<Rightarrow> bool" where
  "anySliceAboveThreshold candidates =
     list_ex (\<lambda>c. f64_gt (s_VRAMUtilizationPct (c_slice c)) VRAMEvictionThresholdPct) candidates"

definition anyAboveThreshold :: "GPUNode list \<Rightarrow> bool" where
  "anyAboveThreshold ns =
     list_ex (\<lambda>n. f64_gt (VRAMUtilizationPct n) VRAMEvictionThresholdPct) ns"

type_synonym sorter =
  "(placementCandidate \<Rightarrow> placementCandidate \<Rightarrow> bool) \<Rightarrow>
     placementCandidate list \<Rightarrow> placementCandidate list"

definition leastFitSlice ::
  "sorter \<Rightarrow> placementCandidate list \<Rightarrow> i64 \<Rightarrow> placementCandidate option" where
  "leastFitSlice sort_slice candidates neededMiB =
     find (\<lambda>c. sint neededMiB \<le> c_free c) (sort_slice (\<lambda>x y. c_free x < c_free y) candidates)"

fun most_free_from :: "placementCandidate \<Rightarrow> placementCandidate list \<Rightarrow> placementCandidate" where
  "most_free_from best [] = best"
| "most_free_from best (c # cs) = most_free_from (if c_free best < c_free c then c else best) cs"

definition mostFreeSlice :: "placementCandidate list \<Rightarrow> placementCandidate option" where
  "mostFreeSlice candidates =
     (case candidates of [] \<Rightarrow> None | c # cs \<Rightarrow> Some (most_free_from c cs))"

section \<open>Schedule\<close>

definition decision_for :: "placementCandidate \<Rightarrow> bool \<Rightarrow> ScheduleDecision" where
  "decision_for chosen hit =
     \<lparr>d_NodeID = NodeID (c_node chosen), d_GPUID = GPUID (c_node chosen),
      d_SliceID = (if MIGEnabled (c_node chosen) then s_SliceID (c_slice chosen) else []),
      d_MIGEnabled = MIGEnabled (c_node chosen), d_AffinityHit = hit\<rparr>"

definition Schedule ::
  "sorter \<Rightarrow> string list \<Rightarrow> NodeRegistry \<Rightarrow> ScheduleRequest \<Rightarrow> schedule_error + ScheduleDecision"
where
  "Schedule sort_slice order r req =
     (let ns = All order r in
      if ns = [] then Inl NoHealthyNodes
      else let candidates =
        concat (map (\<lambda>n. expandNodeForModel n (VRAMNeededMiB req) (ModelName req)) ns) in
      if candidates = [] then Inl (NoSliceFits (VRAMNeededMiB req) (ModelName req))
      else let affinityHits = filter c_affHit candidates;
               cold = filter (Not \<circ> c_affHit) candidates;
               pool = (if affinityHits = [] then cold else affinityHits);
               spreadMode = anySliceAboveThreshold candidates;
               chosen = (if spreadMode then mostFreeSlice pool
                         else leastFitSlice sort_slice pool (VRAMNeededMiB req)) in
      case chosen of
        None \<Rightarrow> Inl (CouldNotSelect (ModelName req))
      | Some c \<Rightarrow> Inr (decision_for c (affinityHits \<noteq> [])))"

section \<open>Where a request can go\<close>

text \<open>
  The specification: the slices a node offers (the whole GPU where it has no MIG slices,
  its healthy slices otherwise), and the placements of a request in a registry.
\<close>

definition slices_of :: "GPUNode \<Rightarrow> MIGSlice set" where
  "slices_of n =
     (if \<not> MIGEnabled n \<or> MIGSlices n = [] then {SyntheticFullSlice n}
      else {s \<in> set (MIGSlices n). s_Healthy s})"

definition placements :: "NodeRegistry \<Rightarrow> i64 \<Rightarrow> (GPUNode \<times> MIGSlice) set" where
  "placements r needed =
     {(n, s). n \<in> healthy_nodes r \<and> s \<in> slices_of n \<and> sint needed \<le> sint (s_FreeVRAM s)}"

text \<open>A decision names a placement.\<close>

definition decides :: "ScheduleDecision \<Rightarrow> GPUNode \<Rightarrow> MIGSlice \<Rightarrow> bool" where
  "decides d n s \<longleftrightarrow> d_NodeID d = NodeID n \<and> d_GPUID d = GPUID n \<and>
     d_SliceID d = (if MIGEnabled n then s_SliceID s else []) \<and> d_MIGEnabled d = MIGEnabled n"

text \<open>Spread mode, as the code decides it: some placement is on a slice above the threshold.\<close>

definition spread_mode :: "NodeRegistry \<Rightarrow> i64 \<Rightarrow> bool" where
  "spread_mode r needed \<longleftrightarrow>
     (\<exists>(n, s) \<in> placements r needed. f64_gt (s_VRAMUtilizationPct s) VRAMEvictionThresholdPct)"

lemma set_expandNodeForModel:
  "set (expandNodeForModel n needed m) =
     {\<lparr>c_node = n, c_slice = s, c_affHit = HasWeights n m\<rparr> | s.
        s \<in> slices_of n \<and> sint needed \<le> sint (s_FreeVRAM s)}"
  by (auto simp: expandNodeForModel_def slices_of_def Let_def not_less)

definition candidates_of :: "string list \<Rightarrow> NodeRegistry \<Rightarrow> ScheduleRequest \<Rightarrow> placementCandidate list" where
  "candidates_of order r req =
     concat (map (\<lambda>n. expandNodeForModel n (VRAMNeededMiB req) (ModelName req)) (All order r))"

lemma set_candidates_of:
  "enumerates ks (nodes r) \<Longrightarrow> set (candidates_of ks r req) =
     {\<lparr>c_node = n, c_slice = s, c_affHit = HasWeights n (ModelName req)\<rparr> | n s.
       (n, s) \<in> placements r (VRAMNeededMiB req)}"
  by (auto simp: candidates_of_def set_expandNodeForModel set_All placements_def)

lemma candidate_placement:
  "enumerates ks (nodes r) \<Longrightarrow> c \<in> set (candidates_of ks r req) \<longleftrightarrow>
     (c_node c, c_slice c) \<in> placements r (VRAMNeededMiB req) \<and>
     c_affHit c = HasWeights (c_node c) (ModelName req)"
  by (cases c) (auto simp: set_candidates_of)

lemma anySliceAboveThreshold_iff:
  "enumerates ks (nodes r) \<Longrightarrow>
     anySliceAboveThreshold (candidates_of ks r req) \<longleftrightarrow> spread_mode r (VRAMNeededMiB req)"
  by (fastforce simp: anySliceAboveThreshold_def list_ex_iff spread_mode_def set_candidates_of)

lemma most_free_from_spec:
  "(most_free_from b cs = b \<or> most_free_from b cs \<in> set cs) \<and>
   c_free b \<le> c_free (most_free_from b cs) \<and>
   (\<forall>c \<in> set cs. c_free c \<le> c_free (most_free_from b cs))"
proof (induction cs arbitrary: b)
  case (Cons c cs)
  from Cons [of "if c_free b < c_free c then c else b"] show ?case by (auto split: if_splits)
qed simp

lemma mostFreeSlice_Some:
  "mostFreeSlice cs = Some c \<Longrightarrow> c \<in> set cs \<and> (\<forall>c' \<in> set cs. c_free c' \<le> c_free c)"
  using most_free_from_spec by (auto simp: mostFreeSlice_def split: list.splits)

lemma mostFreeSlice_None: "mostFreeSlice cs = None \<longleftrightarrow> cs = []"
  by (auto simp: mostFreeSlice_def split: list.splits)

text \<open>The pool of a request: the candidates with warm weights, if any.\<close>

definition pool_of :: "placementCandidate list \<Rightarrow> placementCandidate list" where
  "pool_of cs = (if filter c_affHit cs = [] then filter (Not \<circ> c_affHit) cs else filter c_affHit cs)"

lemma set_pool_of:
  "set (pool_of cs) = {c \<in> set cs. c_affHit c = (\<exists>c' \<in> set cs. c_affHit c')}"
  by (auto simp: pool_of_def filter_empty_conv)

lemma pool_of_empty: "pool_of cs = [] \<longleftrightarrow> cs = []"
  by (auto simp: pool_of_def filter_empty_conv)

lemma Schedule_alt:
  "Schedule srt ks r req =
     (let cs = candidates_of ks r req in
      if All ks r = [] then Inl NoHealthyNodes
      else if cs = [] then Inl (NoSliceFits (VRAMNeededMiB req) (ModelName req))
      else case (if anySliceAboveThreshold cs then mostFreeSlice (pool_of cs)
                 else leastFitSlice srt (pool_of cs) (VRAMNeededMiB req)) of
        None \<Rightarrow> Inl (CouldNotSelect (ModelName req))
      | Some c \<Rightarrow> Inr (decision_for c (\<exists>c \<in> set cs. c_affHit c)))"
proof -
  have hit: "(\<exists>c \<in> set cs. c_affHit c) \<longleftrightarrow> filter c_affHit cs \<noteq> []" for cs
    by (auto simp: filter_empty_conv)
  show ?thesis unfolding Schedule_def Let_def candidates_of_def pool_of_def hit by (rule refl)
qed

section \<open>What Schedule decides\<close>

text \<open>
  The choice among the candidates, once: an element of the pool that fits, least free in
  pack mode and most free in spread mode. It exists whenever there is a candidate.
\<close>

context slice_sorter
begin

lemma leastFit_Some:
  assumes "find (\<lambda>c. k \<le> f c) (sort_slice (\<lambda>x y. (f x :: int) < f y) xs) = Some c"
  shows "c \<in> set xs \<and> (\<forall>c' \<in> set xs. k \<le> f c' \<longrightarrow> f c \<le> f c')"
  using first_fit [OF assms] by blast

end

lemma leastFitSlice_Some:
  assumes "slice_sorter srt" and "leastFitSlice srt cs needed = Some c"
    and "\<forall>c \<in> set cs. sint needed \<le> c_free c"
  shows "c \<in> set cs \<and> (\<forall>c' \<in> set cs. c_free c \<le> c_free c')"
  using slice_sorter.leastFit_Some [OF assms(1) assms(2) [unfolded leastFitSlice_def]] assms(3)
  by blast

lemma leastFitSlice_None:
  assumes "slice_sorter srt" and "\<forall>c \<in> set cs. sint needed \<le> c_free c"
  shows "leastFitSlice srt cs needed = None \<longleftrightarrow> cs = []"
  using assms(2) unfolding leastFitSlice_def slice_sorter.first_fit_None [OF assms(1)]
  by (cases cs) auto

lemma candidates_fit:
  "enumerates ks (nodes r) \<Longrightarrow> c \<in> set (candidates_of ks r req) \<Longrightarrow>
     sint (VRAMNeededMiB req) \<le> c_free c"
  by (simp add: candidate_placement placements_def c_free_def)

lemma candidates_empty_iff:
  "enumerates ks (nodes r) \<Longrightarrow>
     candidates_of ks r req = [] \<longleftrightarrow> placements r (VRAMNeededMiB req) = {}"
  using set_candidates_of [of ks r req] by (fastforce simp flip: set_empty)

lemma All_empty_iff: "enumerates ks (nodes r) \<Longrightarrow> All ks r = [] \<longleftrightarrow> healthy_nodes r = {}"
  using set_All [of ks r] by (auto simp flip: set_empty)

lemma Schedule_cases:
  fixes req :: ScheduleRequest
  assumes "slice_sorter srt" and ks: "enumerates ks (nodes r)"
  defines "cs \<equiv> candidates_of ks r req"
  obtains (nodes) "healthy_nodes r = {}" "Schedule srt ks r req = Inl NoHealthyNodes"
  | (full) "healthy_nodes r \<noteq> {}" "placements r (VRAMNeededMiB req) = {}"
      "Schedule srt ks r req = Inl (NoSliceFits (VRAMNeededMiB req) (ModelName req))"
  | (placed) c where "c \<in> set (pool_of cs)"
      "\<forall>c' \<in> set (pool_of cs). if spread_mode r (VRAMNeededMiB req)
         then c_free c' \<le> c_free c else c_free c \<le> c_free c'"
      "Schedule srt ks r req = Inr (decision_for c (\<exists>c \<in> set cs. c_affHit c))"
proof -
  have fit: "\<forall>c \<in> set (pool_of cs). sint (VRAMNeededMiB req) \<le> c_free c"
    using candidates_fit [OF ks] by (auto simp: set_pool_of cs_def)
  note spread = anySliceAboveThreshold_iff [OF ks, of req, folded cs_def]
  consider "All ks r = []" | "All ks r \<noteq> []" "cs = []" | "All ks r \<noteq> []" "cs \<noteq> []" by blast
  then show thesis
  proof cases
    case 1
    then show ?thesis using nodes by (simp add: Schedule_alt All_empty_iff [OF ks])
  next
    case 2
    then show ?thesis
      using full by (simp add: Schedule_alt All_empty_iff [OF ks] candidates_empty_iff [OF ks] cs_def)
  next
    case 3
    define res where "res = (if anySliceAboveThreshold cs then mostFreeSlice (pool_of cs)
      else leastFitSlice srt (pool_of cs) (VRAMNeededMiB req))"
    have "pool_of cs \<noteq> []" using 3 by (simp add: pool_of_empty)
    then have "mostFreeSlice (pool_of cs) \<noteq> None"
      and "leastFitSlice srt (pool_of cs) (VRAMNeededMiB req) \<noteq> None"
      using leastFitSlice_None [OF assms(1) fit] mostFreeSlice_None by metis+
    then have "res \<noteq> None" by (simp only: res_def split: if_split) blast
    then obtain c where c: "res = Some c" by blast
    have "c \<in> set (pool_of cs) \<and> (\<forall>c' \<in> set (pool_of cs).
        if spread_mode r (VRAMNeededMiB req) then c_free c' \<le> c_free c else c_free c \<le> c_free c')"
      using c leastFitSlice_Some [OF assms(1) _ fit] mostFreeSlice_Some [of "pool_of cs" c]
      by (auto simp: res_def spread split: if_splits)
    moreover have "Schedule srt ks r req = Inr (decision_for c (\<exists>c \<in> set cs. c_affHit c))"
      using 3 c unfolding Schedule_alt Let_def res_def cs_def [symmetric] by simp
    ultimately show ?thesis using placed by blast
  qed
qed

text \<open>
  The placements \<open>Schedule\<close> may choose: those with the model's weights if there are any,
  and of these the most free in spread mode, the least free in pack mode. All of them have
  the same amount of free memory.
\<close>

definition best_placement :: "NodeRegistry \<Rightarrow> ScheduleRequest \<Rightarrow> GPUNode \<Rightarrow> MIGSlice \<Rightarrow> bool" where
  "best_placement r req n s \<longleftrightarrow>
     (n, s) \<in> placements r (VRAMNeededMiB req) \<and>
     (\<forall>n' s'. (n', s') \<in> placements r (VRAMNeededMiB req) \<longrightarrow>
       (HasWeights n' (ModelName req) \<longrightarrow> HasWeights n (ModelName req)) \<and>
       (HasWeights n' (ModelName req) = HasWeights n (ModelName req) \<longrightarrow>
         (if spread_mode r (VRAMNeededMiB req)
          then sint (s_FreeVRAM s') \<le> sint (s_FreeVRAM s)
          else sint (s_FreeVRAM s) \<le> sint (s_FreeVRAM s'))))"

lemma best_placement_place:
  "best_placement r req n s \<Longrightarrow> (n, s) \<in> placements r (VRAMNeededMiB req)"
  by (simp add: best_placement_def)

lemma best_placement_unique:
  assumes "best_placement r req n s" and "best_placement r req n' s'"
  shows "HasWeights n (ModelName req) = HasWeights n' (ModelName req) \<and> s_FreeVRAM s = s_FreeVRAM s'"
proof -
  from assms have same: "HasWeights n (ModelName req) = HasWeights n' (ModelName req)"
    unfolding best_placement_def by blast
  with assms have "sint (s_FreeVRAM s) = sint (s_FreeVRAM s')"
    unfolding best_placement_def by (meson order_antisym)
  with same show ?thesis by (simp add: signed_word_eqI)
qed

text \<open>What a successful call returns, in terms of the specification.\<close>

lemma Schedule_Inr:
  assumes "slice_sorter srt" and ks: "enumerates ks (nodes r)" and d: "Schedule srt ks r req = Inr d"
  obtains n s where "best_placement r req n s" "decides d n s"
    "d_AffinityHit d = HasWeights n (ModelName req)"
  using assms(1,2)
proof (cases rule: Schedule_cases [where req = req])
  case (placed c)
  let ?cs = "candidates_of ks r req"
  let ?hit = "\<exists>c \<in> set ?cs. c_affHit c"
  have c: "c \<in> set ?cs" "c_affHit c = ?hit" using placed(1) by (auto simp: set_pool_of)
  have place: "(c_node c, c_slice c) \<in> placements r (VRAMNeededMiB req)"
    and aff: "c_affHit c = HasWeights (c_node c) (ModelName req)"
    using c(1) by (simp_all add: candidate_placement [OF ks])
  have eq: "d = decision_for c ?hit" using d placed(3) by simp
  have others: "(HasWeights n' (ModelName req) \<longrightarrow> HasWeights (c_node c) (ModelName req)) \<and>
       (HasWeights n' (ModelName req) = HasWeights (c_node c) (ModelName req) \<longrightarrow>
         (if spread_mode r (VRAMNeededMiB req)
          then sint (s_FreeVRAM s') \<le> sint (s_FreeVRAM (c_slice c))
          else sint (s_FreeVRAM (c_slice c)) \<le> sint (s_FreeVRAM s')))"
    if p: "(n', s') \<in> placements r (VRAMNeededMiB req)" for n' s'
  proof -
    let ?c' = "\<lparr>c_node = n', c_slice = s', c_affHit = HasWeights n' (ModelName req)\<rparr>"
    have c': "?c' \<in> set ?cs" using p by (simp add: candidate_placement [OF ks])
    have "c_affHit ?c' \<longrightarrow> ?hit" using c' by blast
    then have warm: "HasWeights n' (ModelName req) \<longrightarrow> HasWeights (c_node c) (ModelName req)"
      using aff c(2) by simp
    have "if spread_mode r (VRAMNeededMiB req)
        then sint (s_FreeVRAM s') \<le> sint (s_FreeVRAM (c_slice c))
        else sint (s_FreeVRAM (c_slice c)) \<le> sint (s_FreeVRAM s')"
      if "HasWeights n' (ModelName req) = HasWeights (c_node c) (ModelName req)"
    proof -
      have "?c' \<in> set (pool_of ?cs)" using that c' aff c(2) by (simp add: set_pool_of)
      from placed(2) [rule_format, OF this] show ?thesis
        by (simp add: c_free_def split: if_splits)
    qed
    from conjI [OF warm impI [OF this]] show ?thesis .
  qed
  have "best_placement r req (c_node c) (c_slice c)"
    unfolding best_placement_def by (rule conjI [OF place], intro allI, rule impI, rule others)
  moreover have "decides d (c_node c) (c_slice c)" by (simp add: eq decides_def decision_for_def)
  moreover have "d_AffinityHit d = HasWeights (c_node c) (ModelName req)"
    using c(2) aff by (simp add: eq decision_for_def)
  ultimately show ?thesis by (rule that)
qed (use d in auto)

lemmas placement_simps = placements_def slices_of_def healthy_nodes_def decides_def

text \<open>
  C13. Whatever the order of the registry's map and the sort, a decision of \<open>Schedule\<close> names
  a healthy node of the registry and a slice it offers with room for the request, and the
  slice is the best of its class: among the placements whose node agrees on having the
  model's weights, it has the most free memory in spread mode and the least in pack mode.
\<close>

theorem schedule_places_best:
  assumes "slice_sorter srt" and "enumerates ks (nodes r)" and "Schedule srt ks r req = Inr d"
  shows "\<exists>n s. (n, s) \<in> placements r (VRAMNeededMiB req) \<and> decides d n s \<and>
    (\<forall>n' s'. (n', s') \<in> placements r (VRAMNeededMiB req) \<and>
        HasWeights n' (ModelName req) = HasWeights n (ModelName req) \<longrightarrow>
      (if spread_mode r (VRAMNeededMiB req)
       then sint (s_FreeVRAM s') \<le> sint (s_FreeVRAM s)
       else sint (s_FreeVRAM s) \<le> sint (s_FreeVRAM s')))"
proof -
  from assms obtain n s where "best_placement r req n s" "decides d n s" by (rule Schedule_Inr)
  then show ?thesis unfolding best_placement_def by blast
qed

text \<open>Which error, as a function of the registry; there is none exactly when a placement exists.\<close>

lemma schedule_error:
  assumes "slice_sorter srt" and "enumerates ks (nodes r)"
  shows "case Schedule srt ks r req of
      Inr d \<Rightarrow> placements r (VRAMNeededMiB req) \<noteq> {}
    | Inl e \<Rightarrow> placements r (VRAMNeededMiB req) = {} \<and>
        e = (if healthy_nodes r = {} then NoHealthyNodes
             else NoSliceFits (VRAMNeededMiB req) (ModelName req))"
  using assms
proof (cases rule: Schedule_cases [where req = req])
  case nodes
  then show ?thesis by (simp add: placements_def)
next
  case (placed c)
  then have "candidates_of ks r req \<noteq> []" by (auto simp: set_pool_of)
  with placed(3) show ?thesis by (simp add: candidates_empty_iff [OF assms(2)])
qed simp_all

text \<open>
  C21. \<open>Schedule\<close> succeeds exactly when some healthy node offers a slice with room; otherwise
  it reports which of the two it was, and the third error of the code, no slice selected,
  never happens.
\<close>

theorem schedule_error_cases:
  assumes "slice_sorter srt" and "enumerates ks (nodes r)"
  shows "case Schedule srt ks r req of
      Inr d \<Rightarrow> placements r (VRAMNeededMiB req) \<noteq> {}
    | Inl NoHealthyNodes \<Rightarrow> healthy_nodes r = {}
    | Inl (NoSliceFits v m) \<Rightarrow> v = VRAMNeededMiB req \<and> m = ModelName req \<and>
        healthy_nodes r \<noteq> {} \<and> placements r (VRAMNeededMiB req) = {}
    | Inl (CouldNotSelect m) \<Rightarrow> False"
  using schedule_error [OF assms, of req] by (auto split: sum.splits if_splits)

text \<open>
  Weight affinity: \<open>AffinityHit\<close> is set exactly when some placement's node has the
  model's weights cached, and then the node the decision names is one that has them.
\<close>

theorem schedule_affinity:
  assumes "slice_sorter srt" and "enumerates ks (nodes r)" and "Schedule srt ks r req = Inr d"
  shows "(d_AffinityHit d \<longleftrightarrow>
      (\<exists>(n, s) \<in> placements r (VRAMNeededMiB req). HasWeights n (ModelName req))) \<and>
    (d_AffinityHit d \<longrightarrow> (\<exists>n \<in> healthy_nodes r. HasWeights n (ModelName req) \<and>
      NodeID n = d_NodeID d \<and> GPUID n = d_GPUID d))"
proof -
  from assms obtain n s where ns: "best_placement r req n s" "decides d n s"
    "d_AffinityHit d = HasWeights n (ModelName req)"
    by (rule Schedule_Inr)
  then have "n \<in> healthy_nodes r" "(n, s) \<in> placements r (VRAMNeededMiB req)"
    by (simp_all add: best_placement_def placements_def)
  with ns show ?thesis by (fastforce simp: best_placement_def decides_def)
qed

text \<open>
  C20. A placement never exceeds the memory of its slice: where no reported capacity or
  usage is negative, the usage of the chosen slice plus the request is at most its capacity,
  with no wrap-around hiding an overflow.
\<close>

theorem schedule_within_capacity:
  assumes "slice_sorter srt" and "enumerates ks (nodes r)" and "Schedule srt ks r req = Inr d"
    and reported: "\<And>n s. n \<in> healthy_nodes r \<Longrightarrow> s \<in> slices_of n \<Longrightarrow>
      0 \<le> sint (s_TotalVRAMMiB s) \<and> 0 \<le> sint (s_UsedVRAMMiB s)"
  shows "\<exists>n \<in> healthy_nodes r. \<exists>s \<in> slices_of n. decides d n s \<and>
    sint (s_UsedVRAMMiB s) + sint (VRAMNeededMiB req) \<le> sint (s_TotalVRAMMiB s)"
proof -
  from assms(1-3) obtain n s where ns: "best_placement r req n s" "decides d n s"
    by (rule Schedule_Inr)
  then have mem: "n \<in> healthy_nodes r" "s \<in> slices_of n"
    and fit: "sint (VRAMNeededMiB req) \<le> sint (s_FreeVRAM s)"
    by (simp_all add: best_placement_def placements_def)
  then have "sint (s_UsedVRAMMiB s) + sint (VRAMNeededMiB req) \<le> sint (s_TotalVRAMMiB s)"
    using reported [OF mem] sint_s_FreeVRAM [of s] by linarith
  with ns mem show ?thesis by blast
qed

text \<open>
  The choices the language leaves open do not matter beyond ties: two calls that visit
  the same registry in different orders and sort with different sorts decide for slices with
  the same amount of free memory and agree on the affinity hit, and fail alike.
\<close>

theorem schedule_order_independent:
  assumes "slice_sorter srt" and "enumerates ks (nodes r)"
    and "slice_sorter srt'" and "enumerates ks' (nodes r)"
  shows "case (Schedule srt ks r req, Schedule srt' ks' r req) of
      (Inl e, Inl e') \<Rightarrow> e = e'
    | (Inr d, Inr d') \<Rightarrow> d_AffinityHit d = d_AffinityHit d' \<and>
        (\<exists>n s n' s'. decides d n s \<and> decides d' n' s' \<and>
          (n, s) \<in> placements r (VRAMNeededMiB req) \<and>
          (n', s') \<in> placements r (VRAMNeededMiB req) \<and> s_FreeVRAM s = s_FreeVRAM s')
    | _ \<Rightarrow> False"
proof -
  note errs = schedule_error [OF assms(1,2), of req] schedule_error [OF assms(3,4), of req]
  consider e e' where "Schedule srt ks r req = Inl e" "Schedule srt' ks' r req = Inl e'"
    | d d' where "Schedule srt ks r req = Inr d" "Schedule srt' ks' r req = Inr d'"
    using errs by (cases "Schedule srt ks r req"; cases "Schedule srt' ks' r req") auto
  then show ?thesis
  proof cases
    case (1 e e')
    then show ?thesis using errs by auto
  next
    case (2 d d')
    from assms(1,2) 2(1) obtain n s where ns: "best_placement r req n s" "decides d n s"
      "d_AffinityHit d = HasWeights n (ModelName req)" by (rule Schedule_Inr)
    from assms(3,4) 2(2) obtain n' s' where ns': "best_placement r req n' s'" "decides d' n' s'"
      "d_AffinityHit d' = HasWeights n' (ModelName req)" by (rule Schedule_Inr)
    have "d_AffinityHit d = d_AffinityHit d'" "s_FreeVRAM s = s_FreeVRAM s'"
      using best_placement_unique [OF ns(1) ns'(1)] ns(3) ns'(3) by simp_all
    with ns(1,2) ns'(1,2) best_placement_place show ?thesis unfolding 2 by fastforce
  qed
qed

section \<open>The spread threshold\<close>

text \<open>
  C37. The floating-point test for spread mode decides the intended inequality exactly: for
  usages below \<open>2 ^ 53\<close> MiB and capacities up to \<open>2 ^ 45\<close> MiB, spread mode is on exactly
  when some placement's slice is used to more than 85 percent as a quotient of integers, no
  rounding of the division or the multiplication moving it either way.
\<close>

theorem spread_mode_exact:
  assumes "\<And>n s. n \<in> healthy_nodes r \<Longrightarrow> s \<in> slices_of n \<Longrightarrow>
    0 \<le> sint (s_UsedVRAMMiB s) \<and> sint (s_UsedVRAMMiB s) < 2 ^ 53 \<and>
    0 \<le> sint (s_TotalVRAMMiB s) \<and> sint (s_TotalVRAMMiB s) \<le> 2 ^ 45"
  shows "spread_mode r needed \<longleftrightarrow> (\<exists>(n, s) \<in> placements r needed.
    s_TotalVRAMMiB s \<noteq> 0 \<and> 85 * sint (s_TotalVRAMMiB s) < 100 * sint (s_UsedVRAMMiB s))"
proof -
  have "f64_gt (s_VRAMUtilizationPct s) VRAMEvictionThresholdPct \<longleftrightarrow>
      s_TotalVRAMMiB s \<noteq> 0 \<and> 85 * sint (s_TotalVRAMMiB s) < 100 * sint (s_UsedVRAMMiB s)"
    if "(n, s) \<in> placements r needed" for n s
  proof -
    have "n \<in> healthy_nodes r" "s \<in> slices_of n" using that by (simp_all add: placements_def)
    from assms [OF this] show ?thesis
      by (simp add: VRAMEvictionThresholdPct_def s_VRAMUtilizationPct_gt_85)
  qed
  then show ?thesis unfolding spread_mode_def by fast
qed

section \<open>The two views of a node's room\<close>

text \<open>
  \<open>GPUNode.FreeVRAM\<close> is the right feasibility check: for a request of at least 1 MiB a
  node has a candidate exactly when its \<open>FreeVRAM\<close> covers the request, on MIG nodes and on
  plain ones.
\<close>

theorem free_vram_decides_feasibility:
  assumes "0 < sint needed"
  shows "expandNodeForModel n needed m \<noteq> [] \<longleftrightarrow> sint needed \<le> sint (FreeVRAM n)"
proof (cases "\<not> MIGEnabled n \<or> MIGSlices n = []")
  case True
  then show ?thesis
    by (auto simp: expandNodeForModel_def FreeVRAM_def SyntheticFullSlice_def s_FreeVRAM_def Let_def)
next
  case False
  have "expandNodeForModel n needed m \<noteq> [] \<longleftrightarrow>
      (\<exists>s \<in> slices_of n. sint needed \<le> sint (s_FreeVRAM s))"
    unfolding set_empty [symmetric] set_expandNodeForModel by blast
  with False assms show ?thesis by (auto simp: slices_of_def FreeVRAM_def le_max_free_iff)
qed

lemma set_expandNode:
  "set (expandNode n needed) = {\<lparr>c_node = n, c_slice = s, c_affHit = False\<rparr> | s.
     s \<in> slices_of n \<and> sint needed \<le> sint (s_FreeVRAM s)}"
  by (auto simp: expandNode_def slices_of_def Let_def not_less)

text \<open>The free memory of each choice, as the extremum of what is on offer.\<close>

lemma mostFreeSlice_value:
  assumes "cs \<noteq> []"
  shows "map_option c_free (mostFreeSlice cs) = Some (Max (c_free ` set cs))"
proof -
  from assms obtain c where c: "mostFreeSlice cs = Some c" using mostFreeSlice_None by blast
  with mostFreeSlice_Some [OF c] have "Max (c_free ` set cs) = c_free c" by (intro Max_eqI) auto
  with c show ?thesis by simp
qed

lemma leastFitSlice_value:
  assumes "slice_sorter srt" and "\<forall>c \<in> set cs. sint needed \<le> c_free c" and "cs \<noteq> []"
  shows "map_option c_free (leastFitSlice srt cs needed) = Some (Min (c_free ` set cs))"
proof -
  from assms obtain c where c: "leastFitSlice srt cs needed = Some c"
    using leastFitSlice_None by blast
  with leastFitSlice_Some [OF assms(1) c assms(2)] have "Min (c_free ` set cs) = c_free c"
    by (intro Min_eqI) auto
  with c show ?thesis by simp
qed

lemma best_slice_value:
  assumes "{s \<in> set ss. fits needed s} \<noteq> {}"
  defines "fs \<equiv> (\<lambda>s. sint (s_FreeVRAM s)) ` {s \<in> set ss. fits needed s}"
  shows "map_option (\<lambda>s. sint (s_FreeVRAM s)) (best_slice needed sp ss None) =
    Some (if sp then Max fs else Min fs)"
proof -
  from assms(1) obtain b where b: "best_slice needed sp ss None = Some b"
    using best_slice_None_iff [of needed sp ss None] by blast
  have mem: "b \<in> set ss" "fits needed b" using best_slice_mem [OF b] by simp_all
  have "(if sp then Max fs else Min fs) = sint (s_FreeVRAM b)"
  proof (cases sp)
    case True
    with b mem best_slice_most [of needed ss None b] show ?thesis
      by (auto simp: fs_def intro!: Max_eqI)
  next
    case False
    with b mem best_slice_least [of needed ss None b] show ?thesis
      by (auto simp: fs_def intro!: Min_eqI)
  qed
  with b show ?thesis by simp
qed

text \<open>
  \<open>BestSliceFor\<close> and the bin packer choose alike on one MIG node: there is a best slice
  exactly when the packer's expansion of the node has a candidate, and the packer's choice
  in the same mode has the same amount of free memory.
\<close>

theorem best_slice_agrees_with_packer:
  assumes "slice_sorter srt" and mig: "MIGEnabled n" "MIGSlices n \<noteq> []"
  shows "map_option (\<lambda>s. sint (s_FreeVRAM s)) (BestSliceFor n needed spread) =
    map_option c_free (if spread then mostFreeSlice (expandNode n needed)
      else leastFitSlice srt (expandNode n needed) needed)"
proof -
  let ?cs = "expandNode n needed" and ?fit = "{s \<in> set (MIGSlices n). fits needed s}"
  have set: "set ?cs = (\<lambda>s. \<lparr>c_node = n, c_slice = s, c_affHit = False\<rparr>) ` ?fit"
    using mig by (auto simp: set_expandNode slices_of_def fits_def)
  then have free: "c_free ` set ?cs = (\<lambda>s. sint (s_FreeVRAM s)) ` ?fit"
    by (simp add: image_image c_free_def)
  have fit: "\<forall>c \<in> set ?cs. sint needed \<le> c_free c"
    unfolding set by (auto simp: fits_def c_free_def)
  have best: "BestSliceFor n needed spread = best_slice needed spread (MIGSlices n) None"
    using mig by (simp add: BestSliceFor_def)
  show ?thesis
  proof (cases "?fit = {}")
    case True
    then have "set ?cs = {}" unfolding set by simp
    then have "?cs = []" by simp
    moreover have "leastFitSlice srt [] needed = None"
      using leastFitSlice_None [OF assms(1), of "[]"] by simp
    ultimately show ?thesis
      using True best_slice_None_iff [of needed spread "MIGSlices n" None]
      by (auto simp: best mostFreeSlice_def)
  next
    case False
    then have "set ?cs \<noteq> {}" unfolding set by simp
    then have "?cs \<noteq> []" by auto
    then show ?thesis
      unfolding best best_slice_value [OF False] free [symmetric]
      by (cases spread) (simp_all add: mostFreeSlice_value leastFitSlice_value [OF assms(1) fit])
  qed
qed

text \<open>
  C19. \<open>Schedule\<close> and \<open>BestSliceFor\<close> are two pieces of code for one choice, a sort or a scan of the candidates
  of the cluster and a scan of one node's slices, and they agree: on every cluster, the slice of a
  decision for a MIG node has as much free memory as the one \<open>BestSliceFor\<close> picks on that node in the mode of
  the cluster, and is that slice when no two of the node's slices tie; and when \<open>Schedule\<close> fails, \<open>BestSliceFor\<close>
  finds nothing on any healthy node.
\<close>

theorem schedule_agrees_with_best_slice:
  assumes "slice_sorter srt" and "enumerates ks (nodes r)"
  shows "case Schedule srt ks r req of
      Inl e \<Rightarrow> \<forall>n \<in> healthy_nodes r. \<forall>spread. BestSliceFor n (VRAMNeededMiB req) spread = None
    | Inr d \<Rightarrow> \<exists>n \<in> healthy_nodes r. \<exists>s'. decides d n s' \<and> s' \<in> slices_of n \<and>
        (MIGEnabled n \<and> MIGSlices n \<noteq> [] \<longrightarrow>
          (\<exists>s. BestSliceFor n (VRAMNeededMiB req) (spread_mode r (VRAMNeededMiB req)) = Some s \<and>
            s_FreeVRAM s = s_FreeVRAM s' \<and> (inj_on s_FreeVRAM (slices_of n) \<longrightarrow> s = s')))"
proof -
  let ?need = "VRAMNeededMiB req" and ?fs = "\<lambda>n. {s \<in> set (MIGSlices n). fits (VRAMNeededMiB req) s}"
  have place: "(n, s) \<in> placements r ?need \<longleftrightarrow> s \<in> ?fs n"
    if "n \<in> healthy_nodes r" "MIGEnabled n" "MIGSlices n \<noteq> []" for n s
    using that by (auto simp: placements_def slices_of_def fits_def)
  show ?thesis
  proof (cases "Schedule srt ks r req")
    case (Inl e)
    with schedule_error [OF assms, of req] have none: "placements r ?need = {}" by simp
    have "BestSliceFor n ?need spread = None" if "n \<in> healthy_nodes r" for n spread
      using place [OF that] none best_slice_None_iff [of ?need spread "MIGSlices n" None]
      by (auto simp: BestSliceFor_def)
    with Inl show ?thesis by simp
  next
    case (Inr d)
    with assms obtain n s' where ns: "best_placement r req n s'" "decides d n s'" by (rule Schedule_Inr)
    then have n: "n \<in> healthy_nodes r" "s' \<in> slices_of n" "(n, s') \<in> placements r ?need"
      by (simp_all add: best_placement_def placements_def)
    have "\<exists>s. BestSliceFor n ?need (spread_mode r ?need) = Some s \<and> s_FreeVRAM s = s_FreeVRAM s' \<and>
        (inj_on s_FreeVRAM (slices_of n) \<longrightarrow> s = s')" if mig: "MIGEnabled n" "MIGSlices n \<noteq> []"
    proof -
      have "s' \<in> ?fs n" using place [OF n(1) mig] n(3) by blast
      then obtain s where s: "best_slice ?need (spread_mode r ?need) (MIGSlices n) None = Some s"
        using best_slice_None_iff [of ?need "spread_mode r ?need" "MIGSlices n" None] by blast
      then have mem: "s \<in> ?fs n" using best_slice_mem [OF s] by simp
      then have "if spread_mode r ?need then sint (s_FreeVRAM s) \<le> sint (s_FreeVRAM s')
          else sint (s_FreeVRAM s') \<le> sint (s_FreeVRAM s)"
        using ns(1) place [OF n(1) mig, of s] by (simp add: best_placement_def)
      moreover have "if spread_mode r ?need then sint (s_FreeVRAM s') \<le> sint (s_FreeVRAM s)
          else sint (s_FreeVRAM s) \<le> sint (s_FreeVRAM s')"
        using \<open>s' \<in> ?fs n\<close> s best_slice_most [of ?need "MIGSlices n" None s]
          best_slice_least [of ?need "MIGSlices n" None s] by (cases "spread_mode r ?need") auto
      ultimately have "sint (s_FreeVRAM s) = sint (s_FreeVRAM s')" by (simp split: if_splits)
      then have "s_FreeVRAM s = s_FreeVRAM s'" by (simp add: signed_word_eqI)
      moreover have "s \<in> slices_of n" using mem mig by (simp add: slices_of_def fits_def)
      ultimately show ?thesis using s n(2) mig by (auto simp: BestSliceFor_def inj_on_def)
    qed
    with Inr n ns(2) show ?thesis by auto
  qed
qed

section \<open>Concrete runs\<close>

text \<open>
  The cluster of the packer's first test: two GPUs of 1000 MiB, the first with the weights
  of model \<open>x\<close> cached.
\<close>

definition demo_a :: GPUNode where
  "demo_a = (plain_node ''a'' ''g'' 1000 100)\<lparr>ModelWeightAffinity := [''x'' \<mapsto> 50]\<rparr>"

definition demo_b :: GPUNode where
  "demo_b = plain_node ''b'' ''g'' 1000 150"

definition demo_reg :: NodeRegistry where
  "demo_reg = Upsert demo_a (Upsert demo_b NewNodeRegistry)"

definition demo_keys :: "string list" where
  "demo_keys = [''a/g'', ''b/g'']"

definition demo_req :: ScheduleRequest where
  "demo_req = \<lparr>ModelName = ''x'', VRAMNeededMiB = 100, Priority = P0Production\<rparr>"

definition demo_decision :: ScheduleDecision where
  "demo_decision = \<lparr>d_NodeID = ''a'', d_GPUID = ''g'', d_SliceID = [], d_MIGEnabled = False,
     d_AffinityHit = True\<rparr>"

lemmas demo_defs = demo_a_def demo_b_def demo_reg_def demo_keys_def demo_req_def
  demo_decision_def plain_node_def NewNodeRegistry_def P0Production_def

lemma nodes_demo_reg:
  "nodes demo_reg = [''b/g'' \<mapsto> demo_b\<lparr>Healthy := True\<rparr>, ''a/g'' \<mapsto> demo_a\<lparr>Healthy := True\<rparr>]"
  by (simp add: demo_defs nodes_Upsert key_of_def node_key_def slash_def)

lemma demo_enumerates: "enumerates demo_keys (nodes demo_reg)" "enumerates (rev demo_keys) (nodes demo_reg)"
  by (auto simp: nodes_demo_reg enumerates_def demo_keys_def)

lemma demo_schedule:
  "Schedule insertion_sort demo_keys demo_reg demo_req = Inr demo_decision"
  "Schedule insertion_sort (rev demo_keys) demo_reg demo_req = Inr demo_decision"
  by code_simp+

lemma demo_req_fields [simp]: "VRAMNeededMiB demo_req = 100" "ModelName demo_req = ''x''"
  by (simp_all add: demo_req_def)

lemma demo_healthy: "healthy_nodes demo_reg = {demo_a\<lparr>Healthy := True\<rparr>, demo_b\<lparr>Healthy := True\<rparr>}"
proof -
  have "All demo_keys demo_reg = [demo_a\<lparr>Healthy := True\<rparr>, demo_b\<lparr>Healthy := True\<rparr>]"
    by (simp add: All_def demo_keys_def nodes_demo_reg List.map_filter_simps)
  with set_All [OF demo_enumerates(1)] show ?thesis by simp
qed

lemma demo_slices:
  "n \<in> healthy_nodes demo_reg \<Longrightarrow> s \<in> slices_of n \<Longrightarrow>
     s_TotalVRAMMiB s = 1000 \<and> (s_UsedVRAMMiB s = 100 \<or> s_UsedVRAMMiB s = 150)"
  by (auto simp: demo_healthy slices_of_def SyntheticFullSlice_def demo_a_def demo_b_def
      plain_node_def)

theorem schedule_places_best_witness:
  "\<exists>n s. (n, s) \<in> placements demo_reg 100 \<and> decides demo_decision n s"
  using schedule_places_best [OF go_insertion.slice_sorter_axioms demo_enumerates(1) demo_schedule(1)]
  by auto

theorem schedule_error_cases_witness:
  "placements demo_reg 100 \<noteq> {}"
  using schedule_error_cases [OF go_insertion.slice_sorter_axioms demo_enumerates(1), of demo_req]
  by (simp add: demo_schedule)

theorem schedule_affinity_witness:
  "\<exists>n \<in> healthy_nodes demo_reg. HasWeights n ''x'' \<and> NodeID n = ''a''"
  using schedule_affinity [OF go_insertion.slice_sorter_axioms demo_enumerates(1) demo_schedule(1)]
  by (auto simp: demo_decision_def)

theorem schedule_within_capacity_witness:
  "\<exists>n \<in> healthy_nodes demo_reg. \<exists>s \<in> slices_of n. decides demo_decision n s \<and>
    sint (s_UsedVRAMMiB s) + 100 \<le> sint (s_TotalVRAMMiB s)"
proof -
  have "0 \<le> sint (s_TotalVRAMMiB s) \<and> 0 \<le> sint (s_UsedVRAMMiB s)"
    if "n \<in> healthy_nodes demo_reg" "s \<in> slices_of n" for n s
    using demo_slices [OF that] by auto
  from schedule_within_capacity [OF go_insertion.slice_sorter_axioms demo_enumerates(1)
      demo_schedule(1) this]
  show ?thesis by simp
qed

theorem schedule_order_independent_witness:
  "\<exists>n s n' s'. decides demo_decision n s \<and> (n', s') \<in> placements demo_reg 100 \<and>
    s_FreeVRAM s = s_FreeVRAM s'"
  using schedule_order_independent [OF go_insertion.slice_sorter_axioms demo_enumerates(1)
      go_insertion.slice_sorter_axioms demo_enumerates(2), of demo_req]
  by (auto simp: demo_schedule)

theorem spread_mode_exact_witness:
  "spread_mode demo_reg 100 \<longleftrightarrow> (\<exists>(n, s) \<in> placements demo_reg 100.
    s_TotalVRAMMiB s \<noteq> 0 \<and> 85 * sint (s_TotalVRAMMiB s) < 100 * sint (s_UsedVRAMMiB s))"
proof (rule spread_mode_exact)
  fix n s assume "n \<in> healthy_nodes demo_reg" "s \<in> slices_of n"
  from demo_slices [OF this]
  show "0 \<le> sint (s_UsedVRAMMiB s) \<and> sint (s_UsedVRAMMiB s) < 2 ^ 53 \<and>
    0 \<le> sint (s_TotalVRAMMiB s) \<and> sint (s_TotalVRAMMiB s) \<le> 2 ^ 45" by auto
qed

theorem free_vram_decides_feasibility_witness:
  "expandNodeForModel demo_a 900 ''x'' \<noteq> [] \<and> expandNodeForModel demo_a 901 ''x'' = []"
proof -
  have "sint (FreeVRAM demo_a) = 900" by (simp add: FreeVRAM_def demo_defs)
  then show ?thesis
    using free_vram_decides_feasibility [of 900 demo_a "''x''"]
      free_vram_decides_feasibility [of 901 demo_a "''x''"] by simp
qed

text \<open>The MIG node of the slice-selection test: 18, 12 and 8 GiB free, a request of 7 GiB.\<close>

definition mig_slice :: "string \<Rightarrow> i64 \<Rightarrow> i64 \<Rightarrow> MIGSlice" where
  "mig_slice sid cap used = \<lparr>s_SliceID = sid, s_Profile = MIGProfile2g20gb, s_TotalVRAMMiB = cap,
     s_UsedVRAMMiB = used, s_LoadedModels = [], s_Healthy = True\<rparr>"

definition demo_mig :: GPUNode where
  "demo_mig = (plain_node ''m'' ''g'' 61440 22528)\<lparr>MIGEnabled := True, MIGSlices :=
     [mig_slice ''0/0/0'' 20480 2048, mig_slice ''1/0/0'' 20480 8192, mig_slice ''2/0/0'' 20480 12288]\<rparr>"

theorem best_slice_agrees_with_packer_witness:
  "BestSliceFor demo_mig 7168 False = Some (mig_slice ''2/0/0'' 20480 12288) \<and>
   map_option c_free (leastFitSlice insertion_sort (expandNode demo_mig 7168) 7168) = Some 8192"
proof -
  have b: "BestSliceFor demo_mig 7168 False = Some (mig_slice ''2/0/0'' 20480 12288)"
    by code_simp
  have "MIGEnabled demo_mig" "MIGSlices demo_mig \<noteq> []" by (simp_all add: demo_mig_def)
  from best_slice_agrees_with_packer [OF go_insertion.slice_sorter_axioms this, of 7168 False]
  have "map_option c_free (leastFitSlice insertion_sort (expandNode demo_mig 7168) 7168) = Some 8192"
    by (simp add: b mig_slice_def s_FreeVRAM_def)
  with b show ?thesis by simp
qed

definition mig_reg :: NodeRegistry where
  "mig_reg = Upsert demo_mig NewNodeRegistry"

lemma mig_healthy: "healthy_nodes mig_reg = {demo_mig\<lparr>Healthy := True\<rparr>}" "enumerates [''m/g''] (nodes mig_reg)"
  by (auto simp: mig_reg_def healthy_nodes_def nodes_Upsert NewNodeRegistry_def enumerates_def ran_def
      key_of_def node_key_def slash_def demo_mig_def plain_node_def split: if_splits)

lemma mig_schedule: "Schedule insertion_sort [''m/g''] mig_reg \<lparr>ModelName = ''x'', VRAMNeededMiB = 7168, Priority = 0\<rparr> =
    Inr \<lparr>d_NodeID = ''m'', d_GPUID = ''g'', d_SliceID = ''2/0/0'', d_MIGEnabled = True, d_AffinityHit = False\<rparr>"
  by code_simp

theorem schedule_agrees_with_best_slice_witness:
  "\<exists>s. BestSliceFor (demo_mig\<lparr>Healthy := True\<rparr>) 7168 (spread_mode mig_reg 7168) = Some s \<and> s_SliceID s = ''2/0/0''"
proof -
  let ?n = "demo_mig\<lparr>Healthy := True\<rparr>"
  have n: "inj_on s_FreeVRAM (slices_of ?n)" "MIGEnabled ?n" "MIGSlices ?n \<noteq> []"
    by (auto simp: inj_on_def slices_of_def demo_mig_def plain_node_def mig_slice_def s_FreeVRAM_def)
  from schedule_agrees_with_best_slice [OF go_insertion.slice_sorter_axioms mig_healthy(2),
      of "\<lparr>ModelName = ''x'', VRAMNeededMiB = 7168, Priority = 0\<rparr>", unfolded mig_schedule mig_healthy(1)]
  obtain s where "BestSliceFor ?n 7168 (spread_mode mig_reg 7168) = Some s"
    "decides \<lparr>d_NodeID = ''m'', d_GPUID = ''g'', d_SliceID = ''2/0/0'', d_MIGEnabled = True, d_AffinityHit = False\<rparr> ?n s"
    using n by (simp only: sum.case ScheduleRequest.select_convs) blast
  with n(2) show ?thesis by (simp add: decides_def)
qed
definition hot_reg :: NodeRegistry where
  "hot_reg = Upsert (plain_node ''h'' ''g'' 1000 990) (Upsert (plain_node ''a'' ''g'' 1000 500)
     (Upsert (plain_node ''b'' ''g'' 1000 100) NewNodeRegistry))"

text \<open>
  The 85 percent rule looks only at slices that can take the request: a GPU at 99
  percent with too little room for it does not switch the packer to spread mode. Here GPU
  \<open>h\<close> is at 99 percent, and a request of 100 MiB is packed on the half-full GPU \<open>a\<close>, the
  fuller of the other two, although the threshold is exceeded in the cluster.
\<close>

theorem full_gpu_does_not_trigger_spread:
  "anyAboveThreshold (All [''h/g'', ''a/g'', ''b/g''] hot_reg) \<and>
   Schedule insertion_sort [''h/g'', ''a/g'', ''b/g''] hot_reg demo_req =
     Inr \<lparr>d_NodeID = ''a'', d_GPUID = ''g'', d_SliceID = [], d_MIGEnabled = False,
       d_AffinityHit = False\<rparr>"
  by code_simp

end
