(* ===== verification/Go_Heap.thy ===== *)
theory Go_Heap
  imports Prelude
begin

text \<open>
  The standard library's \<open>container/heap\<close>, which the task queue is built on: the sifting
  loops \<open>up\<close> and \<open>down\<close> over an array, given the \<open>Less\<close> and \<open>Swap\<close> of the element type.
  The lemmas are proved once for integer keys and carried to the element type by a
  commutation lemma: what a loop does to the keys of the elements it would do to a list
  that held the keys only.
\<close>

section \<open>The loops\<close>

definition par :: "nat \<Rightarrow> nat" where
  "par j = (j - 1) div 2"

lemma par_less: "0 < j \<Longrightarrow> par j < j"
  by (auto simp: par_def)

lemma par_le: "par j \<le> j"
  by (auto simp: par_def)

lemma par_iff: "0 < c \<Longrightarrow> par c = i \<longleftrightarrow> c = 2 * i + 1 \<or> c = 2 * i + 2"
  by (auto simp: par_def)

function heap_up :: "('a \<Rightarrow> 'a \<Rightarrow> bool) \<Rightarrow> (nat \<Rightarrow> nat \<Rightarrow> 'a list \<Rightarrow> 'a list) \<Rightarrow> nat \<Rightarrow> 'a list \<Rightarrow> 'a list"
where
  "heap_up lt swp j xs =
     (let i = par j in
      if i = j \<or> \<not> lt (xs ! j) (xs ! i) then xs else heap_up lt swp i (swp i j xs))"
  by pat_completeness auto
termination
  by (relation "measure (\<lambda>(lt, swp, j, xs). j)") (auto simp: par_def)

function heap_down ::
  "('a \<Rightarrow> 'a \<Rightarrow> bool) \<Rightarrow> (nat \<Rightarrow> nat \<Rightarrow> 'a list \<Rightarrow> 'a list) \<Rightarrow> nat \<Rightarrow> nat \<Rightarrow> 'a list \<Rightarrow> 'a list"
where
  "heap_down lt swp i n xs =
     (let j1 = 2 * i + 1 in
      if n \<le> j1 then xs
      else let j = (if j1 + 1 < n \<and> lt (xs ! (j1 + 1)) (xs ! j1) then j1 + 1 else j1) in
        if \<not> lt (xs ! j) (xs ! i) then xs else heap_down lt swp j n (swp i j xs))"
  by pat_completeness auto
termination
  by (relation "measure (\<lambda>(lt, swp, i, n, xs). n - i)") auto

declare heap_up.simps [simp del] heap_down.simps [simp del]

text \<open>\<open>heap.Init\<close> sifts down from the last inner node to the root.\<close>

definition heap_init :: "('a \<Rightarrow> 'a \<Rightarrow> bool) \<Rightarrow> (nat \<Rightarrow> nat \<Rightarrow> 'a list \<Rightarrow> 'a list) \<Rightarrow> 'a list \<Rightarrow> 'a list"
where
  "heap_init lt swp xs = fold (\<lambda>i ys. heap_down lt swp i (length xs) ys) (rev [0..<length xs div 2]) xs"

text \<open>Swapping two elements of a list, and nothing else.\<close>

definition lswap :: "nat \<Rightarrow> nat \<Rightarrow> 'a list \<Rightarrow> 'a list" where
  "lswap i j xs = xs[i := xs ! j, j := xs ! i]"

lemma length_lswap [simp]: "length (lswap i j xs) = length xs"
  by (simp add: lswap_def)

lemma nth_lswap:
  "i < length xs \<Longrightarrow> j < length xs \<Longrightarrow> k < length xs \<Longrightarrow>
     lswap i j xs ! k = (if k = j then xs ! i else if k = i then xs ! j else xs ! k)"
  by (auto simp: lswap_def nth_list_update)

lemma mset_lswap: "i < length xs \<Longrightarrow> j < length xs \<Longrightarrow> mset (lswap i j xs) = mset xs"
  by (simp add: lswap_def mset_swap)

section \<open>Elements and their keys\<close>

text \<open>
  The interface a heap asks of its element type: \<open>Less\<close> compares a view of the elements and
  \<open>Swap\<close> exchanges the views, whatever else it writes.
\<close>

locale heap_elements =
  fixes lt :: "'a \<Rightarrow> 'a \<Rightarrow> bool"
    and swp :: "nat \<Rightarrow> nat \<Rightarrow> 'a list \<Rightarrow> 'a list"
    and view :: "'a \<Rightarrow> 'b"
    and vlt :: "'b \<Rightarrow> 'b \<Rightarrow> bool"
  assumes lt_view: "lt x y \<longleftrightarrow> vlt (view x) (view y)"
    and swp_view: "i < length xs \<Longrightarrow> j < length xs \<Longrightarrow>
      map view (swp i j xs) = lswap i j (map view xs)"
begin

lemma length_swp: "i < length xs \<Longrightarrow> j < length xs \<Longrightarrow> length (swp i j xs) = length xs"
  using swp_view [of i xs j] by (metis length_lswap length_map)

lemma up_view:
  "j < length xs \<Longrightarrow> map view (heap_up lt swp j xs) = heap_up vlt lswap j (map view xs)"
proof (induction j arbitrary: xs rule: less_induct)
  case (less j)
  show ?case
  proof (cases "par j = j \<or> \<not> lt (xs ! j) (xs ! par j)")
    case True
    then show ?thesis
      using less.prems par_le [of j] by (auto simp: heap_up.simps [of _ _ j] lt_view Let_def)
  next
    case False
    with par_le [of j] have p: "par j < j" by simp
    with less.prems have sw: "map view (swp (par j) j xs) = lswap (par j) j (map view xs)"
      and len: "par j < length (swp (par j) j xs)"
      by (simp_all add: swp_view length_swp)
    from less.IH [OF p len] False p less.prems show ?thesis
      by (simp add: heap_up.simps [of _ _ j] lt_view Let_def sw)
  qed
qed

lemma length_up: "j < length xs \<Longrightarrow> length (heap_up lt swp j xs) = length (heap_up vlt lswap j (map view xs))"
  by (metis up_view length_map)

lemma down_view:
  "n \<le> length xs \<Longrightarrow>
     map view (heap_down lt swp i n xs) = heap_down vlt lswap i n (map view xs)"
proof (induction "n - i" arbitrary: i xs rule: less_induct)
  case less
  show ?case
  proof (cases "n \<le> 2 * i + 1")
    case True
    then show ?thesis by (simp add: heap_down.simps [of _ _ i])
  next
    case False
    define j where "j = (if 2 * i + 2 < n \<and> lt (xs ! (2 * i + 2)) (xs ! (2 * i + 1))
      then 2 * i + 2 else 2 * i + 1)"
    have j: "j < n" "i < j" using False by (auto simp: j_def)
    have jv: "j = (if 2 * i + 2 < n \<and> vlt (map view xs ! (2 * i + 2)) (map view xs ! (2 * i + 1))
      then 2 * i + 2 else 2 * i + 1)"
      using False less.prems by (simp add: j_def lt_view)
    have L: "heap_down lt swp i n xs = (if \<not> lt (xs ! j) (xs ! i) then xs
        else heap_down lt swp j n (swp i j xs))"
      using False by (simp add: heap_down.simps [of _ _ i] j_def Let_def)
    have R: "heap_down vlt lswap i n (map view xs) =
        (if \<not> vlt (map view xs ! j) (map view xs ! i) then map view xs
         else heap_down vlt lswap j n (lswap i j (map view xs)))"
      using False by (simp add: heap_down.simps [of _ _ i] jv Let_def)
    have "map view (heap_down lt swp j n (swp i j xs)) = heap_down vlt lswap j n (map view (swp i j xs))"
      using j less.prems by (intro less.hyps) (simp_all add: length_swp)
    then show ?thesis
      using j less.prems by (simp add: L R lt_view swp_view)
  qed
qed

end

section \<open>The loops on plain lists\<close>

lemma length_heap_up [simp]: "length (heap_up lt lswap j xs) = length xs"
proof (induction j arbitrary: xs rule: less_induct)
  case (less j)
  show ?case
  proof (cases "par j = j")
    case True
    then show ?thesis by (simp add: heap_up.simps [of _ _ j] Let_def)
  next
    case False
    with par_le [of j] have "par j < j" by simp
    with less show ?thesis by (simp add: heap_up.simps [of _ _ j] Let_def)
  qed
qed

lemma mset_heap_up: "j < length xs \<Longrightarrow> mset (heap_up lt lswap j xs) = mset xs"
proof (induction j arbitrary: xs rule: less_induct)
  case (less j)
  show ?case
  proof (cases "par j = j")
    case True
    then show ?thesis by (simp add: heap_up.simps [of _ _ j] Let_def)
  next
    case False
    with par_le [of j] have "par j < j" by simp
    with less show ?thesis by (simp add: heap_up.simps [of _ _ j] Let_def mset_lswap)
  qed
qed

lemma heap_down_frame:
  "n \<le> length xs \<Longrightarrow> mset (heap_down lt lswap i n xs) = mset xs \<and>
     length (heap_down lt lswap i n xs) = length xs \<and>
     (\<forall>k. n \<le> k \<longrightarrow> k < length xs \<longrightarrow> heap_down lt lswap i n xs ! k = xs ! k)"
proof (induction "n - i" arbitrary: i xs rule: less_induct)
  case less
  show ?case
  proof (cases "n \<le> 2 * i + 1")
    case True
    then show ?thesis by (simp add: heap_down.simps [of _ _ i])
  next
    case False
    define j where "j = (if 2 * i + 2 < n \<and> lt (xs ! (2 * i + 2)) (xs ! (2 * i + 1))
      then 2 * i + 2 else 2 * i + 1)"
    have j: "j < n" "i < j" using False by (auto simp: j_def)
    have L: "heap_down lt lswap i n xs = (if \<not> lt (xs ! j) (xs ! i) then xs
        else heap_down lt lswap j n (lswap i j xs))"
      using False by (simp add: heap_down.simps [of _ _ i] j_def Let_def)
    have "n - j < n - i" using j by linarith
    from less.hyps [OF this, of "lswap i j xs"] j less.prems show ?thesis
      by (auto simp: L mset_lswap nth_lswap)
  qed
qed

section \<open>Heap order on keys\<close>

definition heap_on :: "int list \<Rightarrow> nat \<Rightarrow> bool" where
  "heap_on ks n \<longleftrightarrow> (\<forall>c < n. 0 < c \<longrightarrow> ks ! par c \<le> ks ! c)"

lemma heap_on_root:
  assumes "heap_on ks n" and "i < n"
  shows "ks ! 0 \<le> ks ! i"
  using assms(2)
proof (induction i rule: less_induct)
  case (less i)
  show ?case
  proof (cases "i = 0")
    case False
    with less.prems assms(1) have "ks ! par i \<le> ks ! i" by (simp add: heap_on_def)
    moreover have "ks ! 0 \<le> ks ! par i" using False less par_less [of i] by simp
    ultimately show ?thesis by simp
  qed simp
qed

text \<open>Sifting up repairs a heap that is violated at one place only, between \<open>j\<close> and its parent.\<close>

lemma heap_up_heap:
  assumes "j < length ks"
    and "\<And>c. c < length ks \<Longrightarrow> 0 < c \<Longrightarrow> c \<noteq> j \<Longrightarrow> ks ! par c \<le> ks ! c"
    and "\<And>c. c < length ks \<Longrightarrow> 0 < c \<Longrightarrow> 0 < j \<Longrightarrow> par c = j \<Longrightarrow> ks ! par j \<le> ks ! c"
  shows "heap_on (heap_up (<) lswap j ks) (length ks)"
  using assms
proof (induction j arbitrary: ks rule: less_induct)
  case (less j)
  show ?case
  proof (cases "par j = j \<or> \<not> ks ! j < ks ! par j")
    case True
    then have "heap_up (<) lswap j ks = ks" by (auto simp: heap_up.simps [of _ _ j] Let_def)
    moreover have "ks ! par c \<le> ks ! c" if "c < length ks" "0 < c" for c
      using True that less.prems(2) [OF that] by (cases "c = j") (use par_less in force)+
    ultimately show ?thesis by (simp add: heap_on_def)
  next
    case False
    let ?i = "par j" and ?ks = "lswap (par j) j ks"
    from False par_le [of j] have ij: "?i < j" and lt: "ks ! j < ks ! ?i" by simp_all
    have nth: "?ks ! k = (if k = j then ks ! ?i else if k = ?i then ks ! j else ks ! k)"
      if "k < length ks" for k using that ij less.prems(1) by (simp add: nth_lswap)
    have up: "heap_up (<) lswap j ks = heap_up (<) lswap ?i ?ks"
      using False by (simp add: heap_up.simps [of _ _ j] Let_def)
    have "heap_on (heap_up (<) lswap ?i ?ks) (length ?ks)"
    proof (rule less.IH [OF ij])
      show "?i < length ?ks" using ij less.prems(1) by simp
    next
      fix c assume c: "c < length ?ks" "0 < c" "c \<noteq> ?i"
      then have pc: "par c < length ks" using par_le [of c] by simp
      show "?ks ! par c \<le> ?ks ! c"
        using c lt less.prems(2) [of c] less.prems(3) [of c] par_less [OF c(2)] ij
        by (auto simp: nth pc)
    next
      fix c assume c: "c < length ?ks" "0 < c" "0 < ?i" "par c = ?i"
      then have "par ?i < ?i" by (simp add: par_less)
      then show "?ks ! par ?i \<le> ?ks ! c"
        using c ij less.prems(2) [of ?i] less.prems(2) [of c] par_less [OF c(2)] less.prems(1)
        by (auto simp: nth)
    qed
    then show ?thesis by (simp add: up)
  qed
qed

text \<open>Sifting down repairs a heap that is violated only between \<open>i\<close> and its children.\<close>

lemma heap_down_heap:
  assumes "n \<le> length ks"
    and "\<And>c. c < n \<Longrightarrow> 0 < c \<Longrightarrow> par c \<noteq> i \<Longrightarrow> ks ! par c \<le> ks ! c"
    and "\<And>c. c < n \<Longrightarrow> 0 < c \<Longrightarrow> 0 < i \<Longrightarrow> par c = i \<Longrightarrow> ks ! par i \<le> ks ! c"
  shows "heap_on (heap_down (<) lswap i n ks) n"
  using assms
proof (induction "n - i" arbitrary: i ks rule: less_induct)
  case less
  show ?case
  proof (cases "n \<le> 2 * i + 1")
    case True
    then have "par c \<noteq> i" if "c < n" "0 < c" for c using that by (simp add: par_iff)
    with True less.prems(2) show ?thesis by (simp add: heap_down.simps [of _ _ i] heap_on_def)
  next
    case False
    define j where "j = (if 2 * i + 2 < n \<and> ks ! (2 * i + 2) < ks ! (2 * i + 1)
      then 2 * i + 2 else 2 * i + 1)"
    have j: "j < n" "i < j" "0 < j" "par j = i" using False by (auto simp: j_def par_def)
    have least: "ks ! j \<le> ks ! c" if "c < n" "0 < c" "par c = i" for c
      using that by (auto simp: j_def par_iff)
    have L: "heap_down (<) lswap i n ks = (if \<not> ks ! j < ks ! i then ks
        else heap_down (<) lswap j n (lswap i j ks))"
      using False by (simp add: heap_down.simps [of _ _ i] j_def Let_def)
    show ?thesis
    proof (cases "ks ! j < ks ! i")
      case False
      have "ks ! par c \<le> ks ! c" if "c < n" "0 < c" for c
        using least [OF that] less.prems(2) [OF that] False by (cases "par c = i") auto
      with False show ?thesis by (simp add: L heap_on_def)
    next
      case True
      let ?ks = "lswap i j ks"
      have nth: "?ks ! k = (if k = j then ks ! i else if k = i then ks ! j else ks ! k)"
        if "k < n" for k using that j less.prems(1) by (simp add: nth_lswap)
      have "heap_on (heap_down (<) lswap j n ?ks) n"
      proof (rule less.hyps)
        show "n - j < n - i" using j by linarith
        show "n \<le> length ?ks" using less.prems(1) by simp
      next
        fix c assume c: "c < n" "0 < c" "par c \<noteq> j"
        then have pc: "par c < c" "par c < n" using par_less [of c] by simp_all
        show "?ks ! par c \<le> ?ks ! c"
          using c pc True j least [of c] less.prems(2) [of c] less.prems(3) [of j]
          by (auto simp: nth)
      next
        fix c assume c: "c < n" "0 < c" "0 < j" "par c = j"
        then show "?ks ! par j \<le> ?ks ! c"
          using j less.prems(2) [of c] par_less [of c] by (auto simp: nth)
      qed
      with True show ?thesis by (simp add: L)
    qed
  qed
qed

end
