(* ===== verification/Task_Queue.thy ===== *)
theory Task_Queue
  imports Bin_Packer Go_Heap
begin

text \<open>
  The preemption half of \<open>scheduler/scheduler/bin_packer.go\<close>: the \<open>priorityQueue\<close> of
  running tasks, an array heap ordered by descending priority number, and the packer's
  \<open>Enqueue\<close> and \<open>Evict\<close>. Tasks are Go pointers; the queue is modelled by the list of the
  tasks its slots point to, each task enqueued being an object of its own.
\<close>

section \<open>Tasks and the heap interface\<close>

record task =
  t_ModelName :: string
  t_Priority :: int
  t_VRAMMiB :: i64
  t_NodeID :: string
  t_GPUID :: string
  t_SliceID :: string
  t_index :: int

type_synonym priorityQueue = "task list"

definition pq_Less :: "task \<Rightarrow> task \<Rightarrow> bool" where
  "pq_Less x y \<longleftrightarrow> t_Priority x > t_Priority y"

definition pq_Swap :: "nat \<Rightarrow> nat \<Rightarrow> priorityQueue \<Rightarrow> priorityQueue" where
  "pq_Swap i j pq =
     (let pq1 = pq[i := pq ! j, j := pq ! i];
          pq2 = pq1[i := (pq1 ! i)\<lparr>t_index := int i\<rparr>]
      in pq2[j := (pq2 ! j)\<lparr>t_index := int j\<rparr>])"

definition pq_Push :: "task \<Rightarrow> priorityQueue \<Rightarrow> priorityQueue" where
  "pq_Push t pq = pq @ [t\<lparr>t_index := int (length pq)\<rparr>]"

definition pq_Pop :: "priorityQueue \<Rightarrow> task \<times> priorityQueue" where
  "pq_Pop pq = (last pq, butlast pq)"

definition pq_Len :: "priorityQueue \<Rightarrow> nat" where
  "pq_Len pq = length pq"

text \<open>The queue of a new packer.\<close>

definition NewBinPacker :: priorityQueue where
  "NewBinPacker = heap_init pq_Less pq_Swap []"

lemma NewBinPacker_empty [simp]: "NewBinPacker = []"
  by (simp add: NewBinPacker_def heap_init_def)

text \<open>\<open>heap.Push\<close> and \<open>heap.Pop\<close> on this queue.\<close>

definition heap_Push :: "task \<Rightarrow> priorityQueue \<Rightarrow> priorityQueue" where
  "heap_Push t pq = (let pq1 = pq_Push t pq in heap_up pq_Less pq_Swap (length pq1 - 1) pq1)"

definition heap_Pop :: "priorityQueue \<Rightarrow> task \<times> priorityQueue" where
  "heap_Pop pq = (let n = length pq - 1 in pq_Pop (heap_down pq_Less pq_Swap 0 n (pq_Swap 0 n pq)))"

datatype evict_error = NoTasks | CannotEvictP0

definition Evict :: "priorityQueue \<Rightarrow> (evict_error + task) \<times> priorityQueue" where
  "Evict pq =
     (if pq_Len pq = 0 then (Inl NoTasks, pq)
      else let (t, pq1) = heap_Pop pq in
        if t_Priority t = P0Production then (Inl CannotEvictP0, heap_Push t pq1)
        else (Inr t, pq1))"

definition Enqueue :: "task \<Rightarrow> priorityQueue \<Rightarrow> priorityQueue" where
  "Enqueue t pq = heap_Push t pq"

section \<open>Invariant\<close>

text \<open>
  The array is a heap for the negated priorities and every task knows its own slot. The
  contents of a queue are its tasks without their slot numbers.
\<close>

definition key :: "task \<Rightarrow> int" where
  "key t = - t_Priority t"

definition strip :: "task \<Rightarrow> task" where
  "strip t = t\<lparr>t_index := 0\<rparr>"

definition contents :: "priorityQueue \<Rightarrow> task multiset" where
  "contents pq = mset (map strip pq)"

definition slots_ok :: "priorityQueue \<Rightarrow> bool" where
  "slots_ok pq \<longleftrightarrow> (\<forall>i < length pq. t_index (pq ! i) = int i)"

definition queue_ok :: "priorityQueue \<Rightarrow> bool" where
  "queue_ok pq \<longleftrightarrow> heap_on (map key pq) (length pq) \<and> slots_ok pq"

lemma key_strip [simp]: "key (strip t) = key t" "t_Priority (strip t) = t_Priority t"
  by (simp_all add: key_def strip_def)

lemma strip_index [simp]: "strip (t\<lparr>t_index := k\<rparr>) = strip t" "key (t\<lparr>t_index := k\<rparr>) = key t"
  by (simp_all add: key_def strip_def)

lemma map_Swap:
  assumes "i < length pq" "j < length pq" "\<And>t k. f (t\<lparr>t_index := k\<rparr>) = f t"
  shows "map f (pq_Swap i j pq) = lswap i j (map f pq)"
  using assms by (auto simp: pq_Swap_def lswap_def Let_def nth_list_update intro!: nth_equalityI)

interpretation by_key: heap_elements pq_Less pq_Swap key "(<)"
  by unfold_locales (auto simp: pq_Less_def key_def map_Swap)

interpretation by_content: heap_elements pq_Less pq_Swap strip "\<lambda>x y. key x < key y"
  by unfold_locales (auto simp: pq_Less_def key_def strip_def map_Swap)

subsection \<open>Slot numbers\<close>

lemma length_Swap [simp]: "length (pq_Swap i j pq) = length pq"
  by (simp add: pq_Swap_def Let_def)

lemma slots_Swap: "slots_ok pq \<Longrightarrow> slots_ok (pq_Swap i j pq)"
  by (cases "i < length pq"; cases "j < length pq")
    (auto simp: slots_ok_def pq_Swap_def Let_def nth_list_update list_update_beyond)

lemma slots_up: "slots_ok pq \<Longrightarrow> slots_ok (heap_up pq_Less pq_Swap j pq)"
proof (induction j arbitrary: pq rule: less_induct)
  case (less j)
  show ?case
  proof (cases "par j = j")
    case True
    with less.prems show ?thesis by (simp add: heap_up.simps [of _ _ j] Let_def)
  next
    case False
    with par_le [of j] have "par j < j" by simp
    with less slots_Swap show ?thesis by (simp add: heap_up.simps [of _ _ j] Let_def)
  qed
qed

lemma slots_down: "slots_ok pq \<Longrightarrow> slots_ok (heap_down pq_Less pq_Swap i n pq)"
proof (induction "n - i" arbitrary: i pq rule: less_induct)
  case less
  show ?case
  proof (cases "n \<le> 2 * i + 1")
    case True
    with less.prems show ?thesis by (simp add: heap_down.simps [of _ _ i])
  next
    case False
    then have "n - (2 * i + 1) < n - i" "n - (2 * i + 2) < n - i" by linarith+
    with False less.hyps slots_Swap [OF less.prems] less.prems show ?thesis
      by (simp add: heap_down.simps [of _ _ i] Let_def)
  qed
qed

lemma slots_butlast: "slots_ok pq \<Longrightarrow> slots_ok (butlast pq)"
  by (simp add: slots_ok_def nth_butlast)

subsection \<open>Push and Pop\<close>

lemma Push_ok [keeps_inv]: "queue_ok pq \<Longrightarrow> queue_ok (heap_Push t pq)"
proof -
  assume ok: "queue_ok pq"
  let ?pq = "pq_Push t pq" and ?n = "length pq"
  have len: "length ?pq = Suc ?n" by (simp add: pq_Push_def)
  have keys: "map key (heap_Push t pq) = heap_up (<) lswap ?n (map key ?pq)"
    using by_key.up_view [of ?n ?pq] by (simp add: heap_Push_def Let_def len)
  have "heap_on (heap_up (<) lswap ?n (map key ?pq)) (length (map key ?pq))"
  proof (rule heap_up_heap)
    fix c assume "c < length (map key ?pq)" "0 < c" "c \<noteq> ?n"
    then have "c < ?n" "par c < ?n" using len par_less [of c] by simp_all
    moreover from this(1) \<open>0 < c\<close> ok have "map key pq ! par c \<le> map key pq ! c"
      by (simp only: queue_ok_def heap_on_def)
    ultimately show "map key ?pq ! par c \<le> map key ?pq ! c"
      by (simp add: pq_Push_def nth_append)
  next
    fix c assume "c < length (map key ?pq)" "0 < c" "par c = ?n"
    then show "map key ?pq ! par ?n \<le> map key ?pq ! c" using par_less [of c] len by simp
  qed (simp add: len)
  then have "heap_on (map key (heap_Push t pq)) (length (heap_Push t pq))"
    using keys by (metis length_heap_up length_map)
  moreover have "slots_ok ?pq" using ok
    by (auto simp: queue_ok_def slots_ok_def pq_Push_def nth_append less_Suc_eq)
  then have "slots_ok (heap_Push t pq)" by (simp add: heap_Push_def Let_def slots_up)
  ultimately show ?thesis by (simp add: queue_ok_def)
qed

lemma Push_contents: "contents (heap_Push t pq) = add_mset (strip t) (contents pq)"
proof -
  let ?pq = "pq_Push t pq"
  have "length pq < length ?pq" by (simp add: pq_Push_def)
  then have "map strip (heap_Push t pq) =
      heap_up (\<lambda>x y. key x < key y) lswap (length pq) (map strip ?pq)"
    using by_content.up_view [of "length pq" ?pq] by (simp add: heap_Push_def Let_def pq_Push_def)
  then have "contents (heap_Push t pq) = mset (map strip ?pq)"
    unfolding contents_def by (simp add: mset_heap_up pq_Push_def del: map_append mset_map)
  then show ?thesis by (simp add: contents_def pq_Push_def)
qed

lemma Pop_spec:
  assumes ok: "queue_ok pq" and ne: "pq \<noteq> []" and pop: "heap_Pop pq = (t, pq')"
  shows "queue_ok pq'" and "contents pq = add_mset (strip t) (contents pq')"
    and "\<And>x. x \<in> set pq \<Longrightarrow> t_Priority x \<le> t_Priority t"
proof -
  define n where "n = length pq - 1"
  define ys where "ys = heap_down pq_Less pq_Swap 0 n (pq_Swap 0 n pq)"
  have n: "n < length pq" "length pq = Suc n" using ne by (simp_all add: n_def)
  have t: "t = last ys" "pq' = butlast ys" using pop by (simp_all add: heap_Pop_def pq_Pop_def ys_def n_def Let_def)
  have view: "map key ys = heap_down (<) lswap 0 n (lswap 0 n (map key pq))"
    "map strip ys = heap_down (\<lambda>x y. key x < key y) lswap 0 n (lswap 0 n (map strip pq))"
    using by_key.down_view [of n "pq_Swap 0 n pq" 0] by_content.down_view [of n "pq_Swap 0 n pq" 0] n
    by (simp_all add: ys_def by_key.swp_view by_content.swp_view)
  note fk = heap_down_frame [of n "lswap 0 n (map key pq)" "(<)" 0, folded view(1)]
  note fs = heap_down_frame [of n "lswap 0 n (map strip pq)" "\<lambda>x y. key x < key y" 0, folded view(2)]
  have len: "length ys = Suc n" using fk n by simp
  then have ne': "ys \<noteq> []" by auto
  have top: "last ys = ys ! n" "key (ys ! n) = key (pq ! 0)"
  proof -
    show "last ys = ys ! n" using len ne' by (simp add: last_conv_nth)
    have "n \<le> length (lswap 0 n (map key pq))" using n by simp
    from fk [OF this] n have "map key ys ! n = lswap 0 n (map key pq) ! n" by (simp only: length_lswap length_map)
    then show "key (ys ! n) = key (pq ! 0)" using n len by (simp add: nth_lswap)
  qed
  have "heap_on (map key ys) n" unfolding view
    using ok n by (intro heap_down_heap) (auto simp: queue_ok_def heap_on_def nth_lswap par_def)
  then have "heap_on (map key pq') (length pq')"
    using len par_le by (auto simp: t heap_on_def nth_butlast par_def)
  moreover have "slots_ok ys" using ok by (simp add: ys_def queue_ok_def slots_down slots_Swap)
  ultimately show "queue_ok pq'" by (simp add: queue_ok_def t slots_butlast)
  have "mset (map strip ys) = mset (map strip pq)" using fs n by (simp add: mset_lswap del: mset_map)
  moreover have "map strip ys = map strip pq' @ [strip t]"
    unfolding t using ne' by (metis append_butlast_last_id list.simps(8,9) map_append)
  ultimately show "contents pq = add_mset (strip t) (contents pq')"
    by (simp add: contents_def)
  fix x assume "x \<in> set pq"
  then obtain i where i: "i < length pq" "x = pq ! i" by (auto simp: in_set_conv_nth)
  with ok heap_on_root [of "map key pq" "length pq" i] n have "key (pq ! 0) \<le> key x"
    by (simp add: queue_ok_def)
  then show "t_Priority x \<le> t_Priority t" using top t by (simp add: key_def)
qed

lemma Evict_cases:
  assumes "queue_ok pq"
  obtains (none) "pq = []" "Evict pq = (Inl NoTasks, pq)"
  | (refused) t pq' where "pq \<noteq> []" "Evict pq = (Inl CannotEvictP0, pq')" "t \<in># contents pq"
      "t_Priority t = P0Production" "\<forall>x \<in># contents pq. t_Priority x \<le> P0Production"
      "queue_ok pq'" "contents pq' = contents pq"
  | (evicted) t pq' where "pq \<noteq> []" "Evict pq = (Inr t, pq')" "t_Priority t \<noteq> P0Production"
      "\<forall>x \<in># contents pq. t_Priority x \<le> t_Priority t"
      "queue_ok pq'" "contents pq = add_mset (strip t) (contents pq')"
proof (cases "pq = []")
  case True
  then show ?thesis using none by (simp add: Evict_def pq_Len_def)
next
  case False
  obtain t pq1 where pop: "heap_Pop pq = (t, pq1)" by fastforce
  note spec = Pop_spec [OF assms False pop]
  have max: "\<forall>x \<in># contents pq. t_Priority x \<le> t_Priority t"
    using spec(3) by (auto simp: contents_def)
  show ?thesis
  proof (cases "t_Priority t = P0Production")
    case True
    with False pop have "Evict pq = (Inl CannotEvictP0, heap_Push t pq1)" by (simp add: Evict_def pq_Len_def)
    moreover have "strip t \<in># contents pq" by (simp add: spec(2))
    moreover have "contents (heap_Push t pq1) = contents pq" by (simp add: Push_contents spec(2))
    ultimately show ?thesis
      using refused [of _ "strip t"] False True max Push_ok [OF spec(1)] by simp
  next
    case False': False
    with False pop have "Evict pq = (Inr t, pq1)" by (simp add: Evict_def pq_Len_def)
    with False False' max spec show ?thesis using evicted by blast
  qed
qed

lemma Evict_ok [keeps_inv]: "queue_ok pq \<Longrightarrow> queue_ok (snd (Evict pq))"
  by (rule Evict_cases [of pq]) simp_all

lemma queue_ok_Nil [keeps_inv]: "queue_ok []"
  by (simp add: queue_ok_def heap_on_def slots_ok_def)

inductive queue_step :: "priorityQueue \<Rightarrow> priorityQueue \<Rightarrow> bool" where
  enqueue: "queue_step pq (Enqueue t pq)"
| evict: "queue_step pq (snd (Evict pq))"

interpretation pq_runs: invariant_system "\<lambda>pq. pq = []" queue_step queue_ok
proof unfold_locales
  show "queue_ok s" if "s = []" for s using that by (simp add: queue_ok_Nil)
  show "queue_ok t" if "queue_ok s" "queue_step s t" for s t
    using that(2,1) by cases (simp_all add: Enqueue_def Push_ok Evict_ok)
qed

section \<open>What eviction promises\<close>

text \<open>
  After any sequence of \<open>Enqueue\<close> and \<open>Evict\<close> calls on a new packer, the task array is
  in heap order, every task's \<open>index\<close> is the slot it occupies, and the root is a task that is
  least important: no task has a greater priority number.
\<close>

theorem task_queue_invariant:
  assumes "queue_step\<^sup>*\<^sup>* NewBinPacker pq"
  shows "(\<forall>i < length pq. t_index (pq ! i) = int i) \<and>
    (\<forall>i < length pq. 0 < i \<longrightarrow> t_Priority (pq ! i) \<le> t_Priority (pq ! par i)) \<and>
    (\<forall>i < length pq. t_Priority (pq ! i) \<le> t_Priority (pq ! 0))"
proof -
  have ok: "queue_ok pq" using pq_runs.reachable_inv [OF _ assms] by simp
  have "map key pq ! par i \<le> map key pq ! i" if "i < length pq" "0 < i" for i
    using ok that by (simp only: queue_ok_def heap_on_def)
  then have "t_Priority (pq ! i) \<le> t_Priority (pq ! par i)" if "i < length pq" "0 < i" for i
    using that par_less [of i] by (force simp: key_def)
  moreover have "t_Priority (pq ! i) \<le> t_Priority (pq ! 0)" if "i < length pq" for i
  proof -
    from that have "0 < length pq" by linarith
    with heap_on_root [of "map key pq" "length pq" i] ok that show ?thesis
      by (simp add: queue_ok_def key_def)
  qed
  ultimately show ?thesis using ok by (simp add: queue_ok_def slots_ok_def)
qed

text \<open>
  C36. \<open>Evict\<close> on any reachable queue: an empty queue is an error; otherwise it removes
  exactly one task, of the greatest priority number held, unless that number is the
  production priority, in which case it refuses and the queue keeps all its tasks.
\<close>

theorem evict_outcome:
  assumes "queue_step\<^sup>*\<^sup>* NewBinPacker pq"
  shows "case Evict pq of
      (Inl NoTasks, pq') \<Rightarrow> pq = [] \<and> pq' = []
    | (Inl CannotEvictP0, pq') \<Rightarrow> pq \<noteq> [] \<and> contents pq' = contents pq \<and>
        (\<forall>x \<in># contents pq. t_Priority x \<le> P0Production)
    | (Inr t, pq') \<Rightarrow> contents pq = add_mset (strip t) (contents pq') \<and>
        t_Priority t \<noteq> P0Production \<and> (\<forall>x \<in># contents pq. t_Priority x \<le> t_Priority t)"
proof -
  have "queue_ok pq" using pq_runs.reachable_inv [OF _ assms] by simp
  then show ?thesis by (rule Evict_cases) auto
qed

text \<open>
  A production task is never evicted while the queue holds development or batch work,
  and production work alone is never evicted: with priorities P0, P1 and P2 only, \<open>Evict\<close>
  succeeds exactly when some task is not P0.
\<close>

theorem evict_spares_production:
  assumes "queue_step\<^sup>*\<^sup>* NewBinPacker pq"
    and "\<forall>x \<in># contents pq. t_Priority x \<in> {P0Production, P1Development, P2BatchTrain}"
  shows "(\<exists>t pq'. Evict pq = (Inr t, pq')) \<longleftrightarrow> (\<exists>x \<in># contents pq. t_Priority x \<noteq> P0Production)"
proof -
  have "queue_ok pq" using pq_runs.reachable_inv [OF _ assms(1)] by simp
  then show ?thesis
  proof (cases rule: Evict_cases)
    case none
    then show ?thesis by (simp add: contents_def)
  next
    case (refused t pq')
    then have "\<forall>x \<in># contents pq. t_Priority x = P0Production"
      using assms(2) by (force simp: P0Production_def P1Development_def P2BatchTrain_def)
    with refused(2) show ?thesis by auto
  next
    case (evicted t pq')
    then have "\<exists>x \<in># contents pq. t_Priority x \<noteq> P0Production"
      by (intro bexI [of _ "strip t"]) simp_all
    with evicted(2) show ?thesis by auto
  qed
qed

subsection \<open>Successive evictions\<close>

text \<open>
  The contract of a queue that hands out its elements by rank, and what a client that takes
  several gets: a sequence of ranks that never increases.
\<close>

primrec takes :: "('q \<Rightarrow> ('v \<times> 'q) option) \<Rightarrow> nat \<Rightarrow> 'q \<Rightarrow> 'v list" where
  "takes take_one 0 q = []"
| "takes take_one (Suc n) q =
     (case take_one q of None \<Rightarrow> [] | Some (v, q') \<Rightarrow> v # takes take_one n q')"

locale ranked_queue =
  fixes ok :: "'q \<Rightarrow> bool"
    and cont :: "'q \<Rightarrow> 'v multiset"
    and take_one :: "'q \<Rightarrow> ('v \<times> 'q) option"
    and rank :: "'v \<Rightarrow> int"
  assumes take_ok: "ok q \<Longrightarrow> take_one q = Some (v, q') \<Longrightarrow> ok q'"
    and take_cont: "ok q \<Longrightarrow> take_one q = Some (v, q') \<Longrightarrow> cont q = add_mset v (cont q')"
    and take_rank: "ok q \<Longrightarrow> take_one q = Some (v, q') \<Longrightarrow> w \<in># cont q \<Longrightarrow> rank w \<le> rank v"
begin

lemma takes_sub: "ok q \<Longrightarrow> mset (takes take_one n q) \<subseteq># cont q"
proof (induction n arbitrary: q)
  case (Suc n)
  then show ?case
    by (auto simp: take_cont dest: take_ok split: option.splits)
qed simp

lemma takes_ordered: "ok q \<Longrightarrow> sorted_wrt (\<lambda>v w. rank w \<le> rank v) (takes take_one n q)"
proof (induction n arbitrary: q)
  case (Suc n)
  show ?case
  proof (cases "take_one q")
    case (Some p)
    obtain v q' where p: "p = (v, q')" by fastforce
    with Some Suc.prems have q': "ok q'" "cont q = add_mset v (cont q')"
      using take_ok take_cont by blast+
    have "rank w \<le> rank v" if "w \<in> set (takes take_one n q')" for w
    proof -
      have "w \<in># cont q'" using that takes_sub [OF q'(1), of n] by (metis mset_subset_eqD set_mset_mset)
      with take_rank [OF Suc.prems] Some p q'(2) show ?thesis by simp
    qed
    with Some p Suc.IH [OF q'(1)] show ?thesis by simp
  qed simp
qed simp

end

definition evict_one :: "priorityQueue \<Rightarrow> (task \<times> priorityQueue) option" where
  "evict_one pq = (case Evict pq of (Inr t, pq') \<Rightarrow> Some (strip t, pq') | _ \<Rightarrow> None)"

lemma evict_one_Some:
  assumes "queue_ok pq" and "evict_one pq = Some (v, pq')"
  shows "queue_ok pq' \<and> contents pq = add_mset v (contents pq') \<and>
    (\<forall>w \<in># contents pq. t_Priority w \<le> t_Priority v)"
  using assms(1) assms(2) by (cases rule: Evict_cases) (auto simp: evict_one_def)

interpretation evictions: ranked_queue queue_ok contents evict_one t_Priority
  by unfold_locales (use evict_one_Some in blast)+

text \<open>
  Preempting repeatedly takes batch work before development work: the tasks that
  successive evictions return from a reachable queue are among its tasks, and their priority
  numbers never increase.
\<close>

theorem evictions_least_important_first:
  assumes "queue_step\<^sup>*\<^sup>* NewBinPacker pq"
  shows "mset (takes evict_one n pq) \<subseteq># contents pq \<and>
    sorted_wrt (\<lambda>s t. t_Priority t \<le> t_Priority s) (takes evict_one n pq)"
proof -
  have "queue_ok pq" using pq_runs.reachable_inv [OF _ assms] by simp
  then show ?thesis by (simp add: evictions.takes_sub evictions.takes_ordered)
qed

section \<open>Concrete runs\<close>

definition demo_task :: "string \<Rightarrow> int \<Rightarrow> task" where
  "demo_task m p = \<lparr>t_ModelName = m, t_Priority = p, t_VRAMMiB = 1, t_NodeID = ''a'',
     t_GPUID = ''g'', t_SliceID = [], t_index = 0\<rparr>"

definition demo_queue :: priorityQueue where
  "demo_queue = Enqueue (demo_task ''m2'' 2) (Enqueue (demo_task ''m1'' 1)
     (Enqueue (demo_task ''m0'' 0) []))"

lemma demo_queue_reachable: "queue_step\<^sup>*\<^sup>* NewBinPacker demo_queue"
  unfolding demo_queue_def NewBinPacker_empty
  by (blast intro: queue_step.enqueue rtranclp.rtrancl_into_rtrancl)

theorem task_queue_invariant_witness:
  "map t_index demo_queue = [0, 1, 2] \<and> t_Priority (demo_queue ! 1) \<le> t_Priority (demo_queue ! 0)"
proof -
  have "map t_index demo_queue = [0, 1, 2]" and len: "length demo_queue = 3" by code_simp+
  with task_queue_invariant [OF demo_queue_reachable] show ?thesis by simp
qed

theorem evict_outcome_witness:
  "\<exists>t pq'. Evict demo_queue = (Inr t, pq') \<and> t_ModelName t = ''m2'' \<and>
     contents demo_queue = add_mset (strip t) (contents pq')"
proof -
  have "case Evict demo_queue of (Inr t, pq') \<Rightarrow> t_ModelName t = ''m2'' | _ \<Rightarrow> False" by code_simp
  with evict_outcome [OF demo_queue_reachable] show ?thesis
    by (auto split: prod.splits sum.splits)
qed

theorem evict_spares_production_witness:
  "\<exists>t pq'. Evict demo_queue = (Inr t, pq')"
proof -
  have c: "contents demo_queue = {#demo_task ''m2'' 2, demo_task ''m1'' 1, demo_task ''m0'' 0#}"
    unfolding demo_queue_def Enqueue_def Push_contents
    by (simp add: contents_def strip_def demo_task_def)
  have "\<forall>x \<in># contents demo_queue. t_Priority x \<in> {P0Production, P1Development, P2BatchTrain}"
    by (simp add: c demo_task_def P0Production_def P1Development_def P2BatchTrain_def)
  from evict_spares_production [OF demo_queue_reachable this] show ?thesis
    by (simp add: c demo_task_def P0Production_def)
qed

theorem evictions_least_important_first_witness:
  "map t_Priority (takes evict_one 3 demo_queue) = [2, 1] \<and>
   sorted_wrt (\<lambda>s t. t_Priority t \<le> t_Priority s) (takes evict_one 3 demo_queue)"
proof -
  have "map t_Priority (takes evict_one 3 demo_queue) = [2, 1]" by code_simp
  with evictions_least_important_first [OF demo_queue_reachable] show ?thesis by blast
qed

end
