(* ===== verification/Reconcile.thy ===== *)
theory Reconcile
  imports Node_Registry
begin

text \<open>
  \<open>scheduler/reconciler/reconciler.go\<close>: the desired state of every slice, the heartbeats
  that record the actual state in the registry, and \<open>reconcile\<close>, which compares the two and
  emits actions. The registry is shared with the bin packer, so it is an argument of its
  own. \<open>reconcile\<close> sends on a channel that \<open>handleActions\<close> drains; its model returns the
  sequence of the actions it sends.
\<close>

section \<open>Messages, actions, desired state\<close>

record HeartbeatMsg =
  hb_NodeID :: string
  hb_GPUID :: string
  hb_UsedVRAMMiB :: i64
  hb_TotalVRAMMiB :: i64
  hb_LoadedModels :: "string list"
  hb_NVLinkEnabled :: bool
  hb_MIGEnabled :: bool
  hb_MIGSlices :: "MIGSlice list"
  hb_ModelWeightAffinity :: "string \<rightharpoonup> i64"
  hb_AgentAddr :: string

datatype ActionType = ActionEvict | ActionPrewarm | ActionMarkDead

record ReconcileAction =
  a_Type :: ActionType
  a_NodeID :: string
  a_GPUID :: string
  a_SliceID :: string
  a_ModelName :: string

record desiredSliceState =
  ds_models :: "string list"

record Reconciler =
  desiredState :: "string \<rightharpoonup> desiredSliceState"
  staleTimeout :: time

definition NewReconciler :: Reconciler where
  "NewReconciler = \<lparr>desiredState = Map.empty, staleTimeout = 2 * Second\<rparr>"

definition sliceKey :: "string \<Rightarrow> string \<Rightarrow> string \<Rightarrow> string" where
  "sliceKey nodeID gpuID sliceID =
     (let sliceID' = (if sliceID = [] then ''full'' else sliceID)
      in nodeID @ slash @ gpuID @ slash @ sliceID')"

text \<open>
  A \<open>map[string]bool\<close> all of whose values are true is represented by the list of its keys,
  each once.
\<close>

definition toSet :: "string list \<Rightarrow> string list" where
  "toSet ss = remdups ss"

section \<open>Desired state\<close>

definition SetDesired ::
  "string \<Rightarrow> string \<Rightarrow> string \<Rightarrow> string list \<Rightarrow> Reconciler \<Rightarrow> Reconciler" where
  "SetDesired nodeID gpuID sliceID models r =
     (let key = sliceKey nodeID gpuID sliceID
      in r\<lparr>desiredState := (desiredState r)(key \<mapsto> \<lparr>ds_models = models\<rparr>)\<rparr>)"

definition AddDesired ::
  "string \<Rightarrow> string \<Rightarrow> string \<Rightarrow> string \<Rightarrow> Reconciler \<Rightarrow> Reconciler" where
  "AddDesired nodeID gpuID sliceID modelName r =
     (let key = sliceKey nodeID gpuID sliceID;
          state = (case desiredState r key of None \<Rightarrow> \<lparr>ds_models = []\<rparr> | Some st \<Rightarrow> st)
      in if modelName \<in> set (ds_models state) then r
         else r\<lparr>desiredState := (desiredState r)
                  (key \<mapsto> state\<lparr>ds_models := ds_models state @ [modelName]\<rparr>)\<rparr>)"

definition RemoveDesired ::
  "string \<Rightarrow> string \<Rightarrow> string \<Rightarrow> string \<Rightarrow> Reconciler \<Rightarrow> Reconciler" where
  "RemoveDesired nodeID gpuID sliceID modelName r =
     (let key = sliceKey nodeID gpuID sliceID in
      case desiredState r key of
        None \<Rightarrow> r
      | Some state \<Rightarrow>
          r\<lparr>desiredState := (desiredState r)
              (key \<mapsto> state\<lparr>ds_models := filter (\<lambda>m. m \<noteq> modelName) (ds_models state)\<rparr>)\<rparr>)"

definition snapshotDesired :: "Reconciler \<Rightarrow> string \<Rightarrow> string list option" where
  "snapshotDesired r key =
     (case desiredState r key of None \<Rightarrow> None | Some state \<Rightarrow> Some (toSet (ds_models state)))"

section \<open>Actual state\<close>

definition node_of_heartbeat :: "time \<Rightarrow> HeartbeatMsg \<Rightarrow> GPUNode" where
  "node_of_heartbeat now hb =
     \<lparr>NodeID = hb_NodeID hb, GPUID = hb_GPUID hb, TotalVRAMMiB = hb_TotalVRAMMiB hb,
      UsedVRAMMiB = hb_UsedVRAMMiB hb, CUDACores = 0, NVLinkEnabled = hb_NVLinkEnabled hb,
      MIGEnabled = hb_MIGEnabled hb, MIGSlices = hb_MIGSlices hb,
      ModelWeightAffinity = hb_ModelWeightAffinity hb, LoadedModels = hb_LoadedModels hb,
      AgentAddr = hb_AgentAddr hb, LastHeartbeat = now, Healthy = False\<rparr>"

definition applyHeartbeat :: "time \<Rightarrow> HeartbeatMsg \<Rightarrow> NodeRegistry \<Rightarrow> NodeRegistry" where
  "applyHeartbeat now hb reg = Upsert (node_of_heartbeat now hb) reg"

section \<open>Reconciliation\<close>

text \<open>
  The order in which the two loops of a slice visit their sets is not fixed. \<open>pick k i xs\<close> is
  the order of the \<open>i\<close>-th set iteration for the node with key \<open>k\<close>, over the set with the keys
  \<open>xs\<close>: iteration \<open>2 * j\<close> is over the desired set of the \<open>j\<close>-th slice, \<open>2 * j + 1\<close> over its
  actual set.
\<close>

type_synonym pick = "string \<Rightarrow> nat \<Rightarrow> string list \<Rightarrow> string list"

definition pick_ok :: "pick \<Rightarrow> bool" where
  "pick_ok pick \<longleftrightarrow> (\<forall>k i xs. distinct xs \<longrightarrow> distinct (pick k i xs) \<and> set (pick k i xs) = set xs)"

definition slice_actions ::
  "pick \<Rightarrow> GPUNode \<Rightarrow> nat \<Rightarrow> string \<Rightarrow> string list \<Rightarrow> string list \<Rightarrow> ReconcileAction list" where
  "slice_actions pick node j sliceID desiredSet actualSet =
     [\<lparr>a_Type = ActionPrewarm, a_NodeID = NodeID node, a_GPUID = GPUID node,
       a_SliceID = sliceID, a_ModelName = m\<rparr>.
       m \<leftarrow> pick (key_of node) (2 * j) desiredSet, m \<notin> set actualSet] @
     [\<lparr>a_Type = ActionEvict, a_NodeID = NodeID node, a_GPUID = GPUID node,
       a_SliceID = sliceID, a_ModelName = m\<rparr>.
       m \<leftarrow> pick (key_of node) (2 * j + 1) actualSet, m \<notin> set desiredSet]"

fun mig_actions ::
  "pick \<Rightarrow> Reconciler \<Rightarrow> GPUNode \<Rightarrow> nat \<Rightarrow> MIGSlice list \<Rightarrow> ReconcileAction list" where
  "mig_actions pick r node j [] = []"
| "mig_actions pick r node j (s # ss) =
     (if \<not> s_Healthy s then []
      else case snapshotDesired r (sliceKey (NodeID node) (GPUID node) (s_SliceID s)) of
        None \<Rightarrow> []
      | Some desiredSet \<Rightarrow>
          slice_actions pick node j (s_SliceID s) desiredSet (toSet (s_LoadedModels s)))
     @ mig_actions pick r node (Suc j) ss"

definition reconcileMIGNode :: "pick \<Rightarrow> Reconciler \<Rightarrow> GPUNode \<Rightarrow> ReconcileAction list" where
  "reconcileMIGNode pick r node = mig_actions pick r node 0 (MIGSlices node)"

definition reconcileNonMIGNode :: "pick \<Rightarrow> Reconciler \<Rightarrow> GPUNode \<Rightarrow> ReconcileAction list" where
  "reconcileNonMIGNode pick r node =
     (case snapshotDesired r (sliceKey (NodeID node) (GPUID node) ''full'') of
        None \<Rightarrow> []
      | Some desiredSet \<Rightarrow> slice_actions pick node 0 [] desiredSet (toSet (LoadedModels node)))"

fun mark_dead :: "GPUNode list \<Rightarrow> NodeRegistry \<Rightarrow> NodeRegistry \<times> ReconcileAction list" where
  "mark_dead [] reg = (reg, [])"
| "mark_dead (n # ns) reg =
     (let (reg', acts) = mark_dead ns (MarkUnhealthy (NodeID n) (GPUID n) reg)
      in (reg', \<lparr>a_Type = ActionMarkDead, a_NodeID = NodeID n, a_GPUID = GPUID n,
                 a_SliceID = [], a_ModelName = []\<rparr> # acts))"

definition reconcile ::
  "pick \<Rightarrow> string list \<Rightarrow> string list \<Rightarrow> time \<Rightarrow> Reconciler \<Rightarrow> NodeRegistry \<Rightarrow>
     NodeRegistry \<times> ReconcileAction list" where
  "reconcile pick order1 order2 now r reg =
     (let stale = StaleNodes order1 now (staleTimeout r) reg;
          (reg', dead) = mark_dead stale reg;
          acts = concat (map (\<lambda>node.
            if MIGEnabled node \<and> MIGSlices node \<noteq> [] then reconcileMIGNode pick r node
            else reconcileNonMIGNode pick r node) (All order2 reg'))
      in (reg', dead @ acts))"

section \<open>The desired state as sets\<close>

text \<open>
  The abstract view: each slice key has a set of desired models, or none. The three
  operations replace, extend and shrink the set of one key.
\<close>

definition desired :: "Reconciler \<Rightarrow> string \<Rightarrow> string set option" where
  "desired r k = map_option (\<lambda>st. set (ds_models st)) (desiredState r k)"

lemma desired_SetDesired:
  "desired (SetDesired nid gid sid ms r) =
     (desired r)(sliceKey nid gid sid \<mapsto> set ms)"
  by (auto simp: desired_def SetDesired_def Let_def)

lemma desired_AddDesired:
  "desired (AddDesired nid gid sid m r) =
     (desired r)(sliceKey nid gid sid \<mapsto>
       insert m (case desired r (sliceKey nid gid sid) of None \<Rightarrow> {} | Some S \<Rightarrow> S))"
  by (auto simp: desired_def AddDesired_def Let_def split: option.splits)

lemma desired_RemoveDesired:
  "desired (RemoveDesired nid gid sid m r) =
     (case desired r (sliceKey nid gid sid) of
        None \<Rightarrow> desired r
      | Some S \<Rightarrow> (desired r)(sliceKey nid gid sid \<mapsto> S - {m}))"
  by (auto simp: desired_def RemoveDesired_def Let_def split: option.splits)

lemma snapshot_desired: "map_option set (snapshotDesired r k) = desired r k"
  by (auto simp: snapshotDesired_def desired_def toSet_def split: option.splits)

lemma staleTimeout_ops [simp]:
  "staleTimeout (SetDesired nid gid sid ms r) = staleTimeout r"
  "staleTimeout (AddDesired nid gid sid m r) = staleTimeout r"
  "staleTimeout (RemoveDesired nid gid sid m r) = staleTimeout r"
  by (auto simp: SetDesired_def AddDesired_def RemoveDesired_def Let_def split: option.splits)

text \<open>Bulk replacement is a put in the sense of a keyed store.\<close>

interpretation des: keyed_store "\<lambda>(nid, gid, sid, ms). sliceKey nid gid sid"
  "\<lambda>(nid, gid, sid, ms). set ms" "\<lambda>(nid, gid, sid, ms) r. SetDesired nid gid sid ms r" desired
  by unfold_locales (auto simp: desired_SetDesired)

text \<open>
  The contract the admission gateway relies on when it commits placements: adding one
  leaves every model desired before in place.
\<close>

locale placement_ledger =
  fixes key :: "'p \<Rightarrow> 'k"
    and add :: "'p \<Rightarrow> 'm \<Rightarrow> 's \<Rightarrow> 's"
    and held :: "'s \<Rightarrow> 'k \<Rightarrow> 'm set"
  assumes held_add: "held (add p m s) k = (if k = key p then insert m (held s k) else held s k)"
begin

lemma held_adds:
  "held (fold (\<lambda>(p, m). add p m) ps s) k = held s k \<union> {m. \<exists>p. (p, m) \<in> set ps \<and> key p = k}"
proof (induction ps arbitrary: s)
  case (Cons pm ps)
  then show ?case by (cases pm) (auto simp: held_add)
qed simp

lemma held_mono: "held s k \<subseteq> held (add p m s) k"
  by (auto simp: held_add)

end

definition desired_models :: "Reconciler \<Rightarrow> string \<Rightarrow> string set" where
  "desired_models r k = (case desired r k of None \<Rightarrow> {} | Some S \<Rightarrow> S)"

interpretation ledger: placement_ledger "\<lambda>(nid, gid, sid). sliceKey nid gid sid"
  "\<lambda>(nid, gid, sid) m r. AddDesired nid gid sid m r" desired_models
  by unfold_locales (auto simp: desired_models_def desired_AddDesired split: option.splits)

text \<open>
  Incremental placement never loses a model: after any sequence of \<open>AddDesired\<close> calls the
  models desired on a slice are those desired before together with exactly those added for
  its key; nothing is overwritten and no other slice is touched.
\<close>

theorem add_desired_accumulates:
  "desired_models (fold (\<lambda>((nid, gid, sid), m). AddDesired nid gid sid m) calls r) k =
     desired_models r k \<union>
     {m. \<exists>nid gid sid. ((nid, gid, sid), m) \<in> set calls \<and> sliceKey nid gid sid = k}"
proof -
  have "(\<lambda>((nid, gid, sid), m). AddDesired nid gid sid m) =
      (\<lambda>(p, m). (case p of (nid, gid, sid) \<Rightarrow> \<lambda>m r. AddDesired nid gid sid m r) m)"
    by (auto simp: fun_eq_iff)
  then show ?thesis using ledger.held_adds [of calls r k] by (simp only:) auto
qed

text \<open>
  The three writers of the desired state refine set operations on one key: \<open>SetDesired\<close>
  replaces the set, \<open>AddDesired\<close> inserts (creating the key), \<open>RemoveDesired\<close> deletes only the
  named model and never creates a key; every other key keeps its set.
\<close>

theorem desired_state_refinement:
  "desired (SetDesired nid gid sid ms r) = (desired r)(sliceKey nid gid sid \<mapsto> set ms) \<and>
   desired (AddDesired nid gid sid m r) = (desired r)(sliceKey nid gid sid \<mapsto>
     insert m (case desired r (sliceKey nid gid sid) of None \<Rightarrow> {} | Some S \<Rightarrow> S)) \<and>
   desired (RemoveDesired nid gid sid m r) = (\<lambda>k. if k = sliceKey nid gid sid
     then map_option (\<lambda>S. S - {m}) (desired r k) else desired r k)"
  by (auto simp: desired_SetDesired desired_AddDesired desired_RemoveDesired fun_eq_iff
      split: option.splits)

text \<open>
  Slice keys: for node and GPU identifiers without a slash, two slices share a key
  exactly when node and GPU agree and the slice identifiers agree up to the two spellings
  of the whole GPU, the empty string and \<open>full\<close>. Slice identifiers may hold slashes.
\<close>

theorem slice_key_identifies:
  assumes "CHR ''/'' \<notin> set nid" "CHR ''/'' \<notin> set gid"
    and "CHR ''/'' \<notin> set nid'" "CHR ''/'' \<notin> set gid'"
  shows "sliceKey nid gid sid = sliceKey nid' gid' sid' \<longleftrightarrow>
    nid = nid' \<and> gid = gid' \<and>
    (sid = sid' \<or> sid \<in> {[], ''full''} \<and> sid' \<in> {[], ''full''})"
proof
  let ?f = "\<lambda>s. if s = [] then ''full'' else s"
  assume "sliceKey nid gid sid = sliceKey nid' gid' sid'"
  then have eq: "nid @ slash @ (gid @ slash @ ?f sid) = nid' @ slash @ (gid' @ slash @ ?f sid')"
    by (simp add: sliceKey_def)
  from append_slash_inj [OF eq assms(1,3)]
  have n: "nid = nid'" and eq': "gid @ slash @ ?f sid = gid' @ slash @ ?f sid'" by simp_all
  from append_slash_inj [OF eq' assms(2,4)] have "gid = gid'" "?f sid = ?f sid'" by simp_all
  with n show "nid = nid' \<and> gid = gid' \<and>
    (sid = sid' \<or> sid \<in> {[], ''full''} \<and> sid' \<in> {[], ''full''})" by (auto split: if_splits)
qed (auto simp: sliceKey_def)

theorem slice_key_identifies_witness:
  "sliceKey ''n1'' ''g'' ''1/0/0'' \<noteq> sliceKey ''n1'' ''g'' ''0/0/0'' \<and>
   sliceKey ''n1'' ''g'' [] = sliceKey ''n1'' ''g'' ''full''"
proof -
  have h: "CHR ''/'' \<notin> set ''n1''" "CHR ''/'' \<notin> set ''g''" by simp_all
  show ?thesis
    using slice_key_identifies [OF h h, of "''1/0/0''" "''0/0/0''"]
      slice_key_identifies [OF h h, of "[]" "''full''"] by simp
qed

section \<open>What reconcile emits\<close>

abbreviation action :: "ActionType \<Rightarrow> GPUNode \<Rightarrow> string \<Rightarrow> string \<Rightarrow> ReconcileAction" where
  "action ty n sid m \<equiv> \<lparr>a_Type = ty, a_NodeID = NodeID n, a_GPUID = GPUID n, a_SliceID = sid,
     a_ModelName = m\<rparr>"

text \<open>
  The units a node is compared at: its healthy MIG slices, or the whole GPU; each with the
  models it reports loaded. The drift of a unit is what must change for the loaded models to
  be the desired ones; a unit without a desired state has none.
\<close>

definition units_of :: "GPUNode \<Rightarrow> (string \<times> string list) set" where
  "units_of n =
     (if MIGEnabled n \<and> MIGSlices n \<noteq> []
      then {(s_SliceID s, s_LoadedModels s) | s. s \<in> set (MIGSlices n) \<and> s_Healthy s}
      else {([], LoadedModels n)})"

definition drift :: "Reconciler \<Rightarrow> GPUNode \<Rightarrow> string \<Rightarrow> string list \<Rightarrow> ReconcileAction set" where
  "drift r n sid loaded =
     (case desired r (sliceKey (NodeID n) (GPUID n) sid) of
        None \<Rightarrow> {}
      | Some D \<Rightarrow> {action ActionPrewarm n sid m | m. m \<in> D \<and> m \<notin> set loaded} \<union>
                  {action ActionEvict n sid m | m. m \<in> set loaded \<and> m \<notin> D})"

definition node_drift :: "Reconciler \<Rightarrow> GPUNode \<Rightarrow> ReconcileAction set" where
  "node_drift r n = (\<Union>(sid, loaded) \<in> units_of n. drift r n sid loaded)"

definition is_stale :: "Reconciler \<Rightarrow> time \<Rightarrow> GPUNode \<Rightarrow> bool" where
  "is_stale r now n \<longleftrightarrow> LastHeartbeat n < now - staleTimeout r"

lemma set_slice_actions:
  "pick_ok pick \<Longrightarrow> distinct d \<Longrightarrow> distinct a \<Longrightarrow>
     set (slice_actions pick n j sid d a) =
       {action ActionPrewarm n sid m | m. m \<in> set d \<and> m \<notin> set a} \<union>
       {action ActionEvict n sid m | m. m \<in> set a \<and> m \<notin> set d}"
  by (auto simp: slice_actions_def pick_ok_def)

lemma set_snapshot_actions:
  assumes "pick_ok pick"
  shows "set (case snapshotDesired r (sliceKey (NodeID n) (GPUID n) sid) of None \<Rightarrow> []
      | Some d \<Rightarrow> slice_actions pick n j sid d (toSet loaded)) = drift r n sid loaded"
  by (auto simp: drift_def desired_def snapshotDesired_def toSet_def set_slice_actions [OF assms]
      split: option.splits)

lemma set_mig_actions:
  assumes "pick_ok pick"
  shows "set (mig_actions pick r n j ss) =
    (\<Union>s \<in> {s \<in> set ss. s_Healthy s}. drift r n (s_SliceID s) (s_LoadedModels s))"
proof (induction ss arbitrary: j)
  case (Cons s ss)
  then show ?case using set_snapshot_actions [OF assms] by auto
qed simp

lemma sliceKey_full: "sliceKey nid gid ''full'' = sliceKey nid gid []"
  by (simp add: sliceKey_def)

lemma set_node_actions:
  assumes "pick_ok pick"
  shows "set (if MIGEnabled n \<and> MIGSlices n \<noteq> [] then reconcileMIGNode pick r n
    else reconcileNonMIGNode pick r n) = node_drift r n"
proof (cases "MIGEnabled n \<and> MIGSlices n \<noteq> []")
  case True
  then show ?thesis
    by (auto simp: reconcileMIGNode_def set_mig_actions [OF assms] node_drift_def units_of_def)
next
  case False
  then have no: "(MIGEnabled n \<and> MIGSlices n \<noteq> []) = False" by blast
  show ?thesis
    unfolding no if_False reconcileNonMIGNode_def sliceKey_full set_snapshot_actions [OF assms]
      node_drift_def units_of_def by simp
qed

text \<open>Marking nodes dead clears their health and nothing else.\<close>

lemma nodes_mark_dead:
  "nodes (fst (mark_dead ns reg)) k = (case nodes reg k of None \<Rightarrow> None
     | Some n \<Rightarrow> Some (if k \<in> key_of ` set ns then n\<lparr>Healthy := False\<rparr> else n))"
proof (induction ns arbitrary: reg)
  case (Cons n ns)
  then show ?case
    by (auto simp: nodes_MarkUnhealthy key_of_def split_def Let_def split: option.splits)
qed (simp split: option.splits)

lemma mark_dead_actions:
  "snd (mark_dead ns reg) = map (\<lambda>n. action ActionMarkDead n [] []) ns"
  by (induction ns arbitrary: reg) (auto simp: split_def Let_def)

lemma registry_ok_mark_dead [keeps_inv]: "registry_ok reg \<Longrightarrow> registry_ok (fst (mark_dead ns reg))"
  by (induction ns arbitrary: reg) (auto simp: split_def Let_def intro: registry_ok_MarkUnhealthy)

lemma dom_mark_dead: "dom (nodes (fst (mark_dead ns reg))) = dom (nodes reg)"
  by (auto simp: nodes_mark_dead split: option.splits)

lemma healthy_after_marking:
  assumes ok: "registry_ok reg" and ks: "enumerates ks (nodes reg)"
  shows "healthy_nodes (fst (mark_dead (StaleNodes ks now th reg) reg)) =
    {n \<in> healthy_nodes reg. \<not> LastHeartbeat n < now - th}"
proof -
  let ?stale = "StaleNodes ks now th reg"
  have mem: "k \<in> key_of ` set ?stale \<longleftrightarrow> Healthy n \<and> LastHeartbeat n < now - th"
    if "nodes reg k = Some n" for k n
  proof
    assume "k \<in> key_of ` set ?stale"
    then obtain n' where n': "n' \<in> healthy_nodes reg" "LastHeartbeat n' < now - th" "k = key_of n'"
      by (auto simp: set_StaleNodes [OF ks])
    then obtain k' where "nodes reg k' = Some n'" by (auto simp: healthy_nodes_def ran_def)
    with n'(3) registry_okD [OF ok] that have "n' = n" by fastforce
    with n' show "Healthy n \<and> LastHeartbeat n < now - th" by (simp add: healthy_nodes_def)
  next
    assume "Healthy n \<and> LastHeartbeat n < now - th"
    with that have "n \<in> set ?stale"
      by (auto simp: set_StaleNodes [OF ks] healthy_nodes_def ran_def)
    with registry_okD [OF ok that] show "k \<in> key_of ` set ?stale" by blast
  qed
  have "nodes (fst (mark_dead ?stale reg)) k = Some n \<and> Healthy n \<longleftrightarrow>
      nodes reg k = Some n \<and> Healthy n \<and> k \<notin> key_of ` set ?stale" for k n
    by (cases "nodes reg k") (auto simp: nodes_mark_dead)
  with mem have "nodes (fst (mark_dead ?stale reg)) k = Some n \<and> Healthy n \<longleftrightarrow>
      nodes reg k = Some n \<and> Healthy n \<and> \<not> LastHeartbeat n < now - th" for k n
    by blast
  then show ?thesis unfolding healthy_nodes_def ran_def by blast
qed

text \<open>What one pass of the loop does, on every order of the maps it visits.\<close>

lemma reconcile_spec:
  assumes "registry_ok reg" and "pick_ok pick"
    and "enumerates ks (nodes reg)" and "enumerates ks' (nodes reg)"
    and run: "reconcile pick ks ks' now r reg = (reg', acts)"
  shows "set acts = {action ActionMarkDead n [] [] | n. n \<in> healthy_nodes reg \<and> is_stale r now n} \<union>
      (\<Union>n \<in> {n \<in> healthy_nodes reg. \<not> is_stale r now n}. node_drift r n)"
    and "healthy_nodes reg' = {n \<in> healthy_nodes reg. \<not> is_stale r now n}"
    and "registry_ok reg'" and "dom (nodes reg') = dom (nodes reg)"
proof -
  let ?m = "mark_dead (StaleNodes ks now (staleTimeout r) reg) reg"
  have reg': "reg' = fst ?m" and acts: "acts = snd ?m @ concat (map (\<lambda>node.
      if MIGEnabled node \<and> MIGSlices node \<noteq> [] then reconcileMIGNode pick r node
      else reconcileNonMIGNode pick r node) (All ks' reg'))"
    using run by (auto simp: reconcile_def Let_def split_def)
  show h: "healthy_nodes reg' = {n \<in> healthy_nodes reg. \<not> is_stale r now n}"
    using healthy_after_marking [OF assms(1,3)] by (simp add: reg' is_stale_def)
  show "registry_ok reg'" using assms(1) by (simp add: reg' registry_ok_mark_dead)
  show dom: "dom (nodes reg') = dom (nodes reg)" by (simp add: reg' dom_mark_dead)
  have "enumerates ks' (nodes reg')" using assms(4) dom by (simp add: enumerates_def)
  then have "set (All ks' reg') = {n \<in> healthy_nodes reg. \<not> is_stale r now n}"
    using h by (simp add: set_All)
  moreover have "set (snd ?m) = {action ActionMarkDead n [] [] | n. n \<in> healthy_nodes reg \<and> is_stale r now n}"
    by (auto simp: mark_dead_actions set_StaleNodes [OF assms(3)] is_stale_def)
  ultimately show "set acts = {action ActionMarkDead n [] [] | n. n \<in> healthy_nodes reg \<and> is_stale r now n} \<union>
      (\<Union>n \<in> {n \<in> healthy_nodes reg. \<not> is_stale r now n}. node_drift r n)"
    by (simp only: acts set_append set_concat set_map image_image set_node_actions [OF assms(2)])
qed

text \<open>
  C15. One pass of \<open>reconcile\<close> emits exactly the corrective actions: a MARK_DEAD for every
  healthy node whose last heartbeat is older than the timeout, and for every other healthy
  node a PREWARM for each desired model not loaded and an EVICT for each loaded model not
  desired, on each healthy slice (or whole GPU) that has a desired state, and nothing else;
  this for every order in which the maps are visited.
\<close>

theorem reconcile_emits_exactly_the_drift:
  assumes "registry_ok reg" and "pick_ok pick"
    and "enumerates ks (nodes reg)" and "enumerates ks' (nodes reg)"
  shows "set (snd (reconcile pick ks ks' now r reg)) =
    {action ActionMarkDead n [] [] | n. n \<in> healthy_nodes reg \<and> is_stale r now n} \<union>
    {action ActionPrewarm n sid m | n sid loaded D m.
       n \<in> healthy_nodes reg \<and> \<not> is_stale r now n \<and> (sid, loaded) \<in> units_of n \<and>
       desired r (sliceKey (NodeID n) (GPUID n) sid) = Some D \<and> m \<in> D \<and> m \<notin> set loaded} \<union>
    {action ActionEvict n sid m | n sid loaded D m.
       n \<in> healthy_nodes reg \<and> \<not> is_stale r now n \<and> (sid, loaded) \<in> units_of n \<and>
       desired r (sliceKey (NodeID n) (GPUID n) sid) = Some D \<and> m \<in> set loaded \<and> m \<notin> D}"
proof -
  have drift: "(\<Union>n \<in> N. node_drift r n) =
      {action ActionPrewarm n sid m | n sid loaded D m. n \<in> N \<and> (sid, loaded) \<in> units_of n \<and>
         desired r (sliceKey (NodeID n) (GPUID n) sid) = Some D \<and> m \<in> D \<and> m \<notin> set loaded} \<union>
      {action ActionEvict n sid m | n sid loaded D m. n \<in> N \<and> (sid, loaded) \<in> units_of n \<and>
         desired r (sliceKey (NodeID n) (GPUID n) sid) = Some D \<and> m \<in> set loaded \<and> m \<notin> D}" for N
    unfolding node_drift_def drift_def by (fastforce split: option.splits)
  show ?thesis
    unfolding reconcile_spec(1) [OF assms prod.collapse [symmetric]] drift by auto
qed

text \<open>
  The loop is quiet exactly when there is nothing to heal: a pass emits no action if and
  only if no healthy node is stale and on every unit with a desired state the loaded models
  are the desired ones, as sets.
\<close>

theorem reconcile_quiet_iff_converged:
  assumes "registry_ok reg" and "pick_ok pick"
    and "enumerates ks (nodes reg)" and "enumerates ks' (nodes reg)"
  shows "snd (reconcile pick ks ks' now r reg) = [] \<longleftrightarrow>
    (\<forall>n \<in> healthy_nodes reg. \<not> is_stale r now n \<and>
      (\<forall>(sid, loaded) \<in> units_of n. \<forall>D.
        desired r (sliceKey (NodeID n) (GPUID n) sid) = Some D \<longrightarrow> set loaded = D))"
proof -
  have quiet: "node_drift r n = {} \<longleftrightarrow> (\<forall>(sid, loaded) \<in> units_of n. \<forall>D.
      desired r (sliceKey (NodeID n) (GPUID n) sid) = Some D \<longrightarrow> set loaded = D)" for n
    unfolding node_drift_def drift_def by (fastforce split: option.splits)
  show ?thesis
    unfolding set_empty [symmetric] reconcile_spec(1) [OF assms prod.collapse [symmetric]]
      quiet [symmetric] by blast
qed

text \<open>
  A node is declared dead once: if two passes run with no heartbeat between them, at any
  times, the second repeats none of the MARK_DEAD actions of the first.
\<close>

theorem mark_dead_not_repeated:
  assumes "registry_ok reg" and "pick_ok pick"
    and "enumerates ks (nodes reg)" and "enumerates ks' (nodes reg)"
    and "enumerates ls (nodes reg)" and "enumerates ls' (nodes reg)"
    and first: "reconcile pick ks ks' now r reg = (reg1, acts1)"
    and second: "reconcile pick ls ls' now' r reg1 = (reg2, acts2)"
    and a: "a \<in> set acts1" "a_Type a = ActionMarkDead"
  shows "a \<notin> set acts2"
proof
  assume "a \<in> set acts2"
  note one = reconcile_spec [OF assms(1-4) first]
  have "enumerates ls (nodes reg1)" "enumerates ls' (nodes reg1)"
    using assms(5,6) one(4) by (simp_all add: enumerates_def)
  note two = reconcile_spec [OF one(3) assms(2) this second]
  have no_mark: "a_Type b \<noteq> ActionMarkDead" if "b \<in> node_drift r n" for b n
    using that by (auto simp: node_drift_def drift_def split: option.splits)
  obtain n where n: "n \<in> healthy_nodes reg" "is_stale r now n" "a = action ActionMarkDead n [] []"
    using a no_mark unfolding one(1) by blast
  obtain n' where n': "n' \<in> healthy_nodes reg1" "a = action ActionMarkDead n' [] []"
    using \<open>a \<in> set acts2\<close> a(2) no_mark unfolding two(1) by blast
  from n' one(2) have "n' \<in> healthy_nodes reg" "\<not> is_stale r now n'" by simp_all
  moreover have "key_of n = key_of n'" using n(3) n'(2) by (simp add: key_of_def)
  ultimately have "n = n'" using n(1) registry_okD [OF assms(1)]
    by (fastforce simp: healthy_nodes_def ran_def)
  with n(2) \<open>\<not> is_stale r now n'\<close> show False by simp
qed

text \<open>
  A heartbeat keeps its node alive for the timeout: after one is applied at time \<open>t\<close>, a
  pass at any time up to \<open>t\<close> plus the stale timeout leaves the node in the registry, healthy,
  as the heartbeat described it.
\<close>

theorem heartbeat_keeps_alive:
  assumes "registry_ok reg" and "pick_ok pick"
    and reg': "reg' = applyHeartbeat t hb reg"
    and "enumerates ks (nodes reg')" and "enumerates ks' (nodes reg')"
    and "now \<le> t + staleTimeout r"
  shows "Get (fst (reconcile pick ks ks' now r reg')) (hb_NodeID hb) (hb_GPUID hb) =
    Some ((node_of_heartbeat t hb)\<lparr>Healthy := True\<rparr>)"
proof -
  let ?n = "(node_of_heartbeat t hb)\<lparr>Healthy := True\<rparr>"
  let ?stale = "StaleNodes ks now (staleTimeout r) reg'"
  have key: "key_of ?n = node_key (hb_NodeID hb) (hb_GPUID hb)"
    by (simp add: key_of_def node_of_heartbeat_def)
  have found: "nodes reg' (key_of ?n) = Some ?n"
    unfolding reg' applyHeartbeat_def by (simp add: nodes_Upsert key_of_def)
  have ok: "registry_ok reg'"
    using assms(1) by (simp add: reg' applyHeartbeat_def registry_ok_Upsert)
  have "?n \<in> healthy_nodes reg'" using found by (auto simp: healthy_nodes_def ran_def)
  moreover have "\<not> LastHeartbeat ?n < now - staleTimeout r"
    using assms(6) by (simp add: node_of_heartbeat_def)
  ultimately have "?n \<in> healthy_nodes (fst (mark_dead ?stale reg'))"
    by (simp add: healthy_after_marking [OF ok assms(4)])
  then obtain k where "nodes (fst (mark_dead ?stale reg')) k = Some ?n"
    by (auto simp: healthy_nodes_def ran_def)
  moreover from this registry_okD [OF registry_ok_mark_dead [OF ok]] have "k = key_of ?n" by blast
  ultimately show ?thesis by (simp add: Get_def reconcile_def Let_def split_def key)
qed

section \<open>Concrete runs\<close>

definition demo_hb :: "string list \<Rightarrow> HeartbeatMsg" where
  "demo_hb ms = \<lparr>hb_NodeID = ''a'', hb_GPUID = ''g'', hb_UsedVRAMMiB = 200, hb_TotalVRAMMiB = 1000,
     hb_LoadedModels = ms, hb_NVLinkEnabled = False, hb_MIGEnabled = False, hb_MIGSlices = [],
     hb_ModelWeightAffinity = Map.empty, hb_AgentAddr = ''http://a''\<rparr>"

definition demo_cluster :: NodeRegistry where
  "demo_cluster = applyHeartbeat 0 (demo_hb [''y'']) NewNodeRegistry"

definition demo_rec :: Reconciler where
  "demo_rec = AddDesired ''a'' ''g'' [] ''x'' NewReconciler"

definition in_order :: pick where
  "in_order k i xs = xs"

lemma in_order_ok: "pick_ok in_order"
  by (simp add: pick_ok_def in_order_def)

lemma demo_cluster_ok: "registry_ok demo_cluster"
  by (simp add: demo_cluster_def applyHeartbeat_def registry_ok_Upsert registry_ok_New)

lemma demo_cluster_keys: "enumerates [''a/g''] (nodes demo_cluster)"
  by (simp add: enumerates_def demo_cluster_def applyHeartbeat_def nodes_Upsert key_of_def
      node_key_def node_of_heartbeat_def demo_hb_def slash_def NewNodeRegistry_def)

text \<open>The node, as the demo heartbeat describes it.\<close>

lemma demo_actions:
  "snd (reconcile in_order [''a/g''] [''a/g''] 0 demo_rec demo_cluster) =
    [\<lparr>a_Type = ActionPrewarm, a_NodeID = ''a'', a_GPUID = ''g'', a_SliceID = [], a_ModelName = ''x''\<rparr>,
     \<lparr>a_Type = ActionEvict, a_NodeID = ''a'', a_GPUID = ''g'', a_SliceID = [], a_ModelName = ''y''\<rparr>]"
  by code_simp

lemma demo_dead:
  "snd (reconcile in_order [''a/g''] [''a/g''] (3 * Second) demo_rec demo_cluster) =
    [\<lparr>a_Type = ActionMarkDead, a_NodeID = ''a'', a_GPUID = ''g'', a_SliceID = [], a_ModelName = []\<rparr>]"
  by code_simp

theorem reconcile_emits_exactly_the_drift_witness:
  "\<exists>n \<in> healthy_nodes demo_cluster. \<not> is_stale demo_rec 0 n \<and> NodeID n = ''a'' \<and>
     desired demo_rec (sliceKey (NodeID n) (GPUID n) []) = Some {''x''}"
proof -
  have "\<lparr>a_Type = ActionPrewarm, a_NodeID = ''a'', a_GPUID = ''g'', a_SliceID = [],
      a_ModelName = ''x''\<rparr> \<in> set (snd (reconcile in_order [''a/g''] [''a/g''] 0 demo_rec demo_cluster))"
    unfolding demo_actions by simp
  then obtain n where "n \<in> healthy_nodes demo_cluster" "\<not> is_stale demo_rec 0 n" "NodeID n = ''a''"
    "GPUID n = ''g''"
    unfolding reconcile_emits_exactly_the_drift [OF demo_cluster_ok in_order_ok demo_cluster_keys demo_cluster_keys]
    by auto
  moreover have "desired demo_rec (sliceKey ''a'' ''g'' []) = Some {''x''}"
    by (simp add: demo_rec_def desired_AddDesired) (simp add: desired_def NewReconciler_def)
  ultimately show ?thesis by auto
qed

theorem reconcile_quiet_iff_converged_witness:
  "\<exists>n \<in> healthy_nodes demo_cluster. is_stale demo_rec 0 n \<or>
     (\<exists>(sid, loaded) \<in> units_of n. \<exists>D.
        desired demo_rec (sliceKey (NodeID n) (GPUID n) sid) = Some D \<and> set loaded \<noteq> D)"
  using reconcile_quiet_iff_converged [OF demo_cluster_ok in_order_ok demo_cluster_keys demo_cluster_keys,
      of 0 demo_rec]
  by (simp add: demo_actions) blast

theorem mark_dead_not_repeated_witness:
  "\<lparr>a_Type = ActionMarkDead, a_NodeID = ''a'', a_GPUID = ''g'', a_SliceID = [], a_ModelName = []\<rparr> \<notin>
     set (snd (reconcile in_order [''a/g''] [''a/g''] (9 * Second) demo_rec
       (fst (reconcile in_order [''a/g''] [''a/g''] (3 * Second) demo_rec demo_cluster))))"
  by (rule mark_dead_not_repeated [OF demo_cluster_ok in_order_ok demo_cluster_keys demo_cluster_keys
      demo_cluster_keys demo_cluster_keys prod.collapse [symmetric] prod.collapse [symmetric]])
    (simp_all add: demo_dead)

theorem heartbeat_keeps_alive_witness:
  "Get (fst (reconcile in_order [''a/g''] [''a/g''] (2 * Second) demo_rec demo_cluster)) ''a'' ''g'' =
     Some ((node_of_heartbeat 0 (demo_hb [''y'']))\<lparr>Healthy := True\<rparr>)"
proof -
  have ok: "registry_ok NewNodeRegistry" by (rule registry_ok_New)
  have "2 * Second \<le> 0 + staleTimeout demo_rec" by (simp add: demo_rec_def NewReconciler_def)
  from heartbeat_keeps_alive [OF ok in_order_ok demo_cluster_def demo_cluster_keys demo_cluster_keys this]
  show ?thesis by (simp add: demo_hb_def)
qed

end
