(* ===== verification/Admission_Queue.thy ===== *)
theory Admission_Queue
  imports Prelude
begin

text \<open>
  \<open>scheduler/admission/queue.go\<close>: the bounded first-in first-out bucket of each priority
  class and the weighted round-robin that takes requests out of them. The queue holds
  pointers to pending requests; the type of the pointers is a parameter of the record.
\<close>

section \<open>The queue\<close>

datatype PriorityClass = High | Medium | Low

datatype queue_error = ErrQueueFull

definition weightSequence :: "PriorityClass list" where
  "weightSequence = [High, High, High, High, High, High, High, Medium, Medium, Low]"

text \<open>
  The map of buckets has the three classes as its keys and never changes them, so it is a
  function on the classes.
\<close>

record 'p Queue =
  buckets :: "PriorityClass \<Rightarrow> 'p list"
  capacity :: int
  cursor :: nat

definition NewQueue :: "int \<Rightarrow> 'p Queue" where
  "NewQueue capacityPerClass = \<lparr>buckets = (\<lambda>_. []), capacity = capacityPerClass, cursor = 0\<rparr>"

definition Admit :: "PriorityClass \<Rightarrow> 'p \<Rightarrow> 'p Queue \<Rightarrow> queue_error + 'p Queue" where
  "Admit cls pr q =
     (let b = buckets q cls in
      if int (length b) \<ge> capacity q then Inl ErrQueueFull
      else Inr (q\<lparr>buckets := (buckets q)(cls := b @ [pr])\<rparr>))"

text \<open>The loop of \<open>Next\<close>, with the number of slots it may still look at.\<close>

primrec scan :: "nat \<Rightarrow> 'p Queue \<Rightarrow> ('p \<times> PriorityClass) option \<times> 'p Queue" where
  "scan 0 q = (None, q)"
| "scan (Suc n) q =
     (let cls = weightSequence ! cursor q;
          q' = q\<lparr>cursor := (cursor q + 1) mod length weightSequence\<rparr>
      in case buckets q' cls of
           [] \<Rightarrow> scan n q'
         | pr # rest \<Rightarrow> (Some (pr, cls), q'\<lparr>buckets := (buckets q')(cls := rest)\<rparr>))"

definition Next :: "'p Queue \<Rightarrow> ('p \<times> PriorityClass) option \<times> 'p Queue" where
  "Next q = scan (length weightSequence) q"

definition Len :: "'p Queue \<Rightarrow> nat" where
  "Len q = length (buckets q High) + length (buckets q Medium) + length (buckets q Low)"

section \<open>The classes\<close>

instantiation PriorityClass :: enum
begin

definition enum_classes: "enum_class.enum = [High, Medium, Low]"

definition enum_all_classes: "enum_class.enum_all P \<longleftrightarrow> P High \<and> P Medium \<and> P Low"

definition enum_ex_classes: "enum_class.enum_ex P \<longleftrightarrow> P High \<or> P Medium \<or> P Low"

lemma UNIV_PriorityClass: "(UNIV :: PriorityClass set) = {High, Medium, Low}"
  using PriorityClass.exhaust by blast

lemma all_PriorityClass: "(\<forall>c. P c) \<longleftrightarrow> P High \<and> P Medium \<and> P Low"
  by (metis PriorityClass.exhaust)

instance
  by standard
    (simp_all add: enum_classes enum_all_classes enum_ex_classes UNIV_PriorityClass)

end

text \<open>The order of the constants: a smaller class is retried at a higher rate.\<close>

instantiation PriorityClass :: linorder
begin

primrec class_rank :: "PriorityClass \<Rightarrow> nat" where
  "class_rank High = 0"
| "class_rank Medium = 1"
| "class_rank Low = 2"

definition less_eq_PriorityClass :: "PriorityClass \<Rightarrow> PriorityClass \<Rightarrow> bool" where
  "c \<le> d \<longleftrightarrow> class_rank c \<le> class_rank d"

definition less_PriorityClass :: "PriorityClass \<Rightarrow> PriorityClass \<Rightarrow> bool" where
  "(c :: PriorityClass) < d \<longleftrightarrow> class_rank c < class_rank d"

lemma class_rank_inj: "class_rank c = class_rank d \<Longrightarrow> c = d"
  by (cases c; cases d) simp_all

instance
  by standard (auto simp: less_eq_PriorityClass_def less_PriorityClass_def intro: class_rank_inj)

end

definition weight :: "PriorityClass \<Rightarrow> nat" where
  "weight c = count_list weightSequence c"

lemma weights: "weight High = 7" "weight Medium = 2" "weight Low = 1"
  by (simp_all add: weight_def weightSequence_def)

lemma length_weightSequence [simp]: "length weightSequence = 10"
  by (simp add: weightSequence_def)

lemma less_10: "(n :: nat) < 10 \<longleftrightarrow> n \<in> {0, 1, 2, 3, 4, 5, 6, 7, 8, 9}"
  by auto

section \<open>One operation\<close>

definition queue_wf :: "'p Queue \<Rightarrow> bool" where
  "queue_wf q \<longleftrightarrow> cursor q < 10 \<and> (\<forall>c. int (length (buckets q c)) \<le> max 0 (capacity q))"

lemma queue_wf_New [keeps_inv]: "queue_wf (NewQueue n)"
  by (simp add: queue_wf_def NewQueue_def)

lemma Admit_Inr:
  "Admit c p q = Inr q' \<longleftrightarrow> int (length (buckets q c)) < capacity q \<and>
     q' = q\<lparr>buckets := (buckets q)(c := buckets q c @ [p])\<rparr>"
  by (auto simp: Admit_def Let_def)

lemma Admit_Inl: "Admit c p q = Inl e \<longleftrightarrow> capacity q \<le> int (length (buckets q c))"
  by (cases e) (auto simp: Admit_def Let_def)

lemma queue_wf_Admit [keeps_inv]: "queue_wf q \<Longrightarrow> Admit c p q = Inr q' \<Longrightarrow> queue_wf q'"
  by (auto simp: queue_wf_def Admit_Inr)

lemma scan_Some:
  "scan n q = (Some (p, c), q') \<Longrightarrow>
     buckets q c = p # buckets q' c \<and> (\<forall>d. d \<noteq> c \<longrightarrow> buckets q' d = buckets q d) \<and>
     capacity q' = capacity q"
proof (induction n arbitrary: q)
  case (Suc n)
  show ?case
  proof (cases "buckets q (weightSequence ! cursor q)")
    case Nil
    with Suc.prems Suc.IH [of "q\<lparr>cursor := Suc (cursor q) mod 10\<rparr>"] show ?thesis
      by (simp add: Let_def)
  next
    case (Cons pr rest)
    with Suc.prems show ?thesis by (auto simp: Let_def)
  qed
qed simp

lemma scan_cursor: "scan n q = (x, q') \<Longrightarrow> cursor q < 10 \<Longrightarrow> cursor q' < 10"
  by (induction n arbitrary: q) (auto simp: Let_def split: list.splits)

lemma scan_None_frame:
  "scan n q = (None, q') \<Longrightarrow> buckets q' = buckets q \<and> capacity q' = capacity q"
  by (induction n arbitrary: q) (fastforce simp: Let_def split: list.splits)+

lemma Next_bucket:
  "Next q = (Some (p, c), q') \<Longrightarrow>
     buckets q = (buckets q')(c := p # buckets q' c) \<and> capacity q' = capacity q"
  unfolding Next_def by (drule scan_Some) (auto simp: fun_eq_iff)

text \<open>How many slots lie between the cursor and the next slot of a class.\<close>

definition dist :: "PriorityClass \<Rightarrow> nat \<Rightarrow> nat" where
  "dist c k = length (takeWhile (\<lambda>d. d \<noteq> c) (rotate k weightSequence))"

text \<open>The most it can be: the longest stretch without the class.\<close>

primrec gap :: "PriorityClass \<Rightarrow> nat" where
  "gap High = 3"
| "gap Medium = 8"
| "gap Low = 9"

lemma dist_table: "\<forall>k \<in> {0, 1, 2, 3, 4, 5, 6, 7, 8, 9}. \<forall>c. dist c k \<le> gap c \<and>
    (weightSequence ! k \<noteq> c \<longrightarrow> dist c k = Suc (dist c ((k + 1) mod 10)))"
  unfolding all_PriorityClass by code_simp

lemma dist_le_gap: "k < 10 \<Longrightarrow> dist c k \<le> gap c"
  using dist_table unfolding less_10 by blast

lemma dist_step:
  "k < 10 \<Longrightarrow> weightSequence ! k \<noteq> c \<Longrightarrow> dist c k = Suc (dist c (Suc k mod 10))"
  using dist_table [THEN bspec, of k] unfolding less_10 by simp

lemma gap_less_10: "gap c < 10"
  by (cases c) simp_all

lemma scan_progress:
  "buckets q c \<noteq> [] \<Longrightarrow> cursor q < 10 \<Longrightarrow> dist c (cursor q) < n \<Longrightarrow>
     \<exists>p d q'. scan n q = (Some (p, d), q') \<and>
       (d \<noteq> c \<longrightarrow> dist c (cursor q') < dist c (cursor q))"
proof (induction n arbitrary: q)
  case (Suc n)
  let ?q' = "q\<lparr>cursor := Suc (cursor q) mod 10\<rparr>"
  show ?case
  proof (cases "buckets q (weightSequence ! cursor q)")
    case (Cons pr rest)
    then show ?thesis
      using dist_step [OF Suc.prems(2), of c] by (auto simp: Let_def)
  next
    case Nil
    then have "weightSequence ! cursor q \<noteq> c" using Suc.prems(1) by auto
    note st = dist_step [OF Suc.prems(2) this]
    have "\<exists>p d q'. scan n ?q' = (Some (p, d), q') \<and>
        (d \<noteq> c \<longrightarrow> dist c (cursor q') < dist c (cursor ?q'))"
      using Suc.prems st by (intro Suc.IH) simp_all
    with Nil st show ?thesis by (fastforce simp: Let_def)
  qed
qed simp

lemma Next_progress:
  assumes "buckets q c \<noteq> []" and "cursor q < 10"
  obtains p d q' where "Next q = (Some (p, d), q')"
    and "d \<noteq> c \<longrightarrow> dist c (cursor q') < dist c (cursor q)"
proof -
  have "dist c (cursor q) < 10"
    using dist_le_gap [OF assms(2), of c] gap_less_10 [of c] by linarith
  then show ?thesis using scan_progress [OF assms] that by (auto simp: Next_def)
qed

lemma queue_wf_Next [keeps_inv]: "queue_wf q \<Longrightarrow> Next q = (x, q') \<Longrightarrow> queue_wf q'"
proof (cases x)
  case None
  then show "queue_wf q \<Longrightarrow> Next q = (x, q') \<Longrightarrow> queue_wf q'"
    using scan_None_frame scan_cursor by (fastforce simp: queue_wf_def Next_def)
next
  case (Some pc)
  obtain p c where pc: "pc = (p, c)" by fastforce
  assume wf: "queue_wf q" and nx: "Next q = (x, q')"
  have "int (length (buckets q' d)) \<le> max 0 (capacity q')" for d
  proof -
    have "length (buckets q' d) \<le> length (buckets q d)" "capacity q' = capacity q"
      using Next_bucket [of q p c q'] nx Some pc by auto
    with wf show ?thesis unfolding queue_wf_def by (smt (verit) of_nat_mono)
  qed
  then show ?thesis
    using wf nx scan_cursor [of _ q x q'] by (simp add: queue_wf_def Next_def)
qed

lemma Len_zero: "Len q = 0 \<longleftrightarrow> (\<forall>c. buckets q c = [])"
  by (auto simp: Len_def all_PriorityClass)

section \<open>Sequences of operations\<close>

text \<open>
  What the gateway relies on: each class holds its requests in the order they were
  admitted. The contract is stated of any queue with classes; \<open>run_ops\<close> performs a sequence
  of operations and collects the admitted and the dispatched requests with their classes.
\<close>

datatype ('p, 'c) queue_op = OpAdmit 'c 'p | OpNext

fun run_ops ::
  "('c \<Rightarrow> 'p \<Rightarrow> 'q \<Rightarrow> 'e + 'q) \<Rightarrow> ('q \<Rightarrow> ('p \<times> 'c) option \<times> 'q) \<Rightarrow> ('p, 'c) queue_op list \<Rightarrow> 'q \<Rightarrow>
     ('p \<times> 'c) list \<times> ('p \<times> 'c) list \<times> 'q"
where
  "run_ops put get [] q = ([], [], q)"
| "run_ops put get (OpAdmit c p # ops) q =
     (case put c p q of
        Inl e \<Rightarrow> run_ops put get ops q
      | Inr q1 \<Rightarrow> (let (ins, outs, q2) = run_ops put get ops q1 in ((p, c) # ins, outs, q2)))"
| "run_ops put get (OpNext # ops) q =
     (case get q of
        (None, q1) \<Rightarrow> run_ops put get ops q1
      | (Some pc, q1) \<Rightarrow> (let (ins, outs, q2) = run_ops put get ops q1 in (ins, pc # outs, q2)))"

definition of_class :: "'c \<Rightarrow> ('p \<times> 'c) list \<Rightarrow> 'p list" where
  "of_class c pcs = map fst (filter (\<lambda>pc. snd pc = c) pcs)"

lemma of_class_simps [simp]:
  "of_class c [] = []"
  "of_class c ((p, d) # pcs) = (if d = c then p # of_class c pcs else of_class c pcs)"
  by (simp_all add: of_class_def)

lemma mem_of_class: "p \<in> set (of_class c pcs) \<longleftrightarrow> (p, c) \<in> set pcs"
  by (force simp: of_class_def)

lemma run_Cons:
  assumes "run_ops put get (op # ops) q = (ins, outs, q')"
  obtains (refused) c p e where "op = OpAdmit c p" "put c p q = Inl e"
      "run_ops put get ops q = (ins, outs, q')"
  | (admitted) c p q1 ins1 where "op = OpAdmit c p" "put c p q = Inr q1"
      "run_ops put get ops q1 = (ins1, outs, q')" "ins = (p, c) # ins1"
  | (idle) q1 where "op = OpNext" "get q = (None, q1)" "run_ops put get ops q1 = (ins, outs, q')"
  | (dispatched) p c q1 outs1 where "op = OpNext" "get q = (Some (p, c), q1)"
      "run_ops put get ops q1 = (ins, outs1, q')" "outs = (p, c) # outs1"
  using assms
  by (cases op) (auto simp: Let_def split: sum.splits prod.splits option.splits)

locale class_queue =
  fixes ok :: "'q \<Rightarrow> bool"
    and view :: "'q \<Rightarrow> 'c \<Rightarrow> 'p list"
    and put :: "'c \<Rightarrow> 'p \<Rightarrow> 'q \<Rightarrow> 'e + 'q"
    and get :: "'q \<Rightarrow> ('p \<times> 'c) option \<times> 'q"
  assumes put_ok: "ok q \<Longrightarrow> put c p q = Inr q' \<Longrightarrow> ok q'"
    and get_ok: "ok q \<Longrightarrow> get q = (x, q') \<Longrightarrow> ok q'"
    and put_view: "ok q \<Longrightarrow> put c p q = Inr q' \<Longrightarrow> view q' = (view q)(c := view q c @ [p])"
    and get_view: "ok q \<Longrightarrow> get q = (Some (p, c), q') \<Longrightarrow> view q = (view q')(c := p # view q' c)"
    and get_empty: "ok q \<Longrightarrow> get q = (None, q') \<Longrightarrow> view q' = view q \<and> (\<forall>c. view q c = [])"
begin

lemma run_ok: "ok q \<Longrightarrow> run_ops put get ops q = (ins, outs, q') \<Longrightarrow> ok q'"
proof (induction ops arbitrary: q ins outs)
  case (Cons op ops)
  from Cons.prems(2) show ?case
    by (cases rule: run_Cons) (use Cons put_ok get_ok in blast)+
qed simp

lemma run_fifo:
  "ok q \<Longrightarrow> run_ops put get ops q = (ins, outs, q') \<Longrightarrow>
     view q c @ of_class c ins = of_class c outs @ view q' c"
proof (induction ops arbitrary: q ins outs)
  case (Cons op ops)
  from Cons.prems(2) show ?case
  proof (cases rule: run_Cons)
    case refused
    with Cons show ?thesis by blast
  next
    case (admitted d p q1 ins1)
    with Cons put_ok have "view q1 c @ of_class c ins1 = of_class c outs @ view q' c" by blast
    with admitted put_view [OF Cons.prems(1) admitted(2)] show ?thesis by auto
  next
    case (idle q1)
    with Cons get_ok have "view q1 c @ of_class c ins = of_class c outs @ view q' c" by blast
    with get_empty [OF Cons.prems(1) idle(2)] show ?thesis by simp
  next
    case (dispatched p d q1 outs1)
    with Cons get_ok have "view q1 c @ of_class c ins = of_class c outs1 @ view q' c" by blast
    with dispatched get_view [OF Cons.prems(1) dispatched(2)] show ?thesis by auto
  qed
qed simp

end

lemma Next_None: "queue_wf q \<Longrightarrow> Next q = (None, q') \<Longrightarrow>
    buckets q' = buckets q \<and> (\<forall>c. buckets q c = [])"
  using Next_progress [of q] scan_None_frame [of 10 q q'] unfolding queue_wf_def
  by (metis Next_def length_weightSequence option.distinct(1) prod.inject)

interpretation adm: class_queue queue_wf buckets Admit Next
proof unfold_locales
  fix q q' :: "'p Queue" and c p x
  show "queue_wf q \<Longrightarrow> Admit c p q = Inr q' \<Longrightarrow> queue_wf q'" by (rule queue_wf_Admit)
  show "queue_wf q \<Longrightarrow> Next q = (x, q') \<Longrightarrow> queue_wf q'" by (rule queue_wf_Next)
  show "Admit c p q = Inr q' \<Longrightarrow> buckets q' = (buckets q)(c := buckets q c @ [p])"
    by (simp add: Admit_Inr)
  show "Next q = (Some (p, c), q') \<Longrightarrow> buckets q = (buckets q')(c := p # buckets q' c)"
    by (simp add: Next_bucket)
  show "queue_wf q \<Longrightarrow> Next q = (None, q') \<Longrightarrow> buckets q' = buckets q \<and> (\<forall>c. buckets q c = [])"
    by (rule Next_None)
qed

abbreviation run_queue ::
  "('p, PriorityClass) queue_op list \<Rightarrow> 'p Queue \<Rightarrow>
     ('p \<times> PriorityClass) list \<times> ('p \<times> PriorityClass) list \<times> 'p Queue" where
  "run_queue \<equiv> run_ops Admit Next"

lemma Next_capacity: "Next q = (x, q') \<Longrightarrow> capacity q' = capacity q"
  using scan_None_frame [of 10 q q'] scan_Some [of 10 q _ _ q']
  by (cases x) (auto simp: Next_def)

lemma run_capacity: "run_queue ops q = (ins, outs, q') \<Longrightarrow> capacity q' = capacity q"
proof (induction ops arbitrary: q ins outs)
  case (Cons op ops)
  from Cons.prems show ?case
    by (cases rule: run_Cons) (use Cons.IH Next_capacity in \<open>force simp: Admit_Inr\<close>)+
qed simp

text \<open>
  The queue stays bounded: after any sequence of admissions and dispatches on a new queue
  the cursor is a slot of the ten-slot cycle, no class holds more than its capacity, and the
  total is at most three times the capacity.
\<close>

theorem queue_bounded:
  assumes "0 \<le> cap" and "run_queue ops (NewQueue cap) = (ins, outs, q)"
  shows "cursor q < length weightSequence \<and> (\<forall>c. int (length (buckets q c)) \<le> cap) \<and>
    int (Len q) \<le> 3 * cap"
proof -
  have wf: "queue_wf q" using adm.run_ok [OF queue_wf_New assms(2)] .
  have "capacity q = cap" using run_capacity [OF assms(2)] by (simp add: NewQueue_def)
  with wf assms(1) have b: "cursor q < 10" "int (length (buckets q c)) \<le> cap" for c
    by (simp_all add: queue_wf_def)
  have "int (Len q) \<le> 3 * cap"
    using b(2) [of High] b(2) [of Medium] b(2) [of Low] unfolding Len_def by linarith
  with b show ?thesis by simp
qed

text \<open>
  C25. The queue refines three first-in first-out lists: over any sequence of operations, what a
  class held followed by what was admitted to it is what was dispatched from it followed by
  what it holds in the end. Nothing is lost, duplicated, reordered within a class or moved to
  another class; a refused admission changes nothing.
\<close>

theorem queue_fifo:
  assumes "cursor q < 10" and "\<forall>c. int (length (buckets q c)) \<le> max 0 (capacity q)"
    and "run_queue ops q = (ins, outs, q')"
  shows "buckets q c @ of_class c ins = of_class c outs @ buckets q' c"
  using assms by (intro adm.run_fifo) (simp_all add: queue_wf_def)

text \<open>
  \<open>Next\<close> is work conserving: it returns nothing exactly when the queue is empty, although it
  looks at ten slots only; otherwise it returns the oldest request of some class and removes
  that one request.
\<close>

theorem next_work_conserving:
  assumes "cursor q < length weightSequence"
    and "\<forall>c. int (length (buckets q c)) \<le> max 0 (capacity q)"
  shows "case Next q of
      (None, q') \<Rightarrow> Len q = 0 \<and> buckets q' = buckets q
    | (Some (p, c), q') \<Rightarrow> buckets q c = p # buckets q' c \<and>
        (\<forall>d. d \<noteq> c \<longrightarrow> buckets q' d = buckets q d) \<and> Len q = Suc (Len q')"
proof -
  have wf: "queue_wf q" using assms by (simp add: queue_wf_def)
  obtain x q' where nx: "Next q = (x, q')" by fastforce
  show ?thesis
  proof (cases x)
    case None
    with nx Next_None [OF wf, of q'] show ?thesis by (simp add: Len_zero)
  next
    case (Some pc)
    obtain p c where "pc = (p, c)" by fastforce
    with nx Some Next_bucket [of q p c q'] show ?thesis by (cases c) (auto simp: Len_def)
  qed
qed

abbreviation nexts :: "('p, 'c) queue_op list \<Rightarrow> nat" where
  "nexts ops \<equiv> count_list ops OpNext"

lemma dispatched_by:
  "queue_wf q \<Longrightarrow> p < length (buckets q c) \<Longrightarrow>
     dist c (cursor q) + (gap c + 1) * p < nexts ops \<Longrightarrow>
     run_queue ops q = (ins, outs, q') \<Longrightarrow> (buckets q c ! p, c) \<in> set outs"
proof (induction ops arbitrary: q p ins outs)
  case (Cons op ops)
  note wf = Cons.prems(1) and p = Cons.prems(2) and n = Cons.prems(3)
  from Cons.prems(4) show ?case
  proof (cases rule: run_Cons)
    case (refused d x e)
    with wf p n show ?thesis by (intro Cons.IH) simp_all
  next
    case (admitted d x q1 ins1)
    have b: "buckets q1 c = buckets q c @ (if d = c then [x] else [])" "cursor q1 = cursor q"
      using admitted(2) by (auto simp: Admit_Inr)
    have "(buckets q1 c ! p, c) \<in> set outs"
      using admitted p n b queue_wf_Admit [OF wf admitted(2)] by (intro Cons.IH) simp_all
    with b p show ?thesis by (simp add: nth_append)
  next
    case (idle q1)
    with p Next_None [OF wf idle(2)] show ?thesis by simp
  next
    case (dispatched y d q1 outs1)
    have near: "d \<noteq> c \<longrightarrow> dist c (cursor q1) < dist c (cursor q)"
      using Next_progress [of q c] wf p dispatched(2)
      by (metis length_greater_0_conv less_nat_zero_code old.prod.inject option.inject
          queue_wf_def list.size(3))
    have wf1: "queue_wf q1" using queue_wf_Next [OF wf dispatched(2)] .
    have b: "buckets q = (buckets q1)(d := y # buckets q1 d)"
      using Next_bucket [OF dispatched(2)] by blast
    have n': "dist c (cursor q) + (gap c + 1) * p < Suc (nexts ops)" using n dispatched(1) by simp
    consider "d \<noteq> c" | "d = c" "p = 0" | p' where "d = c" "p = Suc p'" by (cases p) auto
    then show ?thesis
    proof cases
      case 1
      then have same: "buckets q c = buckets q1 c" using b by simp
      have "(buckets q1 c ! p, c) \<in> set outs1"
        using 1 near n' p same wf1 dispatched(3) by (intro Cons.IH) auto
      with dispatched(4) same show ?thesis by simp
    next
      case 2
      then show ?thesis using b dispatched(4) by simp
    next
      case 3
      then have same: "buckets q c = y # buckets q1 c" using b by simp
      have "dist c (cursor q1) \<le> gap c" using dist_le_gap wf1 by (simp add: queue_wf_def)
      then have "dist c (cursor q1) + (gap c + 1) * p' < nexts ops" using n' 3 by simp
      then have "(buckets q1 c ! p', c) \<in> set outs1"
        using 3 p same wf1 dispatched(3) by (intro Cons.IH) auto
      with dispatched(4) same 3 show ?thesis by simp
    qed
  qed
qed simp

text \<open>
  C24. No class starves, whatever is admitted meanwhile: the request at position \<open>p\<close> of a class is
  dispatched within \<open>(gap + 1) * (p + 1)\<close> calls of \<open>Next\<close>, where the gap is the longest stretch
  of the cycle without the class: 3 slots for High, 8 for Medium, 9 for Low.
\<close>

theorem queue_no_starvation:
  assumes "cursor q < 10" and "\<forall>c. int (length (buckets q c)) \<le> max 0 (capacity q)"
    and "p < length (buckets q c)" and "(gap c + 1) * (p + 1) \<le> nexts ops"
    and "run_queue ops q = (ins, outs, q')"
  shows "(buckets q c ! p, c) \<in> set outs"
proof -
  have "queue_wf q" using assms(1,2) by (simp add: queue_wf_def)
  moreover have "dist c (cursor q) + (gap c + 1) * p < nexts ops"
    using dist_le_gap [OF assms(1), of c] assms(4) by simp
  ultimately show ?thesis using assms(3,5) dispatched_by by blast
qed

section \<open>The shares of the classes\<close>

definition slots :: "nat \<Rightarrow> nat \<Rightarrow> PriorityClass list" where
  "slots k n = map (\<lambda>i. weightSequence ! ((k + i) mod 10)) [0..<n]"

lemma slots_Suc: "slots k (Suc n) = weightSequence ! (k mod 10) # slots (Suc k) n"
  unfolding slots_def by (simp add: map_upt_Suc del: upt_Suc)

lemma slots_mod: "slots (k mod 10) n = slots k n"
  by (simp add: slots_def mod_add_left_eq)

lemma slots_add: "slots k (m + n) = slots k m @ slots (k + m) n"
proof (induction m arbitrary: k)
  case 0
  show ?case by (simp add: slots_def)
next
  case (Suc m)
  from Suc [of "Suc k"] show ?case by (simp add: slots_Suc)
qed

lemma count_cycle: "count_list (slots k 10) c = weight c"
proof -
  have tab: "\<forall>k \<in> {0, 1, 2, 3, 4, 5, 6, 7, 8, 9}. \<forall>c. count_list (slots k 10) c = weight c"
    unfolding all_PriorityClass by code_simp
  have "k mod 10 \<in> {0, 1, 2, 3, 4, 5, 6, 7, 8, 9}" unfolding less_10 [symmetric] by simp
  with tab show ?thesis by (metis slots_mod)
qed

lemma count_cycles: "count_list (slots k (10 * m)) c = m * weight c"
proof (induction m arbitrary: k)
  case 0
  show ?case by (simp add: slots_def)
next
  case (Suc m)
  have "slots k (10 * Suc m) = slots k 10 @ slots (k + 10) (10 * m)"
    using slots_add [of k 10 "10 * m"] by simp
  with Suc show ?case by (simp add: count_cycle)
qed

lemma scan_hit:
  "buckets q (weightSequence ! cursor q) = p # rest \<Longrightarrow>
     scan (Suc n) q = (Some (p, weightSequence ! cursor q),
       q\<lparr>cursor := Suc (cursor q) mod 10,
         buckets := (buckets q)(weightSequence ! cursor q := rest)\<rparr>)"
  by (simp add: Let_def)

lemma backlogged_run:
  "queue_wf q \<Longrightarrow> \<forall>c. count_list (slots (cursor q) n) c \<le> length (buckets q c) \<Longrightarrow>
     run_queue (replicate n OpNext) q = (ins, outs, q') \<Longrightarrow> map snd outs = slots (cursor q) n"
proof (induction n arbitrary: q ins outs q')
  case 0
  then show ?case by (simp add: slots_def)
next
  case (Suc n)
  let ?c = "weightSequence ! cursor q"
  have cur: "cursor q < 10" using Suc.prems(1) by (simp add: queue_wf_def)
  then have sl: "slots (cursor q) (Suc n) = ?c # slots (Suc (cursor q) mod 10) n"
    by (simp add: slots_Suc slots_mod)
  have "0 < length (buckets q ?c)"
    using Suc.prems(2) [rule_format, of ?c] unfolding sl by (cases "buckets q ?c") simp_all
  then obtain p rest where b: "buckets q ?c = p # rest" by (cases "buckets q ?c") auto
  define q1 where "q1 = q\<lparr>cursor := Suc (cursor q) mod 10, buckets := (buckets q)(?c := rest)\<rparr>"
  have nx: "Next q = (Some (p, ?c), q1)"
    using scan_hit [OF b, of 9] by (simp add: Next_def q1_def)
  obtain ins1 outs1 q2 where r: "run_queue (replicate n OpNext) q1 = (ins1, outs1, q2)"
    by (metis prod_cases3)
  have "\<forall>c. count_list (slots (cursor q1) n) c \<le> length (buckets q1 c)"
  proof
    fix c
    show "count_list (slots (cursor q1) n) c \<le> length (buckets q1 c)"
      using Suc.prems(2) [rule_format, of c] b unfolding sl
      by (auto simp: q1_def split: if_splits)
  qed
  then have "map snd outs1 = slots (cursor q1) n"
    using Suc.IH [OF queue_wf_Next [OF Suc.prems(1) nx] _ r] by blast
  with Suc.prems(3) nx r sl show ?case by (auto simp: q1_def)
qed

lemma length_of_class: "length (of_class c pcs) = count_list (map snd pcs) c"
  by (induction pcs) auto

text \<open>
  C26. The split is exactly 70/20/10: while every class stays backlogged, \<open>10 * m\<close> dispatches
  from any position of the cursor are \<open>7 * m\<close> of High, \<open>2 * m\<close> of Medium and \<open>m\<close> of Low.
\<close>

theorem queue_shares:
  assumes "cursor q < 10" and "\<forall>c. int (length (buckets q c)) \<le> max 0 (capacity q)"
    and "\<forall>c. m * weight c \<le> length (buckets q c)"
    and "run_queue (replicate (10 * m) OpNext) q = (ins, outs, q')"
  shows "length (of_class High outs) = 7 * m \<and> length (of_class Medium outs) = 2 * m \<and>
    length (of_class Low outs) = m"
proof -
  have "queue_wf q" using assms(1,2) by (simp add: queue_wf_def)
  from backlogged_run [OF this _ assms(4)] assms(3)
  have "map snd outs = slots (cursor q) (10 * m)" by (simp add: count_cycles)
  then show ?thesis by (simp add: length_of_class count_cycles weights)
qed

section \<open>Concrete queues\<close>

text \<open>A queue with the cursor in the middle of the High slots and all classes backlogged.\<close>

definition demo_wfq :: "int Queue" where
  "demo_wfq = \<lparr>buckets = (\<lambda>c. case c of High \<Rightarrow> [1, 2, 3, 4, 5, 6, 7] | Medium \<Rightarrow> [11, 12]
     | Low \<Rightarrow> [21]), capacity = 8, cursor = 4\<rparr>"

lemma demo_wfq_hyps:
  "cursor demo_wfq < 10" "\<forall>c. int (length (buckets demo_wfq c)) \<le> max 0 (capacity demo_wfq)"
  by (simp_all add: demo_wfq_def all_PriorityClass)

theorem queue_bounded_witness:
  "\<forall>c. int (length (buckets (snd (snd (run_queue
     [OpAdmit High (1::int), OpAdmit High 2, OpAdmit High 3, OpNext, OpAdmit Low 4] (NewQueue 2)))) c)) \<le> 2"
proof -
  let ?ops = "[OpAdmit High (1::int), OpAdmit High 2, OpAdmit High 3, OpNext, OpAdmit Low 4]"
  obtain ins outs q where r: "run_queue ?ops (NewQueue 2) = (ins, outs, q)" by (metis prod_cases3)
  with queue_bounded [of 2 ?ops ins outs q] show ?thesis by simp
qed

theorem queue_fifo_witness:
  "buckets demo_wfq Medium @ [13] = [11, 12] @ [13]"
proof -
  let ?ops = "OpAdmit Medium 13 # replicate 10 OpNext"
  obtain ins outs q where r: "run_queue ?ops demo_wfq = (ins, outs, q)" by (metis prod_cases3)
  have "of_class Medium (fst (run_queue ?ops demo_wfq)) = [13]"
    "of_class Medium (fst (snd (run_queue ?ops demo_wfq))) = [11, 12]"
    "buckets (snd (snd (run_queue ?ops demo_wfq))) Medium = [13]" by code_simp+
  with queue_fifo [OF demo_wfq_hyps r, of Medium] r show ?thesis by simp
qed

theorem next_work_conserving_witness:
  "Len demo_wfq = Suc (Len (snd (Next demo_wfq)))"
proof -
  have "case fst (Next demo_wfq) of Some (p, c) \<Rightarrow> p = 1 \<and> c = High | None \<Rightarrow> False" by code_simp
  moreover have "cursor demo_wfq < length weightSequence" using demo_wfq_hyps(1) by simp
  ultimately show ?thesis
    using next_work_conserving [of demo_wfq] demo_wfq_hyps(2)
    by (auto split: prod.splits option.splits)
qed

theorem queue_no_starvation_witness:
  "(21, Low) \<in> set (fst (snd (run_queue (replicate 10 OpNext) demo_wfq)))"
proof -
  obtain ins outs q where r: "run_queue (replicate 10 OpNext) demo_wfq = (ins, outs, q)"
    by (metis prod_cases3)
  have "0 < length (buckets demo_wfq Low)" "buckets demo_wfq Low ! 0 = 21"
    by (simp_all add: demo_wfq_def)
  moreover have "count_list (replicate 10 (OpNext :: (int, PriorityClass) queue_op)) OpNext = 10"
    by code_simp
  ultimately show ?thesis
    using queue_no_starvation [OF demo_wfq_hyps, of 0 Low "replicate 10 OpNext" ins outs q] r by simp
qed

theorem queue_shares_witness:
  "length (of_class High (fst (snd (run_queue (replicate 10 OpNext) demo_wfq)))) = 7"
proof -
  obtain ins outs q where r: "run_queue (replicate 10 OpNext) demo_wfq = (ins, outs, q)"
    by (metis prod_cases3)
  have "\<forall>c. 1 * weight c \<le> length (buckets demo_wfq c)"
    by (simp add: demo_wfq_def all_PriorityClass weights)
  with queue_shares [OF demo_wfq_hyps, of 1 ins outs q] r show ?thesis by simp
qed

end
