(* ===== verification/Gateway.thy ===== *)
theory Gateway
  imports Bin_Packer Reconcile Admission_Queue
begin

text \<open>
  \<open>scheduler/admission/gateway.go\<close>: the \<open>/schedule\<close> handler and the drain loop. A handler
  that finds no room parks its request in the queue and waits; the drain loop runs in a
  goroutine of its own. The handlers and the loop are first given as functions, then as the
  steps of an interleaved run.
\<close>

section \<open>Requests and replies\<close>

text \<open>
  What the handler reads of an HTTP request: the method, and the body as the decoder of the
  standard library returns it (an error text or the request).
\<close>

record HttpRequest =
  rq_method :: string
  rq_body :: "string + ScheduleRequest"

datatype reply_body = Text string | ErrText schedule_error | DecisionJSON ScheduleDecision

record Response =
  rs_status :: int
  rs_retry_after :: "string option"
  rs_body :: reply_body

record placementResult =
  pr_decision :: "ScheduleDecision option"
  pr_err :: "schedule_error option"

record pendingRequest =
  p_req :: ScheduleRequest
  resultCh :: "placementResult chan"
  cancelled :: bool

definition classFor :: "int \<Rightarrow> PriorityClass" where
  "classFor p =
     (if p = P0Production then High else if p = P1Development then Medium else Low)"

section \<open>The state\<close>

text \<open>
  A handler is a goroutine: it waits on its result channel, has its reply, or has died of a nil
  dereference. \<open>Replied\<close> begins when the reply is settled, which for a placement is when it is
  committed; all that is left to do then is to write the reply to the client, which touches no
  shared state. Handlers are numbered, and the pending request a handler allocates has its
  number as address. \<open>drain_pc\<close> is where the drain loop stands: between two ticks, at the
  head of the loop with the attempts left, or inside the body with the request it took.
\<close>

datatype handler_state = Waiting | Replied Response | Panicked

record handler =
  h_request :: HttpRequest
  h_state :: handler_state

datatype drain_pc =
  Parked
| Loop nat
| Took nat nat PriorityClass
| Trying nat nat PriorityClass
| Retrying nat nat PriorityClass
| Sending nat nat ScheduleDecision

record gateway =
  g_reconciler :: Reconciler
  g_queue :: "nat Queue"
  g_pending :: "nat \<Rightarrow> pendingRequest"
  g_handlers :: "nat \<rightharpoonup> handler"
  g_drain :: drain_pc

section \<open>The handler\<close>

definition commit :: "ScheduleDecision \<Rightarrow> ScheduleRequest \<Rightarrow> Reconciler \<Rightarrow> Reconciler" where
  "commit decision req rec =
     AddDesired (d_NodeID decision) (d_GPUID decision) (d_SliceID decision) (ModelName req) rec"

definition http_error :: "string \<Rightarrow> int \<Rightarrow> Response" where
  "http_error msg status = \<lparr>rs_status = status, rs_retry_after = None, rs_body = Text msg\<rparr>"

definition writeDecision :: "int \<Rightarrow> ScheduleDecision \<Rightarrow> Response" where
  "writeDecision status d = \<lparr>rs_status = status, rs_retry_after = None, rs_body = DecisionJSON d\<rparr>"

definition respond :: "nat \<Rightarrow> HttpRequest \<Rightarrow> Response \<Rightarrow> gateway \<Rightarrow> gateway" where
  "respond i rq rsp g =
     g\<lparr>g_handlers := (g_handlers g)(i \<mapsto> \<lparr>h_request = rq, h_state = Replied rsp\<rparr>)\<rparr>"

text \<open>The handler up to its \<open>select\<close>.\<close>

definition HandleSchedule_start ::
  "sorter \<Rightarrow> string list \<Rightarrow> NodeRegistry \<Rightarrow> nat \<Rightarrow> HttpRequest \<Rightarrow> gateway \<Rightarrow> gateway" where
  "HandleSchedule_start srt order reg i rq g =
     (if rq_method rq \<noteq> ''POST'' then respond i rq (http_error ''method not allowed'' 405) g
      else case rq_body rq of
        Inl e \<Rightarrow> respond i rq (http_error (''bad request: '' @ e) 400) g
      | Inr req \<Rightarrow>
          (case Schedule srt order reg req of
             Inr decision \<Rightarrow>
               respond i rq (writeDecision 200 decision)
                 (g\<lparr>g_reconciler := commit decision req (g_reconciler g)\<rparr>)
           | Inl _ \<Rightarrow>
               let pr = \<lparr>p_req = req, resultCh = make_chan 1, cancelled = False\<rparr>;
                   g1 = g\<lparr>g_pending := (g_pending g)(i := pr)\<rparr>
               in case Admit (classFor (Priority req)) i (g_queue g1) of
                    Inl ErrQueueFull \<Rightarrow>
                      respond i rq ((http_error ''admission queue full for this priority class'' 429)
                        \<lparr>rs_retry_after := Some ''1''\<rparr>) g1
                  | Inr q \<Rightarrow>
                      g1\<lparr>g_queue := q,
                         g_handlers := (g_handlers g1)(i \<mapsto> \<lparr>h_request = rq, h_state = Waiting\<rparr>)\<rparr>))"

text \<open>
  The two branches of the \<open>select\<close>: a value is there to be received (None if there is none),
  or the wait is over.
\<close>

definition HandleSchedule_result :: "nat \<Rightarrow> HttpRequest \<Rightarrow> gateway \<Rightarrow> gateway option" where
  "HandleSchedule_result i rq g =
     (let pr = g_pending g i in
      case recv (resultCh pr) of
        None \<Rightarrow> None
      | Some (res, ch) \<Rightarrow>
          let g1 = g\<lparr>g_pending := (g_pending g)(i := pr\<lparr>resultCh := ch\<rparr>)\<rparr> in
          Some (case pr_err res of
            Some e \<Rightarrow> respond i rq \<lparr>rs_status = 429, rs_retry_after = None, rs_body = ErrText e\<rparr> g1
          | None \<Rightarrow>
              (case pr_decision res of
                 None \<Rightarrow>
                   g1\<lparr>g_handlers := (g_handlers g1)(i \<mapsto> \<lparr>h_request = rq, h_state = Panicked\<rparr>)\<rparr>
               | Some d \<Rightarrow>
                   respond i rq (writeDecision 200 d)
                     (g1\<lparr>g_reconciler := commit d (p_req pr) (g_reconciler g1)\<rparr>))))"

definition HandleSchedule_timeout :: "nat \<Rightarrow> HttpRequest \<Rightarrow> gateway \<Rightarrow> gateway" where
  "HandleSchedule_timeout i rq g =
     respond i rq ((http_error ''timed out waiting for GPU capacity'' 429)
         \<lparr>rs_retry_after := Some ''1''\<rparr>)
       (g\<lparr>g_pending := (g_pending g)(i := (g_pending g i)\<lparr>cancelled := True\<rparr>)\<rparr>)"

section \<open>The drain loop\<close>

text \<open>
  Its two effects. Putting a request back ignores the error of a full class. Sending the
  result on the request's channel blocks if the channel is full, which is None.
\<close>

definition give_back :: "PriorityClass \<Rightarrow> nat \<Rightarrow> gateway \<Rightarrow> gateway" where
  "give_back cls p g =
     (case Admit cls p (g_queue g) of Inl _ \<Rightarrow> g | Inr q \<Rightarrow> g\<lparr>g_queue := q\<rparr>)"

definition send_result :: "nat \<Rightarrow> ScheduleDecision \<Rightarrow> gateway \<Rightarrow> gateway option" where
  "send_result p decision g =
     (let pr = g_pending g p in
      case try_send \<lparr>pr_decision = Some decision, pr_err = None\<rparr> (resultCh pr) of
        None \<Rightarrow> None
      | Some ch \<Rightarrow> Some (g\<lparr>g_pending := (g_pending g)(p := pr\<lparr>resultCh := ch\<rparr>)\<rparr>))"

text \<open>
  \<open>drainOnce\<close> on its own, with no handler running meanwhile. Each call of \<open>Schedule\<close> visits
  the registry in an order of its own.
\<close>

primrec drain_loop ::
  "sorter \<Rightarrow> (nat \<Rightarrow> string list) \<Rightarrow> NodeRegistry \<Rightarrow> nat \<Rightarrow> gateway \<Rightarrow> gateway option" where
  "drain_loop srt orders reg 0 g = Some g"
| "drain_loop srt orders reg (Suc n) g =
     (case Next (g_queue g) of
        (None, q) \<Rightarrow> Some (g\<lparr>g_queue := q\<rparr>)
      | (Some (p, cls), q) \<Rightarrow>
          let g1 = g\<lparr>g_queue := q\<rparr>; pr = g_pending g1 p in
          if cancelled pr then drain_loop srt orders reg n g1
          else case Schedule srt (orders n) reg (p_req pr) of
            Inl _ \<Rightarrow> drain_loop srt orders reg n (give_back cls p g1)
          | Inr decision \<Rightarrow>
              (case send_result p decision g1 of
                 None \<Rightarrow> None
               | Some g2 \<Rightarrow> drain_loop srt orders reg n g2))"

definition drainOnce ::
  "sorter \<Rightarrow> (nat \<Rightarrow> string list) \<Rightarrow> NodeRegistry \<Rightarrow> gateway \<Rightarrow> gateway option" where
  "drainOnce srt orders reg g =
     (let attempts = Len (g_queue g) in drain_loop srt orders reg attempts g)"

section \<open>Interleaved runs\<close>

text \<open>
  The initial gateway of a reconciler, and the steps. The registry changes under the feet of
  the gateway (heartbeats, the reconciler), so every call of \<open>Schedule\<close> reads some registry of
  a set \<open>R\<close>: all of them, or in the whole system those there have been so far.
\<close>

definition NewGateway :: "Reconciler \<Rightarrow> nat Queue \<Rightarrow> (nat \<Rightarrow> pendingRequest) \<Rightarrow> gateway" where
  "NewGateway rec queue mem =
     \<lparr>g_reconciler = rec, g_queue = queue, g_pending = mem, g_handlers = Map.empty,
      g_drain = Parked\<rparr>"

definition outcome_of :: "NodeRegistry set \<Rightarrow> ScheduleRequest \<Rightarrow> schedule_error + ScheduleDecision \<Rightarrow> bool" where
  "outcome_of R req res \<longleftrightarrow> (\<exists>reg \<in> R. \<exists>srt order. slice_sorter srt \<and> enumerates order (nodes reg) \<and>
     Schedule srt order reg req = res)"

abbreviation waits :: "gateway \<Rightarrow> nat \<Rightarrow> HttpRequest \<Rightarrow> bool" where
  "waits g i rq \<equiv> g_handlers g i = Some \<lparr>h_request = rq, h_state = Waiting\<rparr>"

inductive gw_step :: "NodeRegistry set \<Rightarrow> gateway \<Rightarrow> gateway \<Rightarrow> bool"
  for R where
  request: "g_handlers g i = None \<Longrightarrow> slice_sorter srt \<Longrightarrow> reg \<in> R \<Longrightarrow> enumerates order (nodes reg) \<Longrightarrow>
    gw_step R g (HandleSchedule_start srt order reg i rq g)"
| result: "waits g i rq \<Longrightarrow> HandleSchedule_result i rq g = Some g' \<Longrightarrow> gw_step R g g'"
| timeout: "waits g i rq \<Longrightarrow> gw_step R g (HandleSchedule_timeout i rq g)"
| tick: "g_drain g = Parked \<Longrightarrow> gw_step R g (g\<lparr>g_drain := Loop (Len (g_queue g))\<rparr>)"
| finish: "g_drain g = Loop 0 \<Longrightarrow> gw_step R g (g\<lparr>g_drain := Parked\<rparr>)"
| none_left: "g_drain g = Loop (Suc n) \<Longrightarrow> Next (g_queue g) = (None, q) \<Longrightarrow>
    gw_step R g (g\<lparr>g_queue := q, g_drain := Parked\<rparr>)"
| take_next: "g_drain g = Loop (Suc n) \<Longrightarrow> Next (g_queue g) = (Some (p, cls), q) \<Longrightarrow>
    gw_step R g (g\<lparr>g_queue := q, g_drain := Took n p cls\<rparr>)"
| skip: "g_drain g = Took n p cls \<Longrightarrow> cancelled (g_pending g p) \<Longrightarrow>
    gw_step R g (g\<lparr>g_drain := Loop n\<rparr>)"
| attempt: "g_drain g = Took n p cls \<Longrightarrow> \<not> cancelled (g_pending g p) \<Longrightarrow>
    gw_step R g (g\<lparr>g_drain := Trying n p cls\<rparr>)"
| miss: "g_drain g = Trying n p cls \<Longrightarrow> outcome_of R (p_req (g_pending g p)) (Inl e) \<Longrightarrow>
    gw_step R g (g\<lparr>g_drain := Retrying n p cls\<rparr>)"
| hit: "g_drain g = Trying n p cls \<Longrightarrow> outcome_of R (p_req (g_pending g p)) (Inr d) \<Longrightarrow>
    gw_step R g (g\<lparr>g_drain := Sending n p d\<rparr>)"
| retry: "g_drain g = Retrying n p cls \<Longrightarrow>
    gw_step R g ((give_back cls p g)\<lparr>g_drain := Loop n\<rparr>)"
| send: "g_drain g = Sending n p d \<Longrightarrow> send_result p d g = Some g' \<Longrightarrow>
    gw_step R g (g'\<lparr>g_drain := Loop n\<rparr>)"

lemma outcome_of_mono: "outcome_of R req res \<Longrightarrow> R \<subseteq> R' \<Longrightarrow> outcome_of R' req res"
  unfolding outcome_of_def by blast

text \<open>More registries to read allow more steps.\<close>

lemma gw_step_mono: "gw_step R g g' \<Longrightarrow> R \<subseteq> R' \<Longrightarrow> gw_step R' g g'"
  by (induction rule: gw_step.induct) (auto intro: gw_step.intros outcome_of_mono)

lemma gw_steps_mono: "(gw_step R)\<^sup>*\<^sup>* g g' \<Longrightarrow> R \<subseteq> R' \<Longrightarrow> (gw_step R')\<^sup>*\<^sup>* g g'"
  by (rule rtranclp_mono [THEN predicate2D, rotated]) (auto intro: gw_step_mono)

section \<open>The invariant of interleaved runs\<close>

fun holding :: "drain_pc \<Rightarrow> nat option" where
  "holding (Took n p c) = Some p"
| "holding (Trying n p c) = Some p"
| "holding (Retrying n p c) = Some p"
| "holding (Sending n p d) = Some p"
| "holding _ = None"

fun pc_ok :: "NodeRegistry set \<Rightarrow> (nat \<Rightarrow> pendingRequest) \<Rightarrow> drain_pc \<Rightarrow> bool" where
  "pc_ok R pend (Took n p c) \<longleftrightarrow> c = classFor (Priority (p_req (pend p)))"
| "pc_ok R pend (Trying n p c) \<longleftrightarrow> c = classFor (Priority (p_req (pend p)))"
| "pc_ok R pend (Retrying n p c) \<longleftrightarrow> c = classFor (Priority (p_req (pend p)))"
| "pc_ok R pend (Sending n p d) \<longleftrightarrow> outcome_of R (p_req (pend p)) (Inr d)"
| "pc_ok R pend _ \<longleftrightarrow> True"

text \<open>A request is in flight while the queue or the drain loop has it.\<close>

definition queued :: "gateway \<Rightarrow> nat \<Rightarrow> bool" where
  "queued g p \<longleftrightarrow> (\<exists>c. p \<in> set (buckets (g_queue g) c))"

definition inflight :: "gateway \<Rightarrow> nat \<Rightarrow> bool" where
  "inflight g p \<longleftrightarrow> queued g p \<or> holding (g_drain g) = Some p"

definition fresh_channel :: "placementResult chan" where
  "fresh_channel = make_chan 1"

text \<open>The queue holds each request at most once, in the class of its priority, and no result
  was sent to a request in flight.\<close>

definition buckets_ok :: "(nat \<Rightarrow> pendingRequest) \<Rightarrow> nat Queue \<Rightarrow> bool" where
  "buckets_ok pend q \<longleftrightarrow> queue_wf q \<and>
     (\<forall>c. distinct (buckets q c) \<and> (\<forall>p \<in> set (buckets q c). c = classFor (Priority (p_req (pend p)))))"

definition flight_ok :: "gateway \<Rightarrow> bool" where
  "flight_ok g \<longleftrightarrow>
     (\<forall>p. holding (g_drain g) = Some p \<longrightarrow> \<not> queued g p) \<and>
     (\<forall>p. inflight g p \<longrightarrow> g_handlers g p \<noteq> None \<and> resultCh (g_pending g p) = fresh_channel)"

text \<open>What a handler may be waiting for, and what it may have replied.\<close>

definition reply_ok :: "NodeRegistry set \<Rightarrow> HttpRequest \<Rightarrow> Response \<Rightarrow> bool" where
  "reply_ok R rq r \<longleftrightarrow>
     (rs_status r = 405 \<and> rq_method rq \<noteq> ''POST'' \<and> rs_body r = Text ''method not allowed'') \<or>
     (rs_status r = 400 \<and> rq_method rq = ''POST'' \<and>
       (\<exists>e. rq_body rq = Inl e \<and> rs_body r = Text (''bad request: '' @ e))) \<or>
     (rs_status r = 200 \<and> rq_method rq = ''POST'' \<and>
       (\<exists>req d. rq_body rq = Inr req \<and> outcome_of R req (Inr d) \<and> rs_body r = DecisionJSON d)) \<or>
     (rs_status r = 429 \<and> rq_method rq = ''POST'' \<and> rs_retry_after r = Some ''1'' \<and>
       (\<exists>req e. rq_body rq = Inr req \<and> outcome_of R req (Inl e)) \<and>
       (\<exists>t. rs_body r = Text t))"

definition channel_ok :: "NodeRegistry set \<Rightarrow> ScheduleRequest \<Rightarrow> placementResult chan \<Rightarrow> bool" where
  "channel_ok R req ch \<longleftrightarrow> ch = fresh_channel \<or>
     (\<exists>d. outcome_of R req (Inr d) \<and>
       ch = \<lparr>ch_buf = [\<lparr>pr_decision = Some d, pr_err = None\<rparr>], ch_cap = 1\<rparr>)"

definition handler_ok :: "NodeRegistry set \<Rightarrow> pendingRequest \<Rightarrow> handler \<Rightarrow> bool" where
  "handler_ok R pr h \<longleftrightarrow> (case h_state h of
       Waiting \<Rightarrow> rq_method (h_request h) = ''POST'' \<and> rq_body (h_request h) = Inr (p_req pr) \<and>
         (\<exists>e. outcome_of R (p_req pr) (Inl e)) \<and> channel_ok R (p_req pr) (resultCh pr)
     | Replied r \<Rightarrow> reply_ok R (h_request h) r
     | Panicked \<Rightarrow> False)"

definition gw_inv :: "NodeRegistry set \<Rightarrow> gateway \<Rightarrow> bool" where
  "gw_inv R g \<longleftrightarrow> buckets_ok (g_pending g) (g_queue g) \<and> flight_ok g \<and> pc_ok R (g_pending g) (g_drain g) \<and>
     (\<forall>i h. g_handlers g i = Some h \<longrightarrow> handler_ok R (g_pending g i) h)"

subsection \<open>The operations on the queue\<close>

lemma buckets_ok_Admit:
  assumes "buckets_ok pend q" and "Admit c p q = Inr q'"
    and "c = classFor (Priority (p_req (pend p)))" and "\<forall>d. p \<notin> set (buckets q d)"
  shows "buckets_ok pend q'"
  using assms queue_wf_Admit [of q c p q'] by (auto simp: buckets_ok_def Admit_Inr)

lemma buckets_ok_Next_None:
  "buckets_ok pend q \<Longrightarrow> Next q = (None, q') \<Longrightarrow> buckets_ok pend q' \<and> buckets q' = buckets q"
  using Next_None [of q q'] queue_wf_Next [of q None] by (simp add: buckets_ok_def)

lemma buckets_ok_Next_Some:
  assumes ok: "buckets_ok pend q" and nx: "Next q = (Some (p, c), q')"
  shows "buckets_ok pend q' \<and> p \<in> set (buckets q c) \<and> (\<forall>d. p \<notin> set (buckets q' d)) \<and>
    (\<forall>d. set (buckets q' d) \<subseteq> set (buckets q d)) \<and> c = classFor (Priority (p_req (pend p)))"
proof -
  have b: "buckets q c = p # buckets q' c" "d \<noteq> c \<longrightarrow> buckets q' d = buckets q d" for d
    using Next_bucket [OF nx] by auto
  have cls: "x \<in> set (buckets q d) \<Longrightarrow> d = classFor (Priority (p_req (pend x)))" for d x
    using ok by (simp add: buckets_ok_def)
  have dis: "distinct (buckets q d)" for d using ok by (simp add: buckets_ok_def)
  have sub: "set (buckets q' d) \<subseteq> set (buckets q d)" for d using b(1) b(2) [of d] by (cases "d = c") auto
  have c: "c = classFor (Priority (p_req (pend p)))" using cls [of p c] b(1) by simp
  have "p \<notin> set (buckets q' d)" for d
  proof (cases "d = c")
    case True
    with dis [of c] b(1) show ?thesis by simp
  next
    case False
    with cls [of p d] c b(2) [of d] show ?thesis by auto
  qed
  moreover have "distinct (buckets q' d)" for d
    using dis [of d] b(1) b(2) [of d] by (cases "d = c") auto
  moreover have "queue_wf q'" using ok nx queue_wf_Next by (auto simp: buckets_ok_def)
  moreover have "x \<in> set (buckets q' d) \<Longrightarrow> d = classFor (Priority (p_req (pend x)))" for d x
    using cls sub by blast
  ultimately show ?thesis using sub c b(1) unfolding buckets_ok_def by simp
qed

lemma buckets_ok_cong:
  assumes "buckets_ok pend q" and "\<And>p. p_req (pend' p) = p_req (pend p)"
  shows "buckets_ok pend' q"
  using assms by (simp add: buckets_ok_def)

lemma pc_ok_cong:
  assumes "pc_ok R pend pc" and "\<And>p. p_req (pend' p) = p_req (pend p)"
  shows "pc_ok R pend' pc"
  using assms by (cases pc) simp_all

lemma buckets_ok_fresh:
  assumes "buckets_ok pend q" and "\<forall>c. i \<notin> set (buckets q c)"
  shows "buckets_ok (pend(i := pr)) q"
  using assms by (auto simp: buckets_ok_def)

lemma pc_ok_fresh: "pc_ok R pend pc \<Longrightarrow> holding pc \<noteq> Some i \<Longrightarrow> pc_ok R (pend(i := pr)) pc"
  by (cases pc) auto

subsection \<open>Every step keeps it\<close>

lemma gw_invI:
  assumes "buckets_ok (g_pending g) (g_queue g)" and "pc_ok R (g_pending g) (g_drain g)"
    and "\<And>p. holding (g_drain g) = Some p \<Longrightarrow> \<not> queued g p"
    and "\<And>p. inflight g p \<Longrightarrow> g_handlers g p \<noteq> None"
    and "\<And>p. inflight g p \<Longrightarrow> resultCh (g_pending g p) = fresh_channel"
    and "\<And>i h. g_handlers g i = Some h \<Longrightarrow> handler_ok R (g_pending g i) h"
  shows "gw_inv R g"
  using assms unfolding gw_inv_def flight_ok_def by blast

lemma gw_invD:
  assumes "gw_inv R g"
  shows "buckets_ok (g_pending g) (g_queue g)" and "pc_ok R (g_pending g) (g_drain g)"
    and "holding (g_drain g) = Some p \<Longrightarrow> \<not> queued g p"
    and "inflight g p \<Longrightarrow> g_handlers g p \<noteq> None"
    and "inflight g p \<Longrightarrow> resultCh (g_pending g p) = fresh_channel"
    and "g_handlers g i = Some h \<Longrightarrow> handler_ok R (g_pending g i) h"
  using assms unfolding gw_inv_def flight_ok_def by blast+

lemma inflight_frame [simp]:
  "inflight (g\<lparr>g_pending := pend\<rparr>) p = inflight g p"
  "inflight (g\<lparr>g_handlers := hs\<rparr>) p = inflight g p"
  "inflight (g\<lparr>g_reconciler := rc\<rparr>) p = inflight g p"
  "queued (g\<lparr>g_pending := pend\<rparr>) p = queued g p"
  "queued (g\<lparr>g_handlers := hs\<rparr>) p = queued g p"
  "queued (g\<lparr>g_reconciler := rc\<rparr>) p = queued g p"
  "queued (g\<lparr>g_drain := pc\<rparr>) p = queued g p"
  by (simp_all add: inflight_def queued_def)

lemma gw_inv_reconciler [simp]: "gw_inv R (g\<lparr>g_reconciler := x\<rparr>) \<longleftrightarrow> gw_inv R g"
  by (simp add: gw_inv_def flight_ok_def)

lemma gw_inv_respond:
  assumes "gw_inv R g" and "reply_ok R rq r"
  shows "gw_inv R (respond i rq r g)"
  by (rule gw_invI)
    (use assms gw_invD [OF assms(1)] in \<open>auto simp: respond_def handler_ok_def split: if_splits\<close>)

lemma gw_inv_respond_pending:
  assumes inv: "gw_inv R g" and r: "reply_ok R rq r" and req: "p_req pr = p_req (g_pending g i)"
    and ch: "inflight g i \<Longrightarrow> resultCh pr = fresh_channel"
  shows "gw_inv R (respond i rq r (g\<lparr>g_pending := (g_pending g)(i := pr)\<rparr>))"
proof -
  let ?pend = "(g_pending g)(i := pr)"
  have same: "p_req (?pend p) = p_req (g_pending g p)" for p using req by simp
  have "buckets_ok ?pend (g_queue g)" and "pc_ok R ?pend (g_drain g)"
    using buckets_ok_cong [OF gw_invD(1) [OF inv], of ?pend]
      pc_ok_cong [OF gw_invD(2) [OF inv], of ?pend] same by blast+
  then show ?thesis
    by (intro gw_invI) (use r ch gw_invD(3-6) [OF inv] in
      \<open>auto simp: respond_def handler_ok_def split: if_splits\<close>)
qed

lemma gw_inv_new_pending:
  assumes inv: "gw_inv R g" and new: "g_handlers g i = None"
  shows "gw_inv R (g\<lparr>g_pending := (g_pending g)(i := pr)\<rparr>)"
proof -
  have no: "\<not> inflight g i" using gw_invD(4) [OF inv] new by blast
  then have "buckets_ok ((g_pending g)(i := pr)) (g_queue g)"
    and "pc_ok R ((g_pending g)(i := pr)) (g_drain g)"
    by (intro buckets_ok_fresh pc_ok_fresh gw_invD [OF inv]; simp add: inflight_def queued_def)+
  then show ?thesis
    by (intro gw_invI) (use no new gw_invD(3-6) [OF inv] in \<open>auto split: if_splits\<close>)
qed

lemma gw_inv_start:
  assumes inv: "gw_inv R g" and new: "g_handlers g i = None"
    and srt: "slice_sorter srt" "reg \<in> R" "enumerates order (nodes reg)"
  shows "gw_inv R (HandleSchedule_start srt order reg i rq g)"
proof -
  consider (wrong_verb) "rq_method rq \<noteq> ''POST''"
    | (body) e where "rq_method rq = ''POST''" "rq_body rq = Inl e"
    | (placed) req d where "rq_method rq = ''POST''" "rq_body rq = Inr req"
        "Schedule srt order reg req = Inr d"
    | (full) req e where "rq_method rq = ''POST''" "rq_body rq = Inr req"
        "Schedule srt order reg req = Inl e" "Admit (classFor (Priority req)) i (g_queue g) = Inl ErrQueueFull"
    | (parked) req e q where "rq_method rq = ''POST''" "rq_body rq = Inr req"
        "Schedule srt order reg req = Inl e" "Admit (classFor (Priority req)) i (g_queue g) = Inr q"
    by (metis queue_error.exhaust sumE)
  then show ?thesis
  proof cases
    case wrong_verb
    then show ?thesis using inv
      by (simp add: HandleSchedule_start_def gw_inv_respond reply_ok_def http_error_def)
  next
    case body
    then show ?thesis using inv
      by (simp add: HandleSchedule_start_def gw_inv_respond reply_ok_def http_error_def)
  next
    case (placed req d)
    then have "outcome_of R req (Inr d)" using srt unfolding outcome_of_def by blast
    with placed inv show ?thesis
      by (simp add: HandleSchedule_start_def gw_inv_respond reply_ok_def writeDecision_def)
  next
    case (full req e)
    then have "outcome_of R req (Inl e)" using srt unfolding outcome_of_def by blast
    with full have "reply_ok R rq ((http_error ''admission queue full for this priority class'' 429)
        \<lparr>rs_retry_after := Some ''1''\<rparr>)" by (auto simp: reply_ok_def http_error_def)
    with full gw_inv_new_pending [OF inv new] show ?thesis
      by (simp add: HandleSchedule_start_def Let_def gw_inv_respond)
  next
    case (parked req e q)
    then have miss: "outcome_of R req (Inl e)" using srt unfolding outcome_of_def by blast
    let ?pr = "\<lparr>p_req = req, resultCh = make_chan 1, cancelled = False\<rparr>"
    let ?pend = "(g_pending g)(i := ?pr)"
    have no: "\<not> inflight g i" using inv new by (auto simp: gw_inv_def flight_ok_def)
    have inv1: "gw_inv R (g\<lparr>g_pending := ?pend\<rparr>)" by (rule gw_inv_new_pending [OF inv new])
    have "buckets_ok ?pend q"
      using inv1 parked(4) no by (intro buckets_ok_Admit [of ?pend "g_queue g" _ i q])
        (simp_all add: gw_inv_def inflight_def queued_def)
    moreover have sub: "set (buckets q c) \<subseteq> insert i (set (buckets (g_queue g) c))" for c
      using parked(4) by (auto simp: Admit_Inr)
    then have fl: "inflight (g\<lparr>g_queue := q\<rparr>) p \<Longrightarrow> p = i \<or> inflight g p" for p
      by (auto simp: inflight_def queued_def)
    ultimately have "gw_inv R (g\<lparr>g_pending := ?pend, g_queue := q,
        g_handlers := (g_handlers g)(i \<mapsto> \<lparr>h_request = rq, h_state = Waiting\<rparr>)\<rparr>)" (is "gw_inv R ?g")
    proof (intro gw_invI)
      show "pc_ok R (g_pending ?g) (g_drain ?g)" using gw_invD(2) [OF inv1] by simp
      fix p
      have fl': "p = i \<or> inflight g p" if "inflight ?g p"
        using fl [of p] that by (simp add: inflight_def queued_def)
      show "g_handlers ?g p \<noteq> None" if "inflight ?g p"
        using fl' [OF that] gw_invD(4) [OF inv, of p] by auto
      show "resultCh (g_pending ?g p) = fresh_channel" if "inflight ?g p"
        using fl' [OF that] gw_invD(5) [OF inv, of p] by (auto simp: fresh_channel_def)
      show "\<not> queued ?g p" if h: "holding (g_drain ?g) = Some p"
      proof -
        have "p \<noteq> i" using no h by (auto simp: inflight_def)
        moreover have "\<not> queued g p" using gw_invD(3) [OF inv, of p] h by simp
        ultimately show ?thesis using sub by (fastforce simp: queued_def)
      qed
      show "handler_ok R (g_pending ?g j) h" if "g_handlers ?g j = Some h" for j h
        using that gw_invD(6) [OF inv, of j h] parked miss
        by (auto simp: handler_ok_def channel_ok_def fresh_channel_def split: if_splits)
    qed simp
    with parked show ?thesis by (simp add: HandleSchedule_start_def Let_def)
  qed
qed

text \<open>What a waiting handler finds on its channel.\<close>

lemma received:
  assumes inv: "gw_inv R g" and w: "waits g i rq" and rc: "recv (resultCh (g_pending g i)) = Some (res, ch)"
  obtains d where "res = \<lparr>pr_decision = Some d, pr_err = None\<rparr>" "ch = fresh_channel"
    "outcome_of R (p_req (g_pending g i)) (Inr d)" "\<not> inflight g i"
    "rq_method rq = ''POST''" "rq_body rq = Inr (p_req (g_pending g i))"
proof -
  have h: "handler_ok R (g_pending g i) \<lparr>h_request = rq, h_state = Waiting\<rparr>"
    using gw_invD(6) [OF inv w] .
  have ne: "resultCh (g_pending g i) \<noteq> fresh_channel"
    using rc by (auto simp: recv_def fresh_channel_def make_chan_def)
  with gw_invD(5) [OF inv, of i] have "\<not> inflight g i" by blast
  with h ne rc that show ?thesis
    by (auto simp: handler_ok_def channel_ok_def recv_def fresh_channel_def make_chan_def)
qed

lemma HandleSchedule_result_eq:
  assumes inv: "gw_inv R g" and w: "waits g i rq" and st: "HandleSchedule_result i rq g = Some g'"
  obtains d where "outcome_of R (p_req (g_pending g i)) (Inr d)" "\<not> inflight g i"
    "rq_method rq = ''POST''" "rq_body rq = Inr (p_req (g_pending g i))"
    "g' = respond i rq (writeDecision 200 d)
       (g\<lparr>g_reconciler := commit d (p_req (g_pending g i)) (g_reconciler g),
          g_pending := (g_pending g)(i := (g_pending g i)\<lparr>resultCh := fresh_channel\<rparr>)\<rparr>)"
proof -
  from st obtain res ch where rc: "recv (resultCh (g_pending g i)) = Some (res, ch)"
    by (auto simp: HandleSchedule_result_def Let_def split: option.splits)
  obtain d where d: "res = \<lparr>pr_decision = Some d, pr_err = None\<rparr>" "ch = fresh_channel"
    "outcome_of R (p_req (g_pending g i)) (Inr d)" "\<not> inflight g i"
    "rq_method rq = ''POST''" "rq_body rq = Inr (p_req (g_pending g i))"
    by (rule received [OF inv w rc])
  show ?thesis
  proof (rule that [OF d(3-6)])
    show "g' = respond i rq (writeDecision 200 d)
       (g\<lparr>g_reconciler := commit d (p_req (g_pending g i)) (g_reconciler g),
          g_pending := (g_pending g)(i := (g_pending g i)\<lparr>resultCh := fresh_channel\<rparr>)\<rparr>)"
      using st rc d(1,2) by (cases g) (simp add: HandleSchedule_result_def Let_def)
  qed
qed

lemma gw_inv_result:
  assumes inv: "gw_inv R g" and w: "waits g i rq" and st: "HandleSchedule_result i rq g = Some g'"
  shows "gw_inv R g'"
  using inv w st
proof (rule HandleSchedule_result_eq)
  fix d
  assume d: "outcome_of R (p_req (g_pending g i)) (Inr d)" and no: "\<not> inflight g i"
    and rq: "rq_method rq = ''POST''" "rq_body rq = Inr (p_req (g_pending g i))"
    and eq: "g' = respond i rq (writeDecision 200 d)
       (g\<lparr>g_reconciler := commit d (p_req (g_pending g i)) (g_reconciler g),
          g_pending := (g_pending g)(i := (g_pending g i)\<lparr>resultCh := fresh_channel\<rparr>)\<rparr>)"
  have "reply_ok R rq (writeDecision 200 d)"
    using d rq by (auto simp: reply_ok_def writeDecision_def)
  with inv no have "gw_inv R (respond i rq (writeDecision 200 d)
      ((g\<lparr>g_reconciler := commit d (p_req (g_pending g i)) (g_reconciler g)\<rparr>)
        \<lparr>g_pending := (g_pending g)(i := (g_pending g i)\<lparr>resultCh := fresh_channel\<rparr>)\<rparr>))"
    using gw_inv_respond_pending
      [of R "g\<lparr>g_reconciler := commit d (p_req (g_pending g i)) (g_reconciler g)\<rparr>" rq _
        "(g_pending g i)\<lparr>resultCh := fresh_channel\<rparr>" i] by simp
  then show ?thesis by (simp add: eq)
qed

lemma gw_inv_timeout:
  assumes inv: "gw_inv R g" and w: "waits g i rq"
  shows "gw_inv R (HandleSchedule_timeout i rq g)"
proof -
  have "handler_ok R (g_pending g i) \<lparr>h_request = rq, h_state = Waiting\<rparr>"
    using gw_invD(6) [OF inv w] .
  then have "reply_ok R rq ((http_error ''timed out waiting for GPU capacity'' 429)
      \<lparr>rs_retry_after := Some ''1''\<rparr>)"
    by (auto simp: handler_ok_def reply_ok_def http_error_def)
  then show ?thesis
    unfolding HandleSchedule_timeout_def
    by (rule gw_inv_respond_pending [OF inv]) (use gw_invD(5) [OF inv, of i] in simp_all)
qed

lemma queued_Next:
  assumes inv: "gw_inv R g" and nx: "Next (g_queue g) = (Some (p, c), q)"
  shows "queued (g\<lparr>g_queue := q\<rparr>) x \<longleftrightarrow> queued g x \<and> x \<noteq> p" and "queued g p"
    and "Len (g_queue g) = Suc (Len q)"
proof -
  have b: "buckets (g_queue g) = (buckets q)(c := p # buckets q c)" using Next_bucket [OF nx] by blast
  have "\<forall>d. p \<notin> set (buckets q d)" using buckets_ok_Next_Some [OF gw_invD(1) [OF inv] nx] by blast
  with b show "queued (g\<lparr>g_queue := q\<rparr>) x \<longleftrightarrow> queued g x \<and> x \<noteq> p"
    by (auto simp: queued_def split: if_splits)
  show "queued g p" using b by (auto simp: queued_def)
  show "Len (g_queue g) = Suc (Len q)" using b by (cases c) (simp_all add: Len_def)
qed

text \<open>A step of the drain loop that does not touch the queue or a channel.\<close>

lemma gw_inv_drain:
  assumes inv: "gw_inv R g" and pc: "pc_ok R (g_pending g) pc"
    and hold: "holding pc = None \<or> holding pc = holding (g_drain g)"
  shows "gw_inv R (g\<lparr>g_drain := pc\<rparr>)"
proof -
  have "inflight (g\<lparr>g_drain := pc\<rparr>) p \<Longrightarrow> inflight g p" for p
    using hold by (auto simp: inflight_def queued_def)
  with hold pc show ?thesis
    by (intro gw_invI) (use gw_invD [OF inv] in auto)
qed

lemma gw_inv_take:
  assumes inv: "gw_inv R g" and idle: "g_drain g = Loop (Suc n)"
    and nx: "Next (g_queue g) = (Some (p, c), q)"
  shows "gw_inv R (g\<lparr>g_queue := q, g_drain := Took n p c\<rparr>)" (is "gw_inv R ?g")
proof -
  note nx = buckets_ok_Next_Some [OF gw_invD(1) [OF inv] nx]
  then have mem: "queued g p" "\<not> queued ?g p" "queued ?g x \<Longrightarrow> queued g x" for x
    unfolding queued_def by auto
  then have fl: "inflight ?g x \<Longrightarrow> inflight g x" for x by (auto simp: inflight_def)
  show ?thesis
    by (rule gw_invI) (use nx mem fl gw_invD(2-6) [OF inv] in auto)
qed

lemma gw_inv_give_back:
  assumes inv: "gw_inv R g" and pc: "g_drain g = Retrying n p c"
  shows "gw_inv R ((give_back c p g)\<lparr>g_drain := Loop n\<rparr>)"
proof (cases "Admit c p (g_queue g)")
  case (Inl e)
  then show ?thesis
    unfolding give_back_def using gw_inv_drain [OF inv, of "Loop n"] by simp
next
  case (Inr q)
  let ?g = "g\<lparr>g_queue := q, g_drain := Loop n\<rparr>"
  have hold: "holding (g_drain g) = Some p" and c: "c = classFor (Priority (p_req (g_pending g p)))"
    using pc gw_invD(2) [OF inv] by simp_all
  have no: "\<forall>d. p \<notin> set (buckets (g_queue g) d)"
    using gw_invD(3) [OF inv hold] by (simp add: queued_def)
  have "queued ?g x \<Longrightarrow> x = p \<or> queued g x" for x
    using Inr by (auto simp: queued_def Admit_Inr split: if_splits)
  then have fl: "inflight ?g x \<Longrightarrow> inflight g x" for x
    using hold by (auto simp: inflight_def)
  have "gw_inv R ?g"
    by (rule gw_invI) (use buckets_ok_Admit [OF gw_invD(1) [OF inv] Inr c no] fl
        gw_invD(4-6) [OF inv] in auto)
  with Inr show ?thesis by (simp add: give_back_def)
qed

text \<open>The channel of a request in flight is empty, so the send goes through.\<close>

lemma send_result_eq:
  assumes inv: "gw_inv R g" and fl: "inflight g p"
  shows "send_result p d g = Some (g\<lparr>g_pending := (g_pending g)(p := (g_pending g p)
    \<lparr>resultCh := \<lparr>ch_buf = [\<lparr>pr_decision = Some d, pr_err = None\<rparr>], ch_cap = 1\<rparr>\<rparr>)\<rparr>)"
  using gw_invD(5) [OF inv fl]
  by (simp add: send_result_def Let_def try_send_def fresh_channel_def make_chan_def)

lemma gw_inv_send:
  assumes inv: "gw_inv R g" and pc: "g_drain g = Sending n p d"
    and st: "send_result p d g = Some g'"
  shows "gw_inv R (g'\<lparr>g_drain := Loop n\<rparr>)"
proof -
  have fl: "inflight g p" and nq: "\<not> queued g p"
    using pc gw_invD(3) [OF inv, of p] by (auto simp: inflight_def)
  have d: "outcome_of R (p_req (g_pending g p)) (Inr d)" using pc gw_invD(2) [OF inv] by simp
  let ?pr = "(g_pending g p)\<lparr>resultCh := \<lparr>ch_buf = [\<lparr>pr_decision = Some d, pr_err = None\<rparr>], ch_cap = 1\<rparr>\<rparr>"
  let ?pend = "(g_pending g)(p := ?pr)"
  have same: "p_req (?pend x) = p_req (g_pending g x)" for x by simp
  have "gw_inv R (g\<lparr>g_pending := ?pend, g_drain := Loop n\<rparr>)" (is "gw_inv R ?g")
  proof (rule gw_invI)
    show "buckets_ok (g_pending ?g) (g_queue ?g)"
      using buckets_ok_cong [OF gw_invD(1) [OF inv], of ?pend] same by simp
    have fl': "inflight ?g x \<Longrightarrow> x \<noteq> p \<and> inflight g x" for x
      using nq by (auto simp: inflight_def queued_def)
    show "g_handlers ?g x \<noteq> None" if "inflight ?g x" for x
      using fl' [OF that] gw_invD(4) [OF inv, of x] by auto
    show "resultCh (g_pending ?g x) = fresh_channel" if "inflight ?g x" for x
      using fl' [OF that] gw_invD(5) [OF inv, of x] by auto
    show "handler_ok R (g_pending ?g i) h" if "g_handlers ?g i = Some h" for i h
      using that gw_invD(6) [OF inv, of i h] d
      by (auto simp: handler_ok_def channel_ok_def split: handler_state.splits)
  qed simp_all
  moreover have "g'\<lparr>g_drain := Loop n\<rparr> = ?g"
    using st send_result_eq [OF inv fl, of d] by simp
  ultimately show ?thesis by (simp only:)
qed

lemma gw_inv_step: "gw_inv R g \<Longrightarrow> gw_step R g g' \<Longrightarrow> gw_inv R g'"
proof (erule gw_step.cases, goal_cases)
  case 1 then show ?case by (simp add: gw_inv_start)
next
  case 2 then show ?case by (simp add: gw_inv_result)
next
  case 3 then show ?case by (simp add: gw_inv_timeout)
next
  case 4 then show ?case by (simp add: gw_inv_drain)
next
  case 5 then show ?case by (simp add: gw_inv_drain)
next
  case (6 g n q)
  then have "gw_inv R (g\<lparr>g_queue := q\<rparr>)"
    using buckets_ok_Next_None [of "g_pending g" "g_queue g" q]
    by (simp add: gw_inv_def flight_ok_def inflight_def queued_def)
  with 6 show ?case using gw_inv_drain [of R "g\<lparr>g_queue := q\<rparr>" Parked] by simp
next
  case 7 then show ?case by (simp add: gw_inv_take)
next
  case 8 then show ?case by (simp add: gw_inv_drain)
next
  case (9 g n p cls)
  then show ?case using gw_invD(2) [of R g] gw_inv_drain [of R g "Trying n p cls"] by simp
next
  case (10 g n p cls e)
  then show ?case using gw_invD(2) [of R g] gw_inv_drain [of R g "Retrying n p cls"] by simp
next
  case (11 g n p cls d)
  then show ?case using gw_inv_drain [of R g "Sending n p d"] by simp
next
  case 12 then show ?case by (simp add: gw_inv_give_back)
next
  case 13 then show ?case by (simp add: gw_inv_send)
qed

lemma gw_inv_New: "gw_inv R (NewGateway rec (NewQueue cap) mem)"
  by (rule gw_invI)
    (simp_all add: NewGateway_def buckets_ok_def queue_wf_New inflight_def queued_def,
     simp_all add: NewQueue_def)

interpretation gw_runs: invariant_system
  "\<lambda>g. \<exists>rec cap mem. g = NewGateway rec (NewQueue cap) mem" "gw_step R" "gw_inv R"
  for R
  by unfold_locales (auto simp: gw_inv_New intro: gw_inv_step)

section \<open>The desired state as a record of replies\<close>

text \<open>The models the gateway has told clients it placed on a slice.\<close>

definition committed :: "gateway \<Rightarrow> string \<Rightarrow> string set" where
  "committed g k = {ModelName req | i rq r req d.
     g_handlers g i = Some \<lparr>h_request = rq, h_state = Replied r\<rparr> \<and> rq_body rq = Inr req \<and>
     rs_body r = DecisionJSON d \<and> sliceKey (d_NodeID d) (d_GPUID d) (d_SliceID d) = k}"

definition placed_by :: "HttpRequest \<Rightarrow> Response \<Rightarrow> string \<Rightarrow> string set" where
  "placed_by rq r k = {ModelName req | req d. rq_body rq = Inr req \<and>
     rs_body r = DecisionJSON d \<and> sliceKey (d_NodeID d) (d_GPUID d) (d_SliceID d) = k}"

lemma committed_respond:
  assumes "\<And>rq' r'. g_handlers g i \<noteq> Some \<lparr>h_request = rq', h_state = Replied r'\<rparr>"
  shows "committed (respond i rq r g) k = committed g k \<union> placed_by rq r k"
  using assms by (fastforce simp: committed_def placed_by_def respond_def split: if_splits)

lemma committed_replied_cong:
  "(\<And>i rq r. g_handlers g i = Some \<lparr>h_request = rq, h_state = Replied r\<rparr> \<longleftrightarrow>
      g_handlers g' i = Some \<lparr>h_request = rq, h_state = Replied r\<rparr>) \<Longrightarrow> committed g = committed g'"
  by (simp add: fun_eq_iff committed_def)

lemma committed_cong: "g_handlers g = g_handlers g' \<Longrightarrow> committed g = committed g'"
  by (rule committed_replied_cong) simp

lemma desired_models_commit:
  "desired_models (commit d req rec) k = desired_models rec k \<union>
     (if sliceKey (d_NodeID d) (d_GPUID d) (d_SliceID d) = k then {ModelName req} else {})"
  using ledger.held_add [of "(d_NodeID d, d_GPUID d, d_SliceID d)" "ModelName req" rec k]
  by (simp add: commit_def)

definition ledger_inv :: "Reconciler \<Rightarrow> gateway \<Rightarrow> bool" where
  "ledger_inv rec0 g \<longleftrightarrow>
     (\<forall>k. desired_models (g_reconciler g) k = desired_models rec0 k \<union> committed g k)"

lemma ledger_respond_text:
  assumes "ledger_inv rec0 g" and "\<And>rq' r'. g_handlers g i \<noteq> Some \<lparr>h_request = rq', h_state = Replied r'\<rparr>"
    and "\<And>d. rs_body r \<noteq> DecisionJSON d"
  shows "ledger_inv rec0 (respond i rq r g)"
  using assms committed_respond [OF assms(2), of rq r]
  by (simp add: ledger_inv_def placed_by_def) (simp add: respond_def)

lemma ledger_respond_decision:
  assumes l: "ledger_inv rec0 g" and i: "\<And>rq' r'. g_handlers g i \<noteq> Some \<lparr>h_request = rq', h_state = Replied r'\<rparr>"
    and rq: "rq_body rq = Inr req"
  shows "ledger_inv rec0 (respond i rq (writeDecision 200 d)
    (g\<lparr>g_reconciler := commit d req (g_reconciler g)\<rparr>))" (is "ledger_inv rec0 (respond i rq ?r ?g)")
proof -
  have "committed (respond i rq ?r ?g) k = committed g k \<union> placed_by rq ?r k" for k
    using committed_respond [of ?g i rq ?r k] committed_cong [of ?g g] i by simp
  moreover have "placed_by rq ?r k =
      (if sliceKey (d_NodeID d) (d_GPUID d) (d_SliceID d) = k then {ModelName req} else {})" for k
    using rq by (simp add: placed_by_def writeDecision_def)
  moreover have "desired_models (g_reconciler (respond i rq ?r ?g)) k = desired_models (g_reconciler g) k \<union>
      (if sliceKey (d_NodeID d) (d_GPUID d) (d_SliceID d) = k then {ModelName req} else {})" for k
    by (simp add: respond_def desired_models_commit)
  ultimately show ?thesis using l by (auto simp: ledger_inv_def)
qed

lemma ledger_frame:
  "ledger_inv rec0 g \<Longrightarrow> g_reconciler g' = g_reconciler g \<Longrightarrow> g_handlers g' = g_handlers g \<Longrightarrow>
     ledger_inv rec0 g'"
  using committed_cong [of g' g] by (simp add: ledger_inv_def)

lemma ledger_start:
  assumes l: "ledger_inv rec0 g" and new: "g_handlers g i = None"
  shows "ledger_inv rec0 (HandleSchedule_start srt order reg i rq g)"
proof (cases "rq_method rq \<noteq> ''POST'' \<or> (\<exists>e. rq_body rq = Inl e)")
  case True
  with l new show ?thesis
    by (auto simp: HandleSchedule_start_def http_error_def intro!: ledger_respond_text)
next
  case False
  then obtain req where rq: "rq_method rq = ''POST''" "rq_body rq = Inr req" by (metis sumE)
  show ?thesis
  proof (cases "Schedule srt order reg req")
    case (Inr d)
    with rq l new show ?thesis
      by (simp add: HandleSchedule_start_def ledger_respond_decision)
  next
    case (Inl e)
    let ?pr = "\<lparr>p_req = req, resultCh = make_chan 1, cancelled = False\<rparr>"
    let ?g = "g\<lparr>g_pending := (g_pending g)(i := ?pr)\<rparr>"
    have l1: "ledger_inv rec0 ?g" using l by (rule ledger_frame) simp_all
    show ?thesis
    proof (cases "Admit (classFor (Priority req)) i (g_queue g)")
      case (Inl e')
      with rq \<open>Schedule srt order reg req = Inl e\<close> l1 new show ?thesis
        by (cases e') (simp add: HandleSchedule_start_def Let_def ledger_respond_text http_error_def)
    next
      case (Inr q)
      have "committed (?g\<lparr>g_queue := q, g_handlers := (g_handlers g)(i \<mapsto>
          \<lparr>h_request = rq, h_state = Waiting\<rparr>)\<rparr>) = committed g"
        by (rule committed_replied_cong) (use new in auto)
      with rq Inr \<open>Schedule srt order reg req = Inl e\<close> l show ?thesis
        by (simp add: HandleSchedule_start_def Let_def ledger_inv_def)
    qed
  qed
qed

lemma send_result_frame:
  "send_result p d g = Some g' \<Longrightarrow> g_reconciler g' = g_reconciler g \<and> g_handlers g' = g_handlers g"
  by (auto simp: send_result_def Let_def split: option.splits)

lemma give_back_frame:
  "g_reconciler (give_back c p g) = g_reconciler g" "g_handlers (give_back c p g) = g_handlers g"
  "g_pending (give_back c p g) = g_pending g" "g_drain (give_back c p g) = g_drain g"
  by (simp_all add: give_back_def split: sum.split)

lemma ledger_step:
  assumes inv: "gw_inv R g" and l: "ledger_inv rec0 g" and "gw_step R g g'"
  shows "ledger_inv rec0 g'"
  using assms(3)
proof cases
  case (request i srt order reg rq)
  with l show ?thesis by (simp add: ledger_start)
next
  case (result i rq)
  show ?thesis
  proof (rule HandleSchedule_result_eq [OF inv result])
    fix d
    let ?g = "g\<lparr>g_pending := (g_pending g)(i := (g_pending g i)\<lparr>resultCh := fresh_channel\<rparr>)\<rparr>"
    assume rq: "rq_body rq = Inr (p_req (g_pending g i))"
      and eq: "g' = respond i rq (writeDecision 200 d)
       (g\<lparr>g_reconciler := commit d (p_req (g_pending g i)) (g_reconciler g),
          g_pending := (g_pending g)(i := (g_pending g i)\<lparr>resultCh := fresh_channel\<rparr>)\<rparr>)"
    have "ledger_inv rec0 (respond i rq (writeDecision 200 d)
        (g\<lparr>g_reconciler := commit d (p_req (g_pending g i)) (g_reconciler g)\<rparr>))"
      using l result(1) rq by (intro ledger_respond_decision) simp_all
    then show ?thesis unfolding eq by (rule ledger_frame) (simp_all add: respond_def)
  qed
next
  case (timeout i rq)
  have "ledger_inv rec0 (g\<lparr>g_pending := (g_pending g)(i := (g_pending g i)\<lparr>cancelled := True\<rparr>)\<rparr>)"
    using l by (rule ledger_frame) simp_all
  with timeout show ?thesis
    unfolding timeout(1) HandleSchedule_timeout_def
    by (intro ledger_respond_text) (simp_all add: http_error_def)
qed (use l ledger_frame [OF l] send_result_frame in \<open>auto simp: give_back_frame\<close>)

interpretation gw_ledger: invariant_system
  "\<lambda>g. \<exists>cap mem. g = NewGateway rec0 (NewQueue cap) mem" "gw_step R" "\<lambda>g. gw_inv R g \<and> ledger_inv rec0 g"
  for R rec0
proof unfold_locales
  fix g assume "\<exists>cap mem. g = NewGateway rec0 (NewQueue cap) mem"
  then show "gw_inv R g \<and> ledger_inv rec0 g"
    by (auto simp: gw_inv_New) (simp add: ledger_inv_def NewGateway_def committed_def)
qed (blast intro: gw_inv_step ledger_step)

section \<open>What the gateway promises\<close>

lemma reachable_gw_inv: "(gw_step R)\<^sup>*\<^sup>* (NewGateway rec (NewQueue cap) mem) g \<Longrightarrow> gw_inv R g"
  using gw_runs.reachable_inv by blast

text \<open>
  Whose request is in flight: that of a handler that waits, or that of one that timed out, which has
  marked it as cancelled and replied 429.
\<close>

definition timed_out :: "gateway \<Rightarrow> nat \<Rightarrow> HttpRequest \<Rightarrow> bool" where
  "timed_out g i rq \<longleftrightarrow> cancelled (g_pending g i) \<and> g_handlers g i = Some \<lparr>h_request = rq, h_state =
     Replied ((http_error ''timed out waiting for GPU capacity'' 429)\<lparr>rs_retry_after := Some ''1''\<rparr>)\<rparr>"

definition awaited :: "gateway \<Rightarrow> nat \<Rightarrow> bool" where
  "awaited g i \<longleftrightarrow> (\<exists>rq. waits g i rq \<and> \<not> cancelled (g_pending g i) \<or> timed_out g i rq)"

text \<open>A step puts nothing in flight but the request of a new handler.\<close>

lemma inflight_step:
  assumes inv: "gw_inv R g" and step: "gw_step R g g'" and fl: "inflight g' p"
  shows "inflight g p \<and> (g_handlers g' p = g_handlers g p \<and>
        cancelled (g_pending g' p) = cancelled (g_pending g p) \<or> (\<exists>rq. timed_out g' p rq)) \<or>
    g_handlers g p = None \<and> (\<exists>rq. waits g' p rq) \<and> \<not> cancelled (g_pending g' p)"
  using step
proof cases
  case (request i srt order reg rq)
  show ?thesis
  proof (cases "p = i")
    case True
    with request(2) gw_invD(4) [OF inv, of p] have "\<not> inflight g p" by auto
    with fl request True show ?thesis
      by (auto simp: HandleSchedule_start_def Let_def respond_def
          split: sum.splits queue_error.splits if_splits)
  next
    case False
    with fl request show ?thesis
      by (auto simp: HandleSchedule_start_def Let_def respond_def inflight_def queued_def Admit_Inr
          split: sum.splits queue_error.splits if_splits)
  qed
next
  case (result i rq)
  then obtain d where d: "\<not> inflight g i" "g' = respond i rq (writeDecision 200 d)
       (g\<lparr>g_reconciler := commit d (p_req (g_pending g i)) (g_reconciler g),
          g_pending := (g_pending g)(i := (g_pending g i)\<lparr>resultCh := fresh_channel\<rparr>)\<rparr>)"
    using HandleSchedule_result_eq [OF inv] by metis
  with fl show ?thesis by (cases "p = i") (simp_all add: respond_def)
next
  case (timeout i rq)
  with fl show ?thesis
    by (cases "p = i") (simp_all add: HandleSchedule_timeout_def respond_def timed_out_def)
next
  case (none_left n q)
  then have "buckets q = buckets (g_queue g)"
    using buckets_ok_Next_None [OF gw_invD(1) [OF inv]] by blast
  with fl none_left show ?thesis by (simp add: inflight_def queued_def)
next
  case (take_next n x cls q)
  with fl queued_Next [OF inv take_next(3)] show ?thesis by (auto simp: inflight_def queued_def)
next
  case (retry n x cls)
  with fl show ?thesis
    by (auto simp: inflight_def queued_def give_back_def Admit_Inr split: sum.splits if_splits)
next
  case (send n x d g'')
  have hold: "holding (g_drain g) = Some x" using send(2) by simp
  then have "inflight g x" by (simp add: inflight_def)
  from send_result_eq [OF inv this, of d] send fl gw_invD(3) [OF inv hold] show ?thesis
    by (cases "p = x") (auto simp: inflight_def queued_def)
qed (use fl in \<open>auto simp: inflight_def queued_def\<close>)

lemma awaited_step:
  assumes "gw_inv R g" and "\<forall>p. inflight g p \<longrightarrow> awaited g p" and "gw_step R g g'"
  shows "\<forall>p. inflight g' p \<longrightarrow> awaited g' p"
proof (intro allI impI)
  fix p assume "inflight g' p"
  with inflight_step [OF assms(1,3)] assms(2) show "awaited g' p"
    unfolding awaited_def timed_out_def by (metis (no_types, lifting))
qed

interpretation gw_awaited: invariant_system
  "\<lambda>g. \<exists>rec cap mem. g = NewGateway rec (NewQueue cap) mem" "gw_step R"
  "\<lambda>g. gw_inv R g \<and> (\<forall>p. inflight g p \<longrightarrow> awaited g p)" for R
proof unfold_locales
  show "gw_inv R g \<and> (\<forall>p. inflight g p \<longrightarrow> awaited g p)"
    if "\<exists>rec cap mem. g = NewGateway rec (NewQueue cap) mem" for g
    using that gw_inv_New by (auto simp: NewGateway_def NewQueue_def inflight_def queued_def)
qed (use awaited_step gw_inv_step in blast)

lemma handler_stays: "gw_step R g g' \<Longrightarrow> g_handlers g i \<noteq> None \<Longrightarrow> g_handlers g' i \<noteq> None"
  by (erule gw_step.cases)
    (auto simp: HandleSchedule_start_def HandleSchedule_result_def HandleSchedule_timeout_def Let_def
      respond_def give_back_frame send_result_frame
      split: sum.splits queue_error.splits option.splits prod.splits if_splits)

lemma gone_stays_gone:
  assumes "(gw_step R)\<^sup>*\<^sup>* g g'" and "gw_inv R g" and "g_handlers g p \<noteq> None" "\<not> inflight g p"
  shows "g_handlers g' p \<noteq> None \<and> \<not> inflight g' p"
  using assms(1)
proof (induction rule: rtranclp_induct)
  case (step g1 g2)
  have "gw_inv R g1" using gw_runs.steps_inv [OF step(1) assms(2)] .
  with inflight_step [OF this step(2), of p] handler_stays [OF step(2), of p] step(3) show ?case by blast
qed (use assms(3,4) in simp)

text \<open>
  C29. In every interleaving of requests, timeouts and the drain loop a request is in one place at a time
  and comes to one end. It is at most once in the queue, in the class of its priority, and not there
  while the drain loop holds it. While it is in flight, in the queue or in the hands of the loop, no result was sent to it, and its
  handler waits for one or has timed out, answered 429 and marked it as cancelled; so the request of a
  client that was answered anything else is not in flight. And once it has left, because a result was
  sent to it, it was found cancelled, or its class was full, it is never in flight again.
\<close>

theorem gateway_at_most_once:
  assumes "(gw_step R)\<^sup>*\<^sup>* (NewGateway rec (NewQueue cap) mem) g"
  shows "distinct (buckets (g_queue g) High @ buckets (g_queue g) Medium @ buckets (g_queue g) Low) \<and>
    (\<forall>c. \<forall>p \<in> set (buckets (g_queue g) c). c = classFor (Priority (p_req (g_pending g p))) \<and>
      holding (g_drain g) \<noteq> Some p) \<and>
    (\<forall>p. inflight g p \<longrightarrow> ch_buf (resultCh (g_pending g p)) = [] \<and> awaited g p) \<and>
    (\<forall>p g'. g_handlers g p \<noteq> None \<and> \<not> inflight g p \<and> (gw_step R)\<^sup>*\<^sup>* g g' \<longrightarrow> \<not> inflight g' p)"
proof -
  have inv: "gw_inv R g" and aw: "inflight g p \<Longrightarrow> awaited g p" for p
    using gw_awaited.reachable_inv [OF _ assms] by blast+
  have cls: "c = classFor (Priority (p_req (g_pending g p)))" if "p \<in> set (buckets (g_queue g) c)" for c p
    using gw_invD(1) [OF inv] that by (simp add: buckets_ok_def)
  have "distinct (buckets (g_queue g) c)" for c
    using gw_invD(1) [OF inv] by (simp add: buckets_ok_def)
  moreover have "set (buckets (g_queue g) c) \<inter> set (buckets (g_queue g) d) = {}" if "c \<noteq> d" for c d
    using cls that by auto
  moreover have "holding (g_drain g) \<noteq> Some p" if "p \<in> set (buckets (g_queue g) c)" for c p
    using that gw_invD(3) [OF inv, of p] by (auto simp: queued_def)
  moreover have "ch_buf (resultCh (g_pending g p)) = []" if "inflight g p" for p
    using gw_invD(5) [OF inv that] by (simp add: fresh_channel_def make_chan_def)
  moreover have "\<forall>p g'. g_handlers g p \<noteq> None \<and> \<not> inflight g p \<and> (gw_step R)\<^sup>*\<^sup>* g g' \<longrightarrow> \<not> inflight g' p"
    using gone_stays_gone [OF _ inv] by blast
  ultimately show ?thesis using cls aw by auto
qed
text \<open>
  The drain loop never blocks on a result: whenever it is about to send, the channel of
  the request is empty, so the send succeeds and leaves the loop at its next attempt.
\<close>

theorem gateway_send_never_blocks:
  assumes "(gw_step R)\<^sup>*\<^sup>* (NewGateway rec (NewQueue cap) mem) g" and "g_drain g = Sending n p d"
  shows "\<exists>g'. send_result p d g = Some g' \<and> gw_step R g (g'\<lparr>g_drain := Loop n\<rparr>)"
proof -
  have inv: "gw_inv R g" using reachable_gw_inv [OF assms(1)] .
  have "inflight g p" using assms(2) by (simp add: inflight_def)
  from send_result_eq [OF inv this] obtain g' where g': "send_result p d g = Some g'" by blast
  with gw_step.send [OF assms(2) g'] show ?thesis by blast
qed

text \<open>
  C14. The desired state is exactly what clients were told: in every interleaving, the models
  desired on a slice are the initial ones and those of the requests answered with a decision
  for that slice. A request that was refused, timed out or is still waiting leaves no trace,
  even if a result was sent to it after its wait was over.
\<close>

theorem desired_state_matches_replies:
  assumes "(gw_step R)\<^sup>*\<^sup>* (NewGateway rec (NewQueue cap) mem) g"
  shows "desired_models (g_reconciler g) k = desired_models rec k \<union> {ModelName req | i rq r req d.
     g_handlers g i = Some \<lparr>h_request = rq, h_state = Replied r\<rparr> \<and> rq_body rq = Inr req \<and>
     rs_body r = DecisionJSON d \<and> sliceKey (d_NodeID d) (d_GPUID d) (d_SliceID d) = k}"
proof -
  have "ledger_inv rec g" using gw_ledger.reachable_inv [OF _ assms] by blast
  then show ?thesis by (simp add: ledger_inv_def committed_def)
qed

lemma outcome_Inr:
  assumes "outcome_of R req (Inr d)"
  shows "\<exists>reg \<in> R. \<exists>n s. (n, s) \<in> placements reg (VRAMNeededMiB req) \<and> decides d n s"
proof -
  from assms obtain srt order reg where R: "reg \<in> R"
    and a: "slice_sorter srt" "enumerates order (nodes reg)" "Schedule srt order reg req = Inr d" unfolding outcome_of_def by blast
  from a obtain n s where "best_placement reg req n s" "decides d n s" by (rule Schedule_Inr)
  then show ?thesis using R best_placement_place by blast
qed

lemma outcome_Inl:
  assumes "outcome_of R req (Inl e)"
  shows "\<exists>reg \<in> R. placements reg (VRAMNeededMiB req) = {}"
proof -
  from assms obtain srt order reg where R: "reg \<in> R"
    and a: "slice_sorter srt" "enumerates order (nodes reg)" "Schedule srt order reg req = Inl e" unfolding outcome_of_def by blast
  with R schedule_error [OF a(1,2), of req] show ?thesis by auto
qed

text \<open>
  C16. Every reply is justified, and no handler dies: 405 answers exactly the wrong method, 400
  exactly a body that does not decode, 200 carries a decision that names a placement with room
  for the request in a registry that was read, and 429 is sent only to a request for which a
  registry had no placement.
\<close>

theorem gateway_replies_justified:
  assumes "(gw_step R)\<^sup>*\<^sup>* (NewGateway rec (NewQueue cap) mem) g" and "g_handlers g i = Some h"
  shows "case h_state h of
      Panicked \<Rightarrow> False
    | Waiting \<Rightarrow> rq_method (h_request h) = ''POST'' \<and>
        (\<exists>req. \<exists>reg \<in> R. rq_body (h_request h) = Inr req \<and> placements reg (VRAMNeededMiB req) = {})
    | Replied r \<Rightarrow> rs_status r \<in> {200, 400, 405, 429} \<and>
        (rs_status r = 405 \<longleftrightarrow> rq_method (h_request h) \<noteq> ''POST'') \<and>
        (rs_status r = 400 \<longleftrightarrow> rq_method (h_request h) = ''POST'' \<and> (\<exists>e. rq_body (h_request h) = Inl e)) \<and>
        (rs_status r = 200 \<longrightarrow> (\<exists>req d. \<exists>reg \<in> R. \<exists>n s. rq_body (h_request h) = Inr req \<and>
          rs_body r = DecisionJSON d \<and> (n, s) \<in> placements reg (VRAMNeededMiB req) \<and> decides d n s)) \<and>
        (rs_status r = 429 \<longrightarrow> rs_retry_after r = Some ''1'' \<and>
          (\<exists>req. \<exists>reg \<in> R. rq_body (h_request h) = Inr req \<and> placements reg (VRAMNeededMiB req) = {}))"
proof -
  have "handler_ok R (g_pending g i) h" using gw_invD(6) [OF reachable_gw_inv [OF assms(1)] assms(2)] .
  then show ?thesis
  proof (cases "h_state h")
    case Waiting
    with \<open>handler_ok R (g_pending g i) h\<close> outcome_Inl show ?thesis by (auto simp: handler_ok_def)
  next
    case (Replied r)
    with \<open>handler_ok R (g_pending g i) h\<close> have "reply_ok R (h_request h) r" by (simp add: handler_ok_def)
    then show ?thesis unfolding Replied handler_state.case reply_ok_def
      using outcome_Inr outcome_Inl by (elim disjE conjE exE) (simp, blast?)+
  qed (simp add: handler_ok_def)
qed

section \<open>One pass of the drain loop\<close>

text \<open>The loop of \<open>drainOnce\<close>, one attempt at a time.\<close>

lemma gw_inv_at: "gw_inv R g \<Longrightarrow> holding (g_drain g) = None \<Longrightarrow> gw_inv R (g\<lparr>g_drain := Loop n\<rparr>)"
  by (rule gw_inv_drain) simp_all

lemma drain_frame [simp]:
  "(g\<lparr>g_drain := x, g_queue := q\<rparr>) = (g\<lparr>g_queue := q, g_drain := x\<rparr>)"
  "(g\<lparr>g_drain := x, g_pending := y\<rparr>) = (g\<lparr>g_pending := y, g_drain := x\<rparr>)"
  by (cases g; simp)+

lemma retry_room:
  assumes inv: "gw_inv R g" and nx: "Next (g_queue g) = (Some (p, c), q)"
  shows "Admit c p q = Inr (q\<lparr>buckets := (buckets q)(c := buckets q c @ [p])\<rparr>)"
proof -
  have wf: "queue_wf (g_queue g)" using gw_invD(1) [OF inv] by (simp add: buckets_ok_def)
  have "buckets (g_queue g) c = p # buckets q c" "capacity q = capacity (g_queue g)"
    using Next_bucket [OF nx] by auto
  moreover have "int (length (buckets (g_queue g) c)) \<le> max 0 (capacity (g_queue g))"
    using wf by (simp add: queue_wf_def)
  ultimately have "int (length (buckets q c)) < capacity q" by simp
  then show ?thesis by (simp add: Admit_def Let_def)
qed

definition answered :: "ScheduleDecision \<Rightarrow> pendingRequest \<Rightarrow> pendingRequest" where
  "answered d pr = pr\<lparr>resultCh := \<lparr>ch_buf = [\<lparr>pr_decision = Some d, pr_err = None\<rparr>], ch_cap = 1\<rparr>\<rparr>"

text \<open>
  The three outcomes of an attempt, each with the state it leaves; \<open>gw_inv\<close> keeps holding at
  the head of the loop and the steps of the interleaved machine are taken.
\<close>

lemma drain_attempt:
  assumes inv: "gw_inv UNIV g" and pc: "g_drain g = Loop (Suc n)"
    and nx: "Next (g_queue g) = (Some (p, c), q)"
    and srt: "slice_sorter srt" "\<forall>n. enumerates (orders n) (nodes reg)"
  obtains (skipped) "cancelled (g_pending g p)"
      "drain_loop srt orders reg (Suc n) g = drain_loop srt orders reg n (g\<lparr>g_queue := q\<rparr>)"
      "(gw_step UNIV)\<^sup>*\<^sup>* g (g\<lparr>g_queue := q, g_drain := Loop n\<rparr>)"
  | (missed) e q' where "\<not> cancelled (g_pending g p)"
      "Schedule srt (orders n) reg (p_req (g_pending g p)) = Inl e"
      "q' = q\<lparr>buckets := (buckets q)(c := buckets q c @ [p])\<rparr>"
      "drain_loop srt orders reg (Suc n) g = drain_loop srt orders reg n (g\<lparr>g_queue := q'\<rparr>)"
      "(gw_step UNIV)\<^sup>*\<^sup>* g (g\<lparr>g_queue := q', g_drain := Loop n\<rparr>)"
  | (placed) d pend where "\<not> cancelled (g_pending g p)"
      "Schedule srt (orders n) reg (p_req (g_pending g p)) = Inr d"
      "pend = (g_pending g)(p := answered d (g_pending g p))"
      "drain_loop srt orders reg (Suc n) g =
         drain_loop srt orders reg n (g\<lparr>g_queue := q, g_pending := pend\<rparr>)"
      "(gw_step UNIV)\<^sup>*\<^sup>* g (g\<lparr>g_queue := q, g_pending := pend, g_drain := Loop n\<rparr>)"
proof -
  let ?t = "g\<lparr>g_queue := q, g_drain := Took n p c\<rparr>"
  have take: "gw_step UNIV g ?t" using gw_step.take_next [OF pc nx] .
  note invt = gw_inv_take [OF inv pc nx]
  show ?thesis
  proof (cases "cancelled (g_pending g p)")
    case True
    have "gw_step UNIV ?t (?t\<lparr>g_drain := Loop n\<rparr>)" by (rule gw_step.skip) (use True in simp_all)
    with take have "(gw_step UNIV)\<^sup>*\<^sup>* g (?t\<lparr>g_drain := Loop n\<rparr>)" by (metis converse_rtranclp_into_rtranclp r_into_rtranclp)
    with True nx show ?thesis by (intro skipped) (simp_all add: Let_def)
  next
    case False
    let ?y = "g\<lparr>g_queue := q, g_drain := Trying n p c\<rparr>"
    have "gw_step UNIV ?t (?t\<lparr>g_drain := Trying n p c\<rparr>)" by (rule gw_step.attempt) (use False in simp_all)
    with take have trying: "(gw_step UNIV)\<^sup>*\<^sup>* g ?y" by (simp add: converse_rtranclp_into_rtranclp)
    have invy: "gw_inv UNIV ?y" using gw_inv_drain [OF invt, of "Trying n p c"] gw_invD(2) [OF invt] by simp
    show ?thesis
    proof (cases "Schedule srt (orders n) reg (p_req (g_pending g p))")
      case (Inl e)
      then have "outcome_of UNIV (p_req (g_pending ?y p)) (Inl e)" using srt unfolding outcome_of_def by auto
      from gw_step.miss [of ?y, OF _ this] have
        miss: "gw_step UNIV ?y (g\<lparr>g_queue := q, g_drain := Retrying n p c\<rparr>)" by simp
      let ?q = "q\<lparr>buckets := (buckets q)(c := buckets q c @ [p])\<rparr>"
      note room = retry_room [OF inv nx]
      have "gw_step UNIV (g\<lparr>g_queue := q, g_drain := Retrying n p c\<rparr>) (g\<lparr>g_queue := ?q, g_drain := Loop n\<rparr>)"
        using gw_step.retry [of "g\<lparr>g_queue := q, g_drain := Retrying n p c\<rparr>" n p c] room
        by (simp add: give_back_def)
      with trying miss have "(gw_step UNIV)\<^sup>*\<^sup>* g (g\<lparr>g_queue := ?q, g_drain := Loop n\<rparr>)"
        by (meson rtranclp.rtrancl_into_rtrancl)
      with False Inl nx room show ?thesis
        by (intro missed [OF False Inl refl]) (simp_all add: Let_def give_back_def)
    next
      case (Inr d)
      then have o: "outcome_of UNIV (p_req (g_pending ?y p)) (Inr d)" using srt unfolding outcome_of_def by auto
      let ?s = "g\<lparr>g_queue := q, g_drain := Sending n p d\<rparr>"
      from gw_step.hit [of ?y, OF _ o] have hit: "gw_step UNIV ?y ?s" by simp
      have invs: "gw_inv UNIV ?s" using gw_inv_drain [OF invy, of "Sending n p d"] o by simp
      let ?pend = "(g_pending g)(p := answered d (g_pending g p))"
      have fr: "resultCh (g_pending g p) = fresh_channel"
        using gw_invD(5) [OF invs, of p] by (simp add: inflight_def)
      then have sr: "send_result p d (g\<lparr>g_queue := q\<rparr>) = Some (g\<lparr>g_queue := q, g_pending := ?pend\<rparr>)"
        "send_result p d ?s = Some (g\<lparr>g_queue := q, g_drain := Sending n p d, g_pending := ?pend\<rparr>)"
        by (simp_all add: send_result_def Let_def try_send_def fresh_channel_def make_chan_def answered_def)
      have "gw_step UNIV ?s (g\<lparr>g_queue := q, g_pending := ?pend, g_drain := Loop n\<rparr>)"
        using gw_step.send [OF _ sr(2), of n] by simp
      with trying hit have "(gw_step UNIV)\<^sup>*\<^sup>* g (g\<lparr>g_queue := q, g_pending := ?pend, g_drain := Loop n\<rparr>)"
        by (meson rtranclp.rtrancl_into_rtrancl)
      with False Inr nx sr show ?thesis
        by (intro placed [OF False Inr refl]) (simp_all add: Let_def)
    qed
  qed
qed

text \<open>The function does not look at where the loop stands.\<close>

lemma drain_loop_pc:
  "drain_loop srt orders reg n (g\<lparr>g_drain := x\<rparr>) =
     map_option (\<lambda>g. g\<lparr>g_drain := x\<rparr>) (drain_loop srt orders reg n g)"
proof (induction n arbitrary: g)
  case (Suc n)
  have 1: "give_back c p (h\<lparr>g_drain := x\<rparr>) = (give_back c p h)\<lparr>g_drain := x\<rparr>" for c p h
    by (cases h) (simp add: give_back_def split: sum.split)
  have 2: "send_result p d (h\<lparr>g_drain := x\<rparr>) = map_option (\<lambda>g. g\<lparr>g_drain := x\<rparr>) (send_result p d h)" for p d h
    by (cases h) (simp add: send_result_def Let_def split: option.split)
  have 3: "(g\<lparr>g_drain := x, g_queue := q\<rparr>) = (g\<lparr>g_queue := q\<rparr>)\<lparr>g_drain := x\<rparr>" for q
    by (cases g) simp
  show ?case
    by (simp add: Let_def 1 2 3 Suc del: drain_frame split: option.split prod.split sum.split)
qed simp

text \<open>
  What a pass does to the requests: those it answers leave the queue with a decision on their
  channel, cancelled ones may be dropped, all others stay, and nothing else changes.
\<close>

definition drain_effect ::
  "sorter \<Rightarrow> (nat \<Rightarrow> string list) \<Rightarrow> NodeRegistry \<Rightarrow> gateway \<Rightarrow> gateway \<Rightarrow> bool" where
  "drain_effect srt orders reg g g' \<longleftrightarrow>
     g_reconciler g' = g_reconciler g \<and> g_handlers g' = g_handlers g \<and>
     (\<forall>p. \<not> queued g p \<longrightarrow> \<not> queued g' p \<and> g_pending g' p = g_pending g p) \<and>
     (\<forall>p. queued g p \<longrightarrow>
       (queued g' p \<or> cancelled (g_pending g p)) \<and> g_pending g' p = g_pending g p \<or>
       \<not> queued g' p \<and> \<not> cancelled (g_pending g p) \<and>
         (\<exists>k d. Schedule srt (orders k) reg (p_req (g_pending g p)) = Inr d \<and>
           g_pending g' p = answered d (g_pending g p)))"

lemma drain_effect_refl: "drain_effect srt orders reg g g"
  by (simp add: drain_effect_def)

lemma drain_effect_trans:
  "drain_effect srt orders reg g g1 \<Longrightarrow> drain_effect srt orders reg g1 g2 \<Longrightarrow>
     drain_effect srt orders reg g g2"
  unfolding drain_effect_def by (elim conjE, intro conjI) (simp, simp, metis, metis)

lemma drain_loop_run:
  assumes srt: "slice_sorter srt" "\<forall>n. enumerates (orders n) (nodes reg)"
  shows "gw_inv UNIV g \<Longrightarrow> g_drain g = Loop n \<Longrightarrow>
    \<exists>g'. drain_loop srt orders reg n g = Some g' \<and> drain_effect srt orders reg g g' \<and>
      (gw_step UNIV)\<^sup>*\<^sup>* g (g'\<lparr>g_drain := Parked\<rparr>) \<and>
      (Len (g_queue g) \<le> n \<longrightarrow> (\<forall>p. queued g p \<and> \<not> cancelled (g_pending g p) \<longrightarrow>
         placements reg (VRAMNeededMiB (p_req (g_pending g p))) \<noteq> {}) \<longrightarrow> (\<forall>p. \<not> queued g' p))"
proof (induction n arbitrary: g)
  case 0
  have "(gw_step UNIV)\<^sup>*\<^sup>* g (g\<lparr>g_drain := Parked\<rparr>)" using gw_step.finish [OF 0(2)] by blast
  moreover have "Len (g_queue g) \<le> 0 \<longrightarrow> \<not> queued g p" for p
    using Len_zero [of "g_queue g"] by (simp add: queued_def)
  ultimately show ?case by (simp add: drain_effect_refl)
next
  case (Suc n)
  note inv = Suc.prems(1) and pc = Suc.prems(2)
  obtain x q where nx0: "Next (g_queue g) = (x, q)" by fastforce
  show ?case
  proof (cases x)
    case None
    with nx0 have nx: "Next (g_queue g) = (None, q)" by simp
    have b: "buckets q = buckets (g_queue g)" "\<forall>c. buckets (g_queue g) c = []"
      using gw_invD(1) [OF inv] Next_None [OF _ nx] by (simp_all add: buckets_ok_def)
    have "(gw_step UNIV)\<^sup>*\<^sup>* g (g\<lparr>g_queue := q, g_drain := Parked\<rparr>)" using gw_step.none_left [OF pc nx] by blast
    then show ?thesis using nx b by (simp add: drain_effect_def queued_def)
  next
    case (Some pcl)
    obtain p c where "pcl = (p, c)" by fastforce
    with Some nx0 have nx: "Next (g_queue g) = (Some (p, c), q)" by simp
    note qn = queued_Next [OF inv nx]
    let ?fits = "\<lambda>g. \<forall>p. queued g p \<and> \<not> cancelled (g_pending g p) \<longrightarrow>
         placements reg (VRAMNeededMiB (p_req (g_pending g p))) \<noteq> {}"
    have step: ?thesis
      if eq: "drain_loop srt orders reg (Suc n) g = drain_loop srt orders reg n h"
        and run: "(gw_step UNIV)\<^sup>*\<^sup>* g (h\<lparr>g_drain := Loop n\<rparr>)" and eff: "drain_effect srt orders reg g h"
        and len: "?fits g \<Longrightarrow> Suc (Len (g_queue h)) \<le> Len (g_queue g) \<and> ?fits h" for h
    proof -
      let ?h = "h\<lparr>g_drain := Loop n\<rparr>"
      have "gw_inv UNIV ?h" using run inv by (rule gw_runs.steps_inv)
      then obtain g' where g': "drain_loop srt orders reg n ?h = Some g'"
        "drain_effect srt orders reg ?h g'" "(gw_step UNIV)\<^sup>*\<^sup>* ?h (g'\<lparr>g_drain := Parked\<rparr>)"
        "Len (g_queue ?h) \<le> n \<longrightarrow> ?fits ?h \<longrightarrow> (\<forall>p. \<not> queued g' p)"
        using Suc.IH [of ?h] by auto
      from g'(1) obtain g'' where g'': "drain_loop srt orders reg n h = Some g''"
        "g' = g''\<lparr>g_drain := Loop n\<rparr>" by (auto simp: drain_loop_pc)
      have "drain_effect srt orders reg h g''"
        using g'(2) unfolding g''(2) by (simp add: drain_effect_def)
      with eff have "drain_effect srt orders reg g g''" by (rule drain_effect_trans)
      moreover have "(gw_step UNIV)\<^sup>*\<^sup>* g (g''\<lparr>g_drain := Parked\<rparr>)"
        using run g'(3) unfolding g''(2) by simp
      moreover have "Len (g_queue g) \<le> Suc n \<longrightarrow> ?fits g \<longrightarrow> (\<forall>p. \<not> queued g'' p)"
      proof (intro impI)
        assume "Len (g_queue g) \<le> Suc n" and "?fits g"
        with len have "Len (g_queue h) \<le> n" "?fits h" by (meson Suc_le_mono le_trans, blast)
        with g'(4) show "\<forall>p. \<not> queued g'' p" unfolding g''(2) by simp
      qed
      ultimately show ?thesis using eq g''(1) by auto
    qed
    from inv pc nx srt show ?thesis
    proof (cases rule: drain_attempt)
      case skipped
      show ?thesis
        by (rule step [OF skipped(2)])
          (use skipped qn in \<open>auto simp: drain_effect_def\<close>)
    next
      case (missed e q')
      have bq: "queued (g\<lparr>g_queue := q'\<rparr>) y \<longleftrightarrow> queued (g\<lparr>g_queue := q\<rparr>) y \<or> y = p" for y
        using missed(3) by (auto simp: queued_def split: if_splits)
      have "placements reg (VRAMNeededMiB (p_req (g_pending g p))) = {}"
        using schedule_error [OF srt(1) srt(2) [rule_format, of n], of "p_req (g_pending g p)"] missed(2) by simp
      then have "\<not> ?fits g" using missed(1) qn(2) by blast
      with missed bq qn show ?thesis
        by (intro step [OF missed(4)]) (auto simp: drain_effect_def)
    next
      case (placed d pend)
      show ?thesis
        by (rule step [OF placed(4)])
          (use placed qn in \<open>auto simp: drain_effect_def answered_def\<close>)
    qed
  qed
qed

text \<open>
  A pass of the drain loop that no handler interrupts always returns, and it is one of the
  interleaved runs: the function \<open>drainOnce\<close> implements the steps from a tick to the next
  rest.
\<close>

theorem drain_once_implements_steps:
  assumes "(gw_step UNIV)\<^sup>*\<^sup>* (NewGateway rec (NewQueue cap) mem) g" and "g_drain g = Parked"
    and "slice_sorter srt" and "\<forall>n. enumerates (orders n) (nodes reg)"
  shows "\<exists>g'. drainOnce srt orders reg g = Some g' \<and> g_drain g' = Parked \<and> (gw_step UNIV)\<^sup>*\<^sup>* g g'"
proof -
  let ?n = "Len (g_queue g)"
  let ?g = "g\<lparr>g_drain := Loop ?n\<rparr>"
  have inv: "gw_inv UNIV ?g" using gw_inv_at [OF reachable_gw_inv [OF assms(1)], of ?n] assms(2) by simp
  from drain_loop_run [OF assms(3,4) inv] obtain g' where g': "drain_loop srt orders reg ?n ?g = Some g'"
    "(gw_step UNIV)\<^sup>*\<^sup>* ?g (g'\<lparr>g_drain := Parked\<rparr>)" by auto
  from g'(1) obtain h where h: "drain_loop srt orders reg ?n g = Some h" "g' = h\<lparr>g_drain := Loop ?n\<rparr>"
    by (auto simp: drain_loop_pc)
  have "g = g\<lparr>g_drain := Parked\<rparr>" using assms(2) by simp
  with h(1) have "g_drain h = Parked" by (metis drain_loop_pc gateway.select_convs(5)
      gateway.surjective gateway.update_convs(5) option.inject option.simps(9))
  then have "h = g'\<lparr>g_drain := Parked\<rparr>" using h(2) by simp
  moreover have "gw_step UNIV g ?g" using gw_step.tick [OF assms(2)] .
  ultimately have "(gw_step UNIV)\<^sup>*\<^sup>* g h" using g'(2) by (simp add: converse_rtranclp_into_rtranclp)
  with h(1) \<open>g_drain h = Parked\<close> show ?thesis by (simp add: drainOnce_def)
qed

text \<open>The same pass, as its effect on the requests.\<close>

lemma drainOnce_run:
  assumes "gw_inv UNIV g" and "g_drain g = Parked"
    and "slice_sorter srt" and "\<forall>n. enumerates (orders n) (nodes reg)"
  obtains g' where "drainOnce srt orders reg g = Some g'" "drain_effect srt orders reg g g'"
    "(\<forall>p. queued g p \<and> \<not> cancelled (g_pending g p) \<longrightarrow>
       placements reg (VRAMNeededMiB (p_req (g_pending g p))) \<noteq> {}) \<longrightarrow> (\<forall>p. \<not> queued g' p)"
proof -
  let ?n = "Len (g_queue g)"
  let ?g = "g\<lparr>g_drain := Loop ?n\<rparr>"
  have inv: "gw_inv UNIV ?g" using gw_inv_at [OF assms(1), of ?n] assms(2) by simp
  from drain_loop_run [OF assms(3,4) inv] obtain g' where g': "drain_loop srt orders reg ?n ?g = Some g'"
    "drain_effect srt orders reg ?g g'"
    "(\<forall>p. queued g p \<and> \<not> cancelled (g_pending g p) \<longrightarrow>
       placements reg (VRAMNeededMiB (p_req (g_pending g p))) \<noteq> {}) \<longrightarrow> (\<forall>p. \<not> queued g' p)"
    by auto
  from g'(1) obtain h where h: "drain_loop srt orders reg ?n g = Some h" "g' = h\<lparr>g_drain := Loop ?n\<rparr>"
    by (auto simp: drain_loop_pc)
  show ?thesis
  proof (rule that [of h])
    show "drainOnce srt orders reg g = Some h" using h(1) by (simp add: drainOnce_def)
    show "drain_effect srt orders reg g h" using g'(2) unfolding h(2) by (simp add: drain_effect_def)
  qed (use g'(3) h(2) in simp)
qed

text \<open>
  An uninterrupted pass loses no request: each request in the queue is afterwards still
  queued, or was cancelled, or has left the queue with a decision on its channel that names a
  placement with room for it. The pass adds nothing to the queue, touches no other request and
  does not change the desired state.
\<close>

theorem drain_once_conserves:
  assumes "(gw_step UNIV)\<^sup>*\<^sup>* (NewGateway rec (NewQueue cap) mem) g" and "g_drain g = Parked"
    and "slice_sorter srt" and "\<forall>n. enumerates (orders n) (nodes reg)"
    and "drainOnce srt orders reg g = Some g'"
  shows "g_reconciler g' = g_reconciler g \<and>
    (\<forall>p. \<not> queued g p \<longrightarrow> \<not> queued g' p \<and> g_pending g' p = g_pending g p) \<and>
    (\<forall>p. queued g p \<longrightarrow> queued g' p \<or> cancelled (g_pending g p) \<or>
       (\<exists>d n s. ch_buf (resultCh (g_pending g' p)) = [\<lparr>pr_decision = Some d, pr_err = None\<rparr>] \<and>
         decides d n s \<and> (n, s) \<in> placements reg (VRAMNeededMiB (p_req (g_pending g p)))))"
proof -
  from drainOnce_run [OF reachable_gw_inv [OF assms(1)] assms(2-4)] assms(5)
  have eff: "drain_effect srt orders reg g g'" by auto
  have place: "\<exists>n s. decides d n s \<and> (n, s) \<in> placements reg (VRAMNeededMiB req)"
    if "Schedule srt (orders k) reg req = Inr d" for k d req
    using Schedule_Inr [OF assms(3) assms(4) [rule_format] that] best_placement_place by metis
  then have "queued g' p \<or> cancelled (g_pending g p) \<or>
       (\<exists>d n s. ch_buf (resultCh (g_pending g' p)) = [\<lparr>pr_decision = Some d, pr_err = None\<rparr>] \<and>
         decides d n s \<and> (n, s) \<in> placements reg (VRAMNeededMiB (p_req (g_pending g p))))"
    if q: "queued g p" for p
  proof -
    from eff q consider "queued g' p" | "cancelled (g_pending g p)"
      | k d where "Schedule srt (orders k) reg (p_req (g_pending g p)) = Inr d"
          "g_pending g' p = answered d (g_pending g p)"
      unfolding drain_effect_def by metis
    then show ?thesis
    proof cases
      case (3 k d)
      with place show ?thesis by (simp add: answered_def)
    qed blast+
  qed
  moreover have "g_reconciler g' = g_reconciler g"
    "\<forall>p. \<not> queued g p \<longrightarrow> \<not> queued g' p \<and> g_pending g' p = g_pending g p"
    using eff unfolding drain_effect_def by blast+
  ultimately show ?thesis by blast
qed

text \<open>
  C34. If the registry has a placement for every queued request, one pass empties the queue and
  answers every request that was not cancelled. The pass reserves nothing: every request is
  placed against the same registry, so requests that do not fit together are all answered.
\<close>

theorem drain_once_empties:
  assumes "(gw_step UNIV)\<^sup>*\<^sup>* (NewGateway rec (NewQueue cap) mem) g" and "g_drain g = Parked"
    and "slice_sorter srt" and "\<forall>n. enumerates (orders n) (nodes reg)"
    and "\<forall>p. queued g p \<longrightarrow> placements reg (VRAMNeededMiB (p_req (g_pending g p))) \<noteq> {}"
  shows "\<exists>g'. drainOnce srt orders reg g = Some g' \<and> Len (g_queue g') = 0 \<and>
    (\<forall>p. queued g p \<and> \<not> cancelled (g_pending g p) \<longrightarrow>
      (\<exists>d. ch_buf (resultCh (g_pending g' p)) = [\<lparr>pr_decision = Some d, pr_err = None\<rparr>]))"
proof -
  from drainOnce_run [OF reachable_gw_inv [OF assms(1)] assms(2-4)] assms(5)
  obtain g' where g': "drainOnce srt orders reg g = Some g'" "drain_effect srt orders reg g g'"
    "\<forall>p. \<not> queued g' p" by auto
  have "Len (g_queue g') = 0" using g'(3) unfolding Len_zero queued_def
    by (metis last_in_set)
  moreover have "\<exists>d. ch_buf (resultCh (g_pending g' p)) = [\<lparr>pr_decision = Some d, pr_err = None\<rparr>]"
    if "queued g p" "\<not> cancelled (g_pending g p)" for p
    using g'(2,3) that unfolding drain_effect_def answered_def by force
  ultimately show ?thesis using g'(1) by blast
qed

section \<open>A request given up by the drain loop\<close>

text \<open>
  A waiting request that is neither queued nor held by the loop, and to which no result was
  sent, can only time out.
\<close>

definition stranded :: "gateway \<Rightarrow> nat \<Rightarrow> HttpRequest \<Rightarrow> bool" where
  "stranded g i rq \<longleftrightarrow> waits g i rq \<and> \<not> inflight g i \<and> ch_buf (resultCh (g_pending g i)) = []"

lemma stranded_start:
  assumes "g_handlers g j = None" and "stranded g i rq"
  shows "stranded (HandleSchedule_start srt order reg j rq' g) i rq"
proof -
  have "i \<noteq> j" using assms by (auto simp: stranded_def)
  with assms show ?thesis
    by (auto simp: stranded_def HandleSchedule_start_def Let_def respond_def inflight_def queued_def
        Admit_Inr split: sum.split queue_error.split if_splits)
qed

lemma stranded_step:
  assumes inv: "gw_inv R g" and str: "stranded g i rq" and "gw_step R g g'"
  shows "stranded g' i rq \<or>
    (\<exists>r. g_handlers g' i = Some \<lparr>h_request = rq, h_state = Replied r\<rparr> \<and> rs_status r = 429)"
  using assms(3)
proof cases
  case (request j srt order reg rq')
  with str show ?thesis by (simp add: stranded_start)
next
  case (result j rq')
  have ne: "j \<noteq> i"
    using str result by (auto simp: stranded_def HandleSchedule_result_def recv_def)
  show ?thesis
    by (rule HandleSchedule_result_eq [OF inv result])
      (use ne str in \<open>simp add: stranded_def respond_def inflight_def queued_def\<close>)
next
  case (timeout j rq')
  with str show ?thesis
    by (auto simp: stranded_def HandleSchedule_timeout_def respond_def http_error_def inflight_def
        queued_def)
next
  case (none_left n q)
  then have "buckets q = buckets (g_queue g)"
    using buckets_ok_Next_None [OF gw_invD(1) [OF inv]] by blast
  with str none_left show ?thesis by (auto simp: stranded_def inflight_def queued_def)
next
  case (take_next n p cls q)
  with str queued_Next [OF inv take_next(3)] show ?thesis
    by (auto simp: stranded_def inflight_def)
next
  case (retry n p cls)
  with str show ?thesis
    by (auto simp: stranded_def inflight_def queued_def give_back_def Admit_Inr
        split: sum.split if_splits)
next
  case (send n p d g'')
  then have "p \<noteq> i" using str by (auto simp: stranded_def inflight_def)
  with str send show ?thesis
    by (auto simp: stranded_def inflight_def queued_def send_result_def Let_def split: option.splits)
qed (use str in \<open>auto simp: stranded_def inflight_def queued_def\<close>)

lemma replied_step:
  "gw_step R g g' \<Longrightarrow> g_handlers g i = Some \<lparr>h_request = rq, h_state = Replied r\<rparr> \<Longrightarrow>
     g_handlers g' i = Some \<lparr>h_request = rq, h_state = Replied r\<rparr>"
  by (erule gw_step.cases)
    (auto simp: HandleSchedule_start_def HandleSchedule_result_def HandleSchedule_timeout_def Let_def
      respond_def give_back_frame send_result_frame
      split: sum.splits queue_error.splits option.splits prod.splits if_splits)

lemma replied_steps:
  "(gw_step R)\<^sup>*\<^sup>* g g' \<Longrightarrow> g_handlers g i = Some \<lparr>h_request = rq, h_state = Replied r\<rparr> \<Longrightarrow>
     g_handlers g' i = Some \<lparr>h_request = rq, h_state = Replied r\<rparr>"
  by (induction rule: rtranclp_induct) (auto intro: replied_step)

text \<open>
  C35. A request that is in nobody's hands is lost: in every continuation it is still in nobody's
  hands or its handler has replied 429. Capacity that frees later does not help it.
\<close>

theorem stranded_request_times_out:
  assumes "(gw_step R)\<^sup>*\<^sup>* (NewGateway rec (NewQueue cap) mem) g" and "stranded g i rq"
    and "(gw_step R)\<^sup>*\<^sup>* g g'"
  shows "stranded g' i rq \<or>
    (\<exists>r. g_handlers g' i = Some \<lparr>h_request = rq, h_state = Replied r\<rparr> \<and> rs_status r = 429)"
  using assms(3)
proof (induction rule: rtranclp_induct)
  case base
  with assms(2) show ?case by blast
next
  case (step g1 g2)
  have "gw_inv R g1" using gw_runs.steps_inv [OF step(1)] reachable_gw_inv [OF assms(1)] by blast
  with step stranded_step replied_step show ?case by metis
qed

section \<open>Concrete runs\<close>

text \<open>
  A production request that finds no node is parked; the queue has room for one request per
  class.
\<close>

definition demo_rq :: HttpRequest where
  "demo_rq = \<lparr>rq_method = ''POST'', rq_body = Inr demo_req\<rparr>"

definition demo_mem :: "nat \<Rightarrow> pendingRequest" where
  "demo_mem = (\<lambda>_. \<lparr>p_req = demo_req, resultCh = make_chan 1, cancelled = False\<rparr>)"

definition gw0 :: gateway where
  "gw0 = NewGateway NewReconciler (NewQueue 1) demo_mem"

definition parked_queue :: "nat list \<Rightarrow> nat \<Rightarrow> nat Queue" where
  "parked_queue ps cur = \<lparr>buckets = (\<lambda>_. [])(High := ps), capacity = 1, cursor = cur\<rparr>"

definition gw_at :: "nat Queue \<Rightarrow> nat list \<Rightarrow> drain_pc \<Rightarrow> gateway" where
  "gw_at q hs pc = \<lparr>g_reconciler = NewReconciler, g_queue = q, g_pending = demo_mem,
     g_handlers = (\<lambda>i. if i \<in> set hs then Some \<lparr>h_request = demo_rq, h_state = Waiting\<rparr> else None),
     g_drain = pc\<rparr>"

lemma no_nodes: "Schedule insertion_sort [] NewNodeRegistry demo_req = Inl NoHealthyNodes"
  "enumerates [] (nodes NewNodeRegistry)"
  by (code_simp, simp add: enumerates_def NewNodeRegistry_def)

lemma park_step:
  assumes "i \<notin> set hs"
  shows "gw_step UNIV (gw_at (parked_queue [] cur) hs pc) (gw_at (parked_queue [i] cur) (i # hs) pc)"
proof -
  let ?g = "gw_at (parked_queue [] cur) hs pc"
  have "gw_step UNIV ?g (HandleSchedule_start insertion_sort [] NewNodeRegistry i demo_rq ?g)"
    using assms go_insertion.slice_sorter_axioms no_nodes
    by (intro gw_step.request) (simp_all add: gw_at_def)
  moreover have "HandleSchedule_start insertion_sort [] NewNodeRegistry i demo_rq ?g =
      gw_at (parked_queue [i] cur) (i # hs) pc"
    using no_nodes(1)
    by (auto simp: HandleSchedule_start_def demo_rq_def gw_at_def parked_queue_def Admit_def Let_def
        classFor_def demo_req_def demo_mem_def fun_eq_iff)
  ultimately show ?thesis by simp
qed

lemma gw0_eq: "gw0 = gw_at (parked_queue [] 0) [] Parked"
  by (auto simp: gw0_def NewGateway_def gw_at_def parked_queue_def NewQueue_def fun_eq_iff)

lemma run_parked: "(gw_step UNIV)\<^sup>*\<^sup>* gw0 (gw_at (parked_queue [1] 0) [1] Parked)"
  unfolding gw0_eq by (rule r_into_rtranclp) (rule park_step, simp)

lemma take_step:
  "(gw_step UNIV)\<^sup>*\<^sup>* (gw_at (parked_queue [1] 0) [1] Parked) (gw_at (parked_queue [] 1) [1] (Took 0 1 High))"
proof -
  let ?g = "gw_at (parked_queue [1] 0) [1]"
  have "gw_step UNIV (?g Parked) (?g (Loop 1))"
    using gw_step.tick [of "?g Parked"] by (simp add: gw_at_def Len_def parked_queue_def)
  moreover have nx: "Next (parked_queue [1] 0) = (Some (1, High), parked_queue [] 1)"
    using scan_hit [of "parked_queue [1] 0" 1 "[]" 9]
    by (simp add: Next_def parked_queue_def weightSequence_def)
  have "gw_step UNIV (?g (Loop 1)) (gw_at (parked_queue [] 1) [1] (Took 0 1 High))"
    using gw_step.take_next [of "?g (Loop 1)" 0 1 High "parked_queue [] 1"] nx by (simp add: gw_at_def)
  ultimately show ?thesis by simp
qed

lemma run_took: "(gw_step UNIV)\<^sup>*\<^sup>* gw0 (gw_at (parked_queue [] 1) [1] (Took 0 1 High))"
  using run_parked take_step by (rule rtranclp_trans)

lemma trying_step: "gw_step UNIV (gw_at q hs (Took n p c)) (gw_at q hs (Trying n p c))"
  using gw_step.attempt [of "gw_at q hs (Took n p c)" n p c] by (simp add: gw_at_def demo_mem_def)

lemma outcomes: "outcome_of UNIV demo_req (Inl NoHealthyNodes)" "outcome_of UNIV demo_req (Inr demo_decision)"
  unfolding outcome_of_def
  using go_insertion.slice_sorter_axioms no_nodes demo_schedule(1) demo_enumerates(1) by blast+

lemma run_sending: "(gw_step UNIV)\<^sup>*\<^sup>* gw0 (gw_at (parked_queue [] 1) [1] (Sending 0 1 demo_decision))"
proof -
  let ?g = "gw_at (parked_queue [] 1) [1]"
  have "gw_step UNIV (?g (Trying 0 1 High)) (?g (Sending 0 1 demo_decision))"
    using gw_step.hit [of "?g (Trying 0 1 High)" 0 1 High UNIV demo_decision] outcomes(2)
    by (simp add: gw_at_def demo_mem_def)
  with run_took trying_step show ?thesis by (meson rtranclp.rtrancl_into_rtrancl)
qed

text \<open>
  The race: while the loop tries request 1, request 2 takes its place in the class; request 1
  is not put back, and the error is ignored.
\<close>

lemma stranded_run:
  "(gw_step UNIV)\<^sup>*\<^sup>* gw0 (gw_at (parked_queue [2] 1) [2, 1] (Loop 0))"
  "stranded (gw_at (parked_queue [2] 1) [2, 1] (Loop 0)) 1 demo_rq"
proof -
  let ?g = "gw_at (parked_queue [2] 1) [2, 1]"
  have "gw_step UNIV (gw_at (parked_queue [] 1) [1] (Took 0 1 High)) (?g (Took 0 1 High))"
    by (rule park_step) simp
  moreover have "gw_step UNIV (?g (Took 0 1 High)) (?g (Trying 0 1 High))" by (rule trying_step)
  moreover have "gw_step UNIV (?g (Trying 0 1 High)) (?g (Retrying 0 1 High))"
    using gw_step.miss [of "?g (Trying 0 1 High)" 0 1 High UNIV] outcomes(1)
    by (simp add: gw_at_def demo_mem_def)
  moreover have "gw_step UNIV (?g (Retrying 0 1 High)) (?g (Loop 0))"
    using gw_step.retry [of "?g (Retrying 0 1 High)" 0 1 High]
    by (simp add: gw_at_def give_back_def Admit_def parked_queue_def Let_def)
  ultimately show "(gw_step UNIV)\<^sup>*\<^sup>* gw0 (?g (Loop 0))"
    using run_took by (meson rtranclp.rtrancl_into_rtrancl)
  show "stranded (?g (Loop 0)) 1 demo_rq"
    by (auto simp: stranded_def gw_at_def inflight_def queued_def parked_queue_def demo_mem_def
        make_chan_def)
qed

subsection \<open>The properties at these runs\<close>

theorem gateway_at_most_once_witness:
  "awaited (gw_at (parked_queue [1] 0) [1] Parked) 1 \<and>
   \<not> inflight (gw_at (parked_queue [2] 1) [2, 1] Parked) 1 \<and>
   distinct (buckets (g_queue (gw_at (parked_queue [2] 1) [2, 1] (Loop 0))) High)"
proof -
  let ?g = "gw_at (parked_queue [2] 1) [2, 1]"
  have "inflight (gw_at (parked_queue [1] 0) [1] Parked) 1"
    by (auto simp: inflight_def queued_def gw_at_def parked_queue_def)
  moreover have "g_handlers (?g (Loop 0)) 1 \<noteq> None" "\<not> inflight (?g (Loop 0)) 1"
    using stranded_run(2) by (simp_all add: stranded_def)
  moreover have "(gw_step UNIV)\<^sup>*\<^sup>* (?g (Loop 0)) (?g Parked)"
    using gw_step.finish [of "?g (Loop 0)"] by (simp add: gw_at_def r_into_rtranclp)
  moreover note a = gateway_at_most_once [OF run_parked [unfolded gw0_def]]
    and b = gateway_at_most_once [OF stranded_run(1) [unfolded gw0_def]]
  ultimately have "awaited (gw_at (parked_queue [1] 0) [1] Parked) 1" "\<not> inflight (?g Parked) 1"
    using a [THEN conjunct2, THEN conjunct2, THEN conjunct1] b [THEN conjunct2, THEN conjunct2, THEN conjunct2]
    by blast+
  moreover have "distinct (buckets (g_queue (?g (Loop 0))) High)" using b [THEN conjunct1] by simp
  ultimately show ?thesis by blast
qed
theorem gateway_send_never_blocks_witness:
  "\<exists>g'. send_result 1 demo_decision (gw_at (parked_queue [] 1) [1] (Sending 0 1 demo_decision)) = Some g'"
  using gateway_send_never_blocks [OF run_sending [unfolded gw0_def], of 0 1 demo_decision]
  by (auto simp: gw_at_def)

text \<open>A request that is placed at once.\<close>

definition gw_placed :: gateway where
  "gw_placed = HandleSchedule_start insertion_sort demo_keys demo_reg 7 demo_rq gw0"

lemma run_placed: "(gw_step UNIV)\<^sup>*\<^sup>* gw0 gw_placed"
  unfolding gw_placed_def
  using go_insertion.slice_sorter_axioms demo_enumerates(1)
  by (intro r_into_rtranclp gw_step.request) (simp_all add: gw0_def NewGateway_def)

lemma gw_placed_handlers:
  "g_handlers gw_placed i = (if i = 7 then Some \<lparr>h_request = demo_rq,
     h_state = Replied (writeDecision 200 demo_decision)\<rparr> else None)"
  by (simp add: gw_placed_def HandleSchedule_start_def demo_rq_def demo_schedule(1) respond_def
      gw0_def NewGateway_def)

theorem desired_state_matches_replies_witness:
  "desired_models (g_reconciler gw_placed) ''a/g/full'' = {''x''}"
proof -
  have none: "desired_models NewReconciler k = {}" for k
    by (simp add: desired_models_def desired_def NewReconciler_def)
  show ?thesis
    unfolding desired_state_matches_replies [OF run_placed [unfolded gw0_def], of "''a/g/full''"] none
      gw_placed_handlers
    by (auto simp: demo_rq_def demo_req_def writeDecision_def demo_decision_def sliceKey_def slash_def
        split: if_splits)
qed

theorem gateway_replies_justified_witness:
  "\<exists>reg n s. (n, s) \<in> placements reg 100 \<and> decides demo_decision n s"
  using gateway_replies_justified [OF run_placed [unfolded gw0_def], of 7]
  by (auto simp: gw_placed_handlers writeDecision_def demo_rq_def)

lemma gw_parked_drains:
  "g_drain (gw_at (parked_queue [1] 0) [1] Parked) = Parked"
  "\<forall>n. enumerates ((\<lambda>_. demo_keys) n) (nodes demo_reg)"
  "queued (gw_at (parked_queue [1] 0) [1] Parked) p \<longleftrightarrow> p = 1"
  "\<not> cancelled (g_pending (gw_at (parked_queue [1] 0) [1] Parked) p)"
  using demo_enumerates(1)
  by (auto simp: gw_at_def queued_def parked_queue_def demo_mem_def split: if_splits)

theorem drain_once_implements_steps_witness:
  "\<exists>g'. drainOnce insertion_sort (\<lambda>_. demo_keys) demo_reg (gw_at (parked_queue [1] 0) [1] Parked) = Some g'
     \<and> (gw_step UNIV)\<^sup>*\<^sup>* (gw_at (parked_queue [1] 0) [1] Parked) g'"
  using drain_once_implements_steps [OF run_parked [unfolded gw0_def] gw_parked_drains(1)
      go_insertion.slice_sorter_axioms gw_parked_drains(2)] by blast

theorem drain_once_empties_witness:
  "\<exists>g' d. drainOnce insertion_sort (\<lambda>_. demo_keys) demo_reg (gw_at (parked_queue [1] 0) [1] Parked) = Some g'
     \<and> Len (g_queue g') = 0 \<and>
     ch_buf (resultCh (g_pending g' 1)) = [\<lparr>pr_decision = Some d, pr_err = None\<rparr>]"
proof -
  let ?g = "gw_at (parked_queue [1] 0) [1] Parked"
  have "placements demo_reg (VRAMNeededMiB demo_req) \<noteq> {}"
    using schedule_error [OF go_insertion.slice_sorter_axioms demo_enumerates(1), of demo_req]
    by (simp add: demo_schedule)
  then have "\<forall>p. queued ?g p \<longrightarrow> placements demo_reg (VRAMNeededMiB (p_req (g_pending ?g p))) \<noteq> {}"
    by (simp add: gw_at_def demo_mem_def)
  from drain_once_empties [OF run_parked [unfolded gw0_def] gw_parked_drains(1)
      go_insertion.slice_sorter_axioms gw_parked_drains(2) this]
  show ?thesis using gw_parked_drains(3,4) by blast
qed

theorem drain_once_conserves_witness:
  "\<exists>g'. drainOnce insertion_sort (\<lambda>_. []) NewNodeRegistry (gw_at (parked_queue [1] 0) [1] Parked) = Some g'
     \<and> queued g' 1"
proof -
  let ?g = "gw_at (parked_queue [1] 0) [1] Parked"
  have ord: "\<forall>n. enumerates ((\<lambda>_. []) n) (nodes NewNodeRegistry)" using no_nodes(2) by simp
  from drainOnce_run [OF reachable_gw_inv [OF run_parked [unfolded gw0_def]] gw_parked_drains(1)
      go_insertion.slice_sorter_axioms ord]
  obtain g' where d: "drainOnce insertion_sort (\<lambda>_. []) NewNodeRegistry ?g = Some g'" by blast
  have "placements NewNodeRegistry v = {}" for v
    by (simp add: placements_def healthy_nodes_def NewNodeRegistry_def)
  with drain_once_conserves [OF run_parked [unfolded gw0_def] gw_parked_drains(1)
      go_insertion.slice_sorter_axioms ord d]
  have "queued g' 1" using gw_parked_drains(3,4) by blast
  with d show ?thesis by blast
qed

theorem stranded_request_times_out_witness:
  "stranded (gw_at (parked_queue [2] 1) [2, 1] Parked) 1 demo_rq"
proof -
  let ?g = "gw_at (parked_queue [2] 1) [2, 1]"
  have "(gw_step UNIV)\<^sup>*\<^sup>* (?g (Loop 0)) (?g Parked)"
    using gw_step.finish [of "?g (Loop 0)"] by (simp add: gw_at_def r_into_rtranclp)
  from stranded_request_times_out [OF stranded_run(1) [unfolded gw0_def] stranded_run(2) this]
  show ?thesis by (simp add: gw_at_def)
qed

text \<open>
  One pass does not try every queued request: with a production request of 950 MiB and a batch
  request of 100 MiB in the queue and 900 MiB free, both attempts of the pass go to the
  production request, and the batch request, which fits, stays in the queue.
\<close>

definition big_req :: ScheduleRequest where
  "big_req = demo_req\<lparr>VRAMNeededMiB := 950\<rparr>"

definition two_parked :: gateway where
  "two_parked = (gw_at \<lparr>buckets = (\<lambda>_. [])(High := [1], Low := [2]), capacity = 50, cursor = 0\<rparr>
       [1, 2] Parked)\<lparr>g_pending := demo_mem(1 := \<lparr>p_req = big_req, resultCh = make_chan 1, cancelled = False\<rparr>)\<rparr>"

lemma drain_skips_fitting_request:
  "Schedule insertion_sort demo_keys demo_reg (p_req (g_pending two_parked 2)) = Inr demo_decision"
  "map_option (\<lambda>g'. (buckets (g_queue g') High, buckets (g_queue g') Low,
      length (ch_buf (resultCh (g_pending g' 2)))))
     (drainOnce insertion_sort (\<lambda>_. demo_keys) demo_reg two_parked) = Some ([1], [2], 0)"
  by code_simp+

text \<open>
  A pass places every request against the same free memory: two requests of 500 MiB are both
  promised the only GPU that has the weights, which has 900 MiB free.
\<close>

definition half_req :: ScheduleRequest where
  "half_req = demo_req\<lparr>VRAMNeededMiB := 500\<rparr>"

definition both_parked :: gateway where
  "both_parked = (gw_at \<lparr>buckets = (\<lambda>_. [])(High := [1, 2]), capacity = 50, cursor = 0\<rparr> [1, 2] Parked)
     \<lparr>g_pending := (\<lambda>_. \<lparr>p_req = half_req, resultCh = make_chan 1, cancelled = False\<rparr>)\<rparr>"

lemma drain_overcommits:
  "map_option (\<lambda>g'. (ch_buf (resultCh (g_pending g' 1)), ch_buf (resultCh (g_pending g' 2))))
     (drainOnce insertion_sort (\<lambda>_. demo_keys) demo_reg both_parked) =
   Some ([\<lparr>pr_decision = Some demo_decision, pr_err = None\<rparr>],
         [\<lparr>pr_decision = Some demo_decision, pr_err = None\<rparr>])"
  by code_simp

end
