(* ===== verification/Traffic_Analyzer.thy ===== *)
theory Traffic_Analyzer
  imports Prelude Float64
begin

text \<open>
  \<open>scheduler/traffic/traffic_analyzer.go\<close>: the rolling window of request times per model and
  the rate-limited prewarm signals. The two channels are part of the state; a sender that
  must not block uses \<open>try_send\<close>.
\<close>

section \<open>Events, signals, state\<close>

record RequestEvent =
  ev_ModelName :: string
  ev_Timestamp :: time

record PrewarmSignal =
  sig_ModelName :: string
  sig_Reason :: string

definition windowSize :: time where
  "windowSize = 5 * Minute"

definition prewarmThresholdRPM :: f64 where
  "prewarmThresholdRPM = Fin 5"

record TrafficAnalyzer =
  events :: "string \<rightharpoonup> time list"
  requests :: "RequestEvent chan"
  signals :: "PrewarmSignal chan"
  prewarmSent :: "string \<rightharpoonup> time"

definition NewTrafficAnalyzer ::
  "RequestEvent chan \<Rightarrow> PrewarmSignal chan \<Rightarrow> TrafficAnalyzer" where
  "NewTrafficAnalyzer reqs sigs =
     \<lparr>events = Map.empty, requests = reqs, signals = sigs, prewarmSent = Map.empty\<rparr>"

definition RecordRequest :: "time \<Rightarrow> string \<Rightarrow> RequestEvent chan \<Rightarrow> RequestEvent chan" where
  "RecordRequest now modelName ch =
     (case try_send \<lparr>ev_ModelName = modelName, ev_Timestamp = now\<rparr> ch of
        Some ch' \<Rightarrow> ch'
      | None \<Rightarrow> ch)"

definition recordEvent :: "RequestEvent \<Rightarrow> TrafficAnalyzer \<Rightarrow> TrafficAnalyzer" where
  "recordEvent evt t =
     t\<lparr>events := (events t)(ev_ModelName evt \<mapsto>
       (case events t (ev_ModelName evt) of None \<Rightarrow> [] | Some tss \<Rightarrow> tss) @ [ev_Timestamp evt])\<rparr>"

text \<open>
  The two readings of the clock are the one of \<open>time.Since\<close> and the one that is stored.
\<close>

definition maybeSignalPrewarm :: "time \<times> time \<Rightarrow> string \<Rightarrow> TrafficAnalyzer \<Rightarrow> TrafficAnalyzer" where
  "maybeSignalPrewarm clk modelName t =
     (let recently = (case prewarmSent t modelName of
            None \<Rightarrow> False
          | Some lastSent \<Rightarrow> fst clk - lastSent < windowSize)
      in if recently then t
         else let t1 = t\<lparr>prewarmSent := (prewarmSent t)(modelName \<mapsto> snd clk)\<rparr>;
                  sig = \<lparr>sig_ModelName = modelName, sig_Reason = ''rate exceeded threshold''\<rparr>
              in case try_send sig (signals t1) of
                   Some ch \<Rightarrow> t1\<lparr>signals := ch\<rparr>
                 | None \<Rightarrow> t1)"

text \<open>
  The body of the loop over the models, and the loop, over the order \<open>order\<close> in which the map
  is visited. \<open>now\<close> is the reading for the cutoff, \<open>clk m\<close> those made for model \<open>m\<close>. The
  in-place filter of the slice writes behind the position it reads, so it is a filter.
\<close>

definition analyze_model ::
  "time \<Rightarrow> (string \<Rightarrow> time \<times> time) \<Rightarrow> string \<Rightarrow> TrafficAnalyzer \<Rightarrow> TrafficAnalyzer" where
  "analyze_model cutoff clk model t =
     (case events t model of
        None \<Rightarrow> t
      | Some timestamps \<Rightarrow>
          let fresh = filter (\<lambda>ts. cutoff < ts) timestamps;
              t1 = t\<lparr>events := (events t)(model \<mapsto> fresh)\<rparr>
          in if fresh = [] then t1
             else let rpm = f64_rpm (length fresh) in
             if f64_ge rpm prewarmThresholdRPM then maybeSignalPrewarm (clk model) model t1
             else t1)"

definition analyze ::
  "string list \<Rightarrow> time \<Rightarrow> (string \<Rightarrow> time \<times> time) \<Rightarrow> TrafficAnalyzer \<Rightarrow> TrafficAnalyzer" where
  "analyze order now clk t =
     (let cutoff = now - windowSize in fold (analyze_model cutoff clk) order t)"

section \<open>One analysis\<close>

text \<open>When a model is due a signal: 25 fresh events, and none sent within the window.\<close>

definition fresh_events :: "TrafficAnalyzer \<Rightarrow> time \<Rightarrow> string \<Rightarrow> time list" where
  "fresh_events t cutoff m =
     (case events t m of None \<Rightarrow> [] | Some tss \<Rightarrow> filter (\<lambda>ts. cutoff < ts) tss)"

definition due :: "TrafficAnalyzer \<Rightarrow> time \<Rightarrow> (string \<Rightarrow> time \<times> time) \<Rightarrow> string \<Rightarrow> bool" where
  "due t cutoff clk m \<longleftrightarrow> 25 \<le> length (fresh_events t cutoff m) \<and>
     (case prewarmSent t m of None \<Rightarrow> True | Some s \<Rightarrow> windowSize \<le> fst (clk m) - s)"

definition prewarm_signal :: "string \<Rightarrow> PrewarmSignal" where
  "prewarm_signal m = \<lparr>sig_ModelName = m, sig_Reason = ''rate exceeded threshold''\<rparr>"

definition offer :: "'a \<Rightarrow> 'a chan \<Rightarrow> 'a chan" where
  "offer x ch = (case try_send x ch of Some ch' \<Rightarrow> ch' | None \<Rightarrow> ch)"

lemma offers:
  "ch_ok ch \<Longrightarrow> fold offer xs ch =
     ch\<lparr>ch_buf := ch_buf ch @ take (ch_cap ch - length (ch_buf ch)) xs\<rparr>"
proof (induction xs arbitrary: ch)
  case (Cons x xs)
  show ?case
  proof (cases "length (ch_buf ch) < ch_cap ch")
    case True
    let ?ch = "ch\<lparr>ch_buf := ch_buf ch @ [x]\<rparr>"
    have o: "offer x ch = ?ch" using True by (simp add: offer_def try_send_def)
    have "ch_ok ?ch" using True by (simp add: ch_ok_def)
    note IH = Cons.IH [OF this]
    have "ch_cap ch - length (ch_buf ch) = Suc (ch_cap ch - length (ch_buf ?ch))" using True by simp
    then show ?thesis using IH o by simp
  next
    case False
    with Cons.prems have "ch_cap ch - length (ch_buf ch) = 0" "offer x ch = ch"
      by (simp_all add: offer_def try_send_def)
    with Cons show ?thesis by simp
  qed
qed simp

lemma analyze_model_eq:
  "analyze_model cutoff clk m t =
     t\<lparr>events := (\<lambda>k. if k = m then map_option (filter (\<lambda>ts. cutoff < ts)) (events t m) else events t k),
       signals := (if due t cutoff clk m then offer (prewarm_signal m) (signals t) else signals t),
       prewarmSent := (if due t cutoff clk m then (prewarmSent t)(m \<mapsto> snd (clk m)) else prewarmSent t)\<rparr>"
proof (cases "events t m")
  case None
  then have "(\<lambda>k. if k = m then map_option (filter (\<lambda>ts. cutoff < ts)) (events t m) else events t k) = events t"
    by auto
  with None show ?thesis
    by (cases t) (simp add: analyze_model_def due_def fresh_events_def)
next
  case (Some tss)
  let ?fresh = "filter (\<lambda>ts. cutoff < ts) tss"
  have ev: "(\<lambda>k. if k = m then map_option (filter (\<lambda>ts. cutoff < ts)) (events t m) else events t k) =
      (events t)(m \<mapsto> ?fresh)" using Some by auto
  define rc where "rc \<longleftrightarrow>
    (case prewarmSent t m of None \<Rightarrow> False | Some s \<Rightarrow> fst (clk m) - s < windowSize)"
  have due: "due t cutoff clk m \<longleftrightarrow> 25 \<le> length ?fresh \<and> \<not> rc"
    using Some by (auto simp: due_def fresh_events_def rc_def split: option.split)
  have sig: "maybeSignalPrewarm (clk m) m (t\<lparr>events := e\<rparr>) = (if rc then t\<lparr>events := e\<rparr>
      else t\<lparr>events := e, signals := offer (prewarm_signal m) (signals t),
        prewarmSent := (prewarmSent t)(m \<mapsto> snd (clk m))\<rparr>)" for e
    by (cases t) (simp add: maybeSignalPrewarm_def Let_def rc_def offer_def prewarm_signal_def
        split: option.split)
  have "analyze_model cutoff clk m t = (if 25 \<le> length ?fresh
      then maybeSignalPrewarm (clk m) m (t\<lparr>events := (events t)(m \<mapsto> ?fresh)\<rparr>)
      else t\<lparr>events := (events t)(m \<mapsto> ?fresh)\<rparr>)"
    using Some by (auto simp: analyze_model_def Let_def prewarmThresholdRPM_def f64_rpm_ge_5)
  then show ?thesis unfolding ev sig due by simp
qed

text \<open>A model's turn depends on its own entries only, so the turns of a pass are independent.\<close>

lemma due_frame:
  assumes "m \<noteq> k"
  shows "due (analyze_model cutoff clk m t) cutoff clk k = due t cutoff clk k"
    and "events (analyze_model cutoff clk m t) k = events t k"
    and "prewarmSent (analyze_model cutoff clk m t) k = prewarmSent t k"
  using assms by (simp_all add: analyze_model_eq due_def fresh_events_def)

lemma analyze_fold:
  assumes "distinct order"
  shows "fold (analyze_model cutoff clk) order t =
    t\<lparr>events := (\<lambda>k. if k \<in> set order then map_option (filter (\<lambda>ts. cutoff < ts)) (events t k) else events t k),
      signals := fold offer (map prewarm_signal (filter (due t cutoff clk) order)) (signals t),
      prewarmSent := (\<lambda>k. if k \<in> set order \<and> due t cutoff clk k then Some (snd (clk k))
        else prewarmSent t k)\<rparr>"
  using assms
proof (induction order arbitrary: t)
  case (Cons m order)
  let ?t = "analyze_model cutoff clk m t"
  have neq: "\<And>k. k \<in> set order \<Longrightarrow> m \<noteq> k" using Cons.prems by auto
  have "filter (due ?t cutoff clk) order = filter (due t cutoff clk) order"
    using due_frame(1) neq by (intro filter_cong) auto
  moreover have "(\<lambda>k. if k \<in> set order then map_option (filter (\<lambda>ts. cutoff < ts)) (events ?t k) else events ?t k) =
      (\<lambda>k. if k \<in> set (m # order) then map_option (filter (\<lambda>ts. cutoff < ts)) (events t k) else events t k)"
    using Cons.prems due_frame(2) neq by (auto simp: fun_eq_iff analyze_model_eq)
  moreover have "(\<lambda>k. if k \<in> set order \<and> due ?t cutoff clk k then Some (snd (clk k)) else prewarmSent ?t k) =
      (\<lambda>k. if k \<in> set (m # order) \<and> due t cutoff clk k then Some (snd (clk k)) else prewarmSent t k)"
  proof
    fix k
    show "(if k \<in> set order \<and> due ?t cutoff clk k then Some (snd (clk k)) else prewarmSent ?t k) =
      (if k \<in> set (m # order) \<and> due t cutoff clk k then Some (snd (clk k)) else prewarmSent t k)"
      using Cons.prems due_frame(1,3) [of m k cutoff clk t]
      by (cases "k = m") (auto simp: analyze_model_eq)
  qed
  moreover have "signals ?t = (if due t cutoff clk m then offer (prewarm_signal m) (signals t) else signals t)"
    by (simp add: analyze_model_eq)
  ultimately show ?case using Cons.IH [of ?t] Cons.prems
    by (simp add: analyze_model_eq)
qed simp

text \<open>
  C38. One analysis, for every order in which the models are visited: it keeps exactly the events
  younger than the window, and it signals exactly the models that have at least 25 of them (5 per
  minute over 5 minutes, the floating-point test being exact) and were not signalled within the
  window. Their signals are queued in the order of the visits as far as the channel has room;
  the others are dropped, but all of them are recorded as sent.
\<close>

theorem analyze_exact:
  assumes "enumerates order (events t)" and "length (ch_buf (signals t)) \<le> ch_cap (signals t)"
  shows "let due_models = filter (due t (now - windowSize) clk) order;
             room = ch_cap (signals t) - length (ch_buf (signals t));
             t' = analyze order now clk t
         in events t' = (\<lambda>m. map_option (filter (\<lambda>ts. now - windowSize < ts)) (events t m)) \<and>
            ch_buf (signals t') = ch_buf (signals t) @ take room (map prewarm_signal due_models) \<and>
            prewarmSent t' = (\<lambda>m. if m \<in> set due_models then Some (snd (clk m)) else prewarmSent t m)"
proof -
  have mem: "events t k = None" if "k \<notin> set order" for k
    using that assms(1) by (auto simp: enumerates_def)
  have "(\<lambda>k. if k \<in> set order then map_option (filter (\<lambda>ts. now - windowSize < ts)) (events t k) else events t k) =
      (\<lambda>m. map_option (filter (\<lambda>ts. now - windowSize < ts)) (events t m))"
    using mem by (auto simp: fun_eq_iff)
  with assms(1) offers [of "signals t"] assms(2) show ?thesis
    by (simp add: analyze_def analyze_fold Let_def ch_ok_def)
qed

section \<open>Runs of the analyzer\<close>

text \<open>
  What happens to the analyzer: clients record requests, \<open>Run\<close> ingests one or analyzes on a
  tick, and the receiver takes signals. The stored reading of the clock is not before the one
  it is compared with.
\<close>

inductive ta_step :: "TrafficAnalyzer \<Rightarrow> TrafficAnalyzer \<Rightarrow> bool" where
  record_request: "ta_step t (t\<lparr>requests := RecordRequest now m (requests t)\<rparr>)"
| ingest: "recv (requests t) = Some (evt, ch) \<Longrightarrow> ta_step t (recordEvent evt (t\<lparr>requests := ch\<rparr>))"
| analysis: "enumerates order (events t) \<Longrightarrow> (\<And>m. fst (clk m) \<le> snd (clk m)) \<Longrightarrow>
    ta_step t (analyze order now clk t)"
| consume: "recv (signals t) = Some (sig, ch) \<Longrightarrow> ta_step t (t\<lparr>signals := ch\<rparr>)"

definition ta_ok :: "TrafficAnalyzer \<Rightarrow> bool" where
  "ta_ok t \<longleftrightarrow> ch_ok (requests t) \<and> ch_ok (signals t)"

lemma ch_ok_offers [keeps_inv]: "ch_ok ch \<Longrightarrow> ch_ok (fold offer xs ch)"
  by (induction xs arbitrary: ch) (auto simp: offer_def intro: ch_ok_try_send split: option.split)

lemma ch_ok_RecordRequest [keeps_inv]: "ch_ok ch \<Longrightarrow> ch_ok (RecordRequest now m ch)"
  by (auto simp: RecordRequest_def intro: ch_ok_try_send split: option.split)

lemma ta_ok_step [keeps_inv]: "ta_ok t \<Longrightarrow> ta_step t t' \<Longrightarrow> ta_ok t'"
  by (erule ta_step.cases)
    (auto simp: ta_ok_def recordEvent_def analyze_def analyze_fold Let_def
      intro: ch_ok_RecordRequest ch_ok_recv ch_ok_offers)

interpretation ta_runs: invariant_system
  "\<lambda>t. \<exists>n m. t = NewTrafficAnalyzer (make_chan n) (make_chan m)" ta_step ta_ok
proof unfold_locales
  show "ta_ok t" if "\<exists>n m. t = NewTrafficAnalyzer (make_chan n) (make_chan m)" for t
    using that by (auto simp: ta_ok_def NewTrafficAnalyzer_def)
qed (rule ta_ok_step)

lemma prewarmSent_step:
  assumes "ta_step t t'" and "prewarmSent t m = Some s"
  shows "\<exists>s'. prewarmSent t' m = Some s' \<and> (s' = s \<or> windowSize \<le> s' - s)"
  using assms(1)
proof cases
  case (analysis order clk now)
  have "prewarmSent t' m = (if m \<in> set order \<and> due t (now - windowSize) clk m
      then Some (snd (clk m)) else Some s)"
    using analysis assms(2) by (simp add: analyze_def analyze_fold Let_def)
  moreover have "windowSize \<le> snd (clk m) - s" if "due t (now - windowSize) clk m"
    using that assms(2) analysis(3) [of m] by (simp add: due_def)
  ultimately show ?thesis by (cases "m \<in> set order \<and> due t (now - windowSize) clk m") auto
qed (use assms(2) in \<open>auto simp: recordEvent_def\<close>)

text \<open>
  C39. Signals are rate limited: over any run, the times at which a model was last signalled are
  equal or at least a window of five minutes apart, and the channels never hold more than their
  capacity, so recording a request and signalling never block.
\<close>

theorem prewarm_rate_limited:
  assumes "ta_step\<^sup>*\<^sup>* (NewTrafficAnalyzer (make_chan n) (make_chan k)) t" and "ta_step\<^sup>*\<^sup>* t t'"
    and "prewarmSent t m = Some s" and "prewarmSent t' m = Some s'"
  shows "(s' = s \<or> 5 * 60 * 1000000000 \<le> s' - s) \<and> ch_ok (requests t') \<and> ch_ok (signals t')"
proof -
  have "\<exists>s'. prewarmSent t' m = Some s' \<and> (s' = s \<or> windowSize \<le> s' - s)"
    using assms(2)
  proof (induction rule: rtranclp_induct)
    case (step t1 t2)
    then obtain s1 where s1: "prewarmSent t1 m = Some s1" "s1 = s \<or> windowSize \<le> s1 - s" by blast
    from prewarmSent_step [OF step(2) s1(1)]
    obtain s2 where "prewarmSent t2 m = Some s2" "s2 = s1 \<or> windowSize \<le> s2 - s1" by blast
    with s1(2) show ?case by (auto simp: windowSize_def Minute_def Second_def)
  qed (use assms(3) in simp)
  moreover have "ta_ok t'" using ta_runs.reachable_inv [OF _ rtranclp_trans [OF assms(1,2)]] by blast
  ultimately show ?thesis
    using assms(4) by (auto simp: ta_ok_def windowSize_def Minute_def Second_def)
qed

text \<open>
  A dropped signal uses up the window: with the channel full the model counts as signalled, and
  no analysis within five minutes signals it again, whatever room the channel has by then.
\<close>

lemma dropped_signal_not_retried:
  assumes "due t cutoff clk m" and "length (ch_buf (signals t)) = ch_cap (signals t)"
  shows "signals (analyze_model cutoff clk m t) = signals t"
    and "prewarmSent (analyze_model cutoff clk m t) m = Some (snd (clk m))"
    and "prewarmSent t' m = Some (snd (clk m)) \<Longrightarrow> fst (clk' m) < snd (clk m) + windowSize \<Longrightarrow>
      \<not> due t' cutoff' clk' m"
  using assms by (simp_all add: analyze_model_eq offer_def try_send_def due_def)

section \<open>Concrete runs\<close>

text \<open>A model with 25 requests in the window, at the threshold but not above it.\<close>

definition demo_ta :: TrafficAnalyzer where
  "demo_ta = \<lparr>events = [''m'' \<mapsto> replicate 25 (400 * Second), ''n'' \<mapsto> [Second]],
     requests = make_chan 2, signals = make_chan 1, prewarmSent = Map.empty\<rparr>"

definition demo_clk :: "string \<Rightarrow> time \<times> time" where
  "demo_clk = (\<lambda>_. (401 * Second, 401 * Second))"

lemma demo_due: "filter (due demo_ta (400 * Second - windowSize) demo_clk) [''n'', ''m''] = [''m'']"
  by (simp add: due_def fresh_events_def demo_ta_def Second_def windowSize_def Minute_def)

theorem analyze_exact_witness:
  "ch_buf (signals (analyze [''n'', ''m''] (400 * Second) demo_clk demo_ta)) = [prewarm_signal ''m''] \<and>
   events (analyze [''n'', ''m''] (400 * Second) demo_clk demo_ta) ''n'' = Some []"
proof -
  have "enumerates [''n'', ''m''] (events demo_ta)"
    "length (ch_buf (signals demo_ta)) \<le> ch_cap (signals demo_ta)"
    by (auto simp: enumerates_def demo_ta_def make_chan_def)
  from analyze_exact [OF this, of "400 * Second" demo_clk, unfolded demo_due Let_def]
  show ?thesis
    by (simp add: demo_ta_def make_chan_def Second_def windowSize_def Minute_def)
qed

text \<open>25 recorded requests, an analysis, and a second one a minute later.\<close>

definition ta_ready :: TrafficAnalyzer where
  "ta_ready = fold recordEvent (replicate 25 \<lparr>ev_ModelName = ''m'', ev_Timestamp = Second\<rparr>)
     (NewTrafficAnalyzer (make_chan 25) (make_chan 1))"

definition clk_at :: "time \<Rightarrow> string \<Rightarrow> time \<times> time" where
  "clk_at t = (\<lambda>_. (t, t))"

lemma ingest_run:
  "ta_step\<^sup>*\<^sup>* t0 t \<Longrightarrow> requests t = make_chan (Suc c) \<Longrightarrow>
     ta_step\<^sup>*\<^sup>* t0 (fold recordEvent (replicate n \<lparr>ev_ModelName = m, ev_Timestamp = s\<rparr>) t)"
proof (induction n arbitrary: t)
  case (Suc n)
  let ?evt = "\<lparr>ev_ModelName = m, ev_Timestamp = s\<rparr>"
  let ?t1 = "t\<lparr>requests := RecordRequest s m (requests t)\<rparr>"
  have "ta_step t ?t1" by (rule ta_step.record_request)
  moreover have "ta_step ?t1 (recordEvent ?evt (?t1\<lparr>requests := requests t\<rparr>))"
    by (rule ta_step.ingest)
      (simp add: Suc.prems(2) RecordRequest_def make_chan_def try_send_def recv_def)
  moreover have "?t1\<lparr>requests := requests t\<rparr> = t" by simp
  ultimately have "ta_step\<^sup>*\<^sup>* t0 (recordEvent ?evt t)"
    using Suc.prems(1) by (metis rtranclp.rtrancl_into_rtrancl)
  with Suc.IH [of "recordEvent ?evt t"] Suc.prems(2) show ?case by (simp add: recordEvent_def)
qed simp

lemma ta_ready_eq: "ta_ready = \<lparr>events = [''m'' \<mapsto> replicate 25 Second], requests = make_chan 25,
    signals = make_chan 1, prewarmSent = Map.empty\<rparr>"
  by (simp add: ta_ready_def eval_nat_numeral recordEvent_def NewTrafficAnalyzer_def)

theorem prewarm_rate_limited_witness:
  "\<exists>(t :: TrafficAnalyzer) (t' :: TrafficAnalyzer). prewarmSent t ''m'' = Some (60 * Second) \<and> prewarmSent t' ''m'' = Some (60 * Second) \<and>
     ch_ok (signals t')"
proof -
  let ?t = "analyze [''m''] (60 * Second) (clk_at (60 * Second)) ta_ready"
  let ?t' = "analyze [''m''] (120 * Second) (clk_at (120 * Second)) ?t"
  let ?init = "NewTrafficAnalyzer (make_chan 25) (make_chan 1)"
  have "ta_step\<^sup>*\<^sup>* ?init ta_ready"
    unfolding ta_ready_def using ingest_run [of ?init ?init 24 25 "''m''" Second]
    by (simp add: NewTrafficAnalyzer_def)
  moreover have s1: "ta_step ta_ready ?t"
    by (rule ta_step.analysis) (simp_all add: ta_ready_eq enumerates_def clk_at_def)
  ultimately have r: "ta_step\<^sup>*\<^sup>* ?init ?t" by (rule rtranclp.rtrancl_into_rtrancl)
  have "dom (events ?t) = {''m''}"
    by (auto simp: analyze_def analyze_model_eq ta_ready_eq Let_def split: if_splits)
  then have s2: "ta_step ?t ?t'"
    by (intro ta_step.analysis) (simp_all add: enumerates_def clk_at_def)
  have p: "prewarmSent ?t ''m'' = Some (60 * Second)"
    by (simp add: analyze_def analyze_model_eq ta_ready_eq Let_def due_def fresh_events_def clk_at_def
        Second_def windowSize_def Minute_def)
  have one: "prewarmSent (analyze [''m''] now clk t) ''m'' =
      (if due t (now - windowSize) clk ''m'' then Some (snd (clk ''m'')) else prewarmSent t ''m'')" for now clk t
    by (simp add: analyze_def analyze_model_eq Let_def)
  have "\<not> due ?t cutoff (clk_at (120 * Second)) ''m''" for cutoff
    using p by (simp add: due_def clk_at_def Second_def windowSize_def Minute_def)
  then have p': "prewarmSent ?t' ''m'' = Some (60 * Second)" unfolding one [of "120 * Second"] using p by simp
  from prewarm_rate_limited [OF r r_into_rtranclp [where r = ta_step, OF s2] p p'] p p'
  show ?thesis by blast
qed

end
