(* ===== verification/Model_Cache.thy ===== *)
theory Model_Cache
  imports Prelude Float64
begin

text \<open>
  \<open>scheduler/cache/model_cache.go\<close>: which node holds the weights of which model. The lists of
  the map hold pointers, and \<open>WarmNodes\<close> hands the pointers out, so the entries live in an
  explicit store: \<open>store a\<close> is the entry at address \<open>a\<close>, and addresses from \<open>brk\<close> on are free.
\<close>

section \<open>The cache\<close>

record ModelCacheEntry =
  e_NodeID :: string
  e_GPUID :: string
  e_ModelName :: string
  e_SizeMiB :: i64
  e_LastUsed :: time
  e_DownloadDurationSec :: f64

definition AffinityWaitThresholdSec :: f64 where
  "AffinityWaitThresholdSec = Fin 120"

record ModelCache =
  entries :: "string \<rightharpoonup> nat list"
  store :: "nat \<Rightarrow> ModelCacheEntry"
  brk :: nat

definition NewModelCache :: "(nat \<Rightarrow> ModelCacheEntry) \<Rightarrow> ModelCache" where
  "NewModelCache mem = \<lparr>entries = Map.empty, store = mem, brk = 0\<rparr>"

text \<open>Indexing a missing key gives the nil slice.\<close>

definition entries_of :: "ModelCache \<Rightarrow> string \<Rightarrow> nat list" where
  "entries_of c m = (case entries c m of None \<Rightarrow> [] | Some ps \<Rightarrow> ps)"

definition is_at :: "string \<Rightarrow> string \<Rightarrow> ModelCacheEntry \<Rightarrow> bool" where
  "is_at nodeID gpuID e \<longleftrightarrow> e_NodeID e = nodeID \<and> e_GPUID e = gpuID"

definition Register ::
  "time \<Rightarrow> string \<Rightarrow> string \<Rightarrow> string \<Rightarrow> i64 \<Rightarrow> f64 \<Rightarrow> ModelCache \<Rightarrow> ModelCache" where
  "Register now nodeID gpuID modelName sizeMiB downloadDur c =
     (let key = modelName in
      case find (\<lambda>p. is_at nodeID gpuID (store c p)) (entries_of c key) of
        Some p \<Rightarrow>
          c\<lparr>store := (store c)(p := (store c p)
               \<lparr>e_LastUsed := now, e_DownloadDurationSec := downloadDur\<rparr>)\<rparr>
      | None \<Rightarrow>
          c\<lparr>entries := (entries c)(key \<mapsto> entries_of c key @ [brk c]),
            store := (store c)(brk c := \<lparr>e_NodeID = nodeID, e_GPUID = gpuID, e_ModelName = modelName,
              e_SizeMiB = sizeMiB, e_LastUsed = now, e_DownloadDurationSec = downloadDur\<rparr>),
            brk := Suc (brk c)\<rparr>)"

definition EvictEntry :: "string \<Rightarrow> string \<Rightarrow> string \<Rightarrow> ModelCache \<Rightarrow> ModelCache" where
  "EvictEntry nodeID gpuID modelName c =
     (let filtered = filter (\<lambda>p. e_NodeID (store c p) \<noteq> nodeID \<or> e_GPUID (store c p) \<noteq> gpuID)
            (entries_of c modelName)
      in c\<lparr>entries := (entries c)(modelName \<mapsto> filtered)\<rparr>)"

definition WarmNodes :: "ModelCache \<Rightarrow> string \<Rightarrow> nat list" where
  "WarmNodes c modelName = entries_of c modelName"

definition ShouldPreferAffinity :: "ModelCache \<Rightarrow> string \<Rightarrow> bool" where
  "ShouldPreferAffinity c modelName =
     list_ex (\<lambda>p. f64_ge (e_DownloadDurationSec (store c p)) AffinityWaitThresholdSec)
       (entries_of c modelName)"

definition TouchNode :: "time \<Rightarrow> string \<Rightarrow> string \<Rightarrow> string \<Rightarrow> ModelCache \<Rightarrow> ModelCache" where
  "TouchNode now nodeID gpuID modelName c =
     (case find (\<lambda>p. is_at nodeID gpuID (store c p)) (entries_of c modelName) of
        Some p \<Rightarrow> c\<lparr>store := (store c)(p := (store c p)\<lparr>e_LastUsed := now\<rparr>)\<rparr>
      | None \<Rightarrow> c)"

section \<open>The cache as a map\<close>

text \<open>What is cached for a model on a GPU.\<close>

definition cached :: "ModelCache \<Rightarrow> string \<Rightarrow> string \<Rightarrow> string \<Rightarrow> ModelCacheEntry option" where
  "cached c m nid gid = map_option (store c) (find (\<lambda>p. is_at nid gid (store c p)) (entries_of c m))"

text \<open>
  Well-formed caches: the lists point to allocated entries of their own model, no GPU has two
  entries for a model.
\<close>

definition cache_ok :: "ModelCache \<Rightarrow> bool" where
  "cache_ok c \<longleftrightarrow> (\<forall>m. (\<forall>p \<in> set (entries_of c m). p < brk c \<and> e_ModelName (store c p) = m) \<and>
     distinct (entries_of c m) \<and>
     inj_on (\<lambda>p. (e_NodeID (store c p), e_GPUID (store c p))) (set (entries_of c m)))"

lemma cache_okD:
  assumes "cache_ok c" and "p \<in> set (entries_of c m)"
  shows "p < brk c" and "e_ModelName (store c p) = m" and "distinct (entries_of c m)"
    and "q \<in> set (entries_of c m) \<Longrightarrow> e_NodeID (store c p) = e_NodeID (store c q) \<Longrightarrow>
      e_GPUID (store c p) = e_GPUID (store c q) \<Longrightarrow> p = q"
  using assms unfolding cache_ok_def inj_on_def by blast+

lemma cache_ok_inj:
  "cache_ok c \<Longrightarrow> inj_on (\<lambda>p. (e_NodeID (store c p), e_GPUID (store c p))) (set (entries_of c m))"
  by (simp add: cache_ok_def)

lemma find_Some_mem: "find P xs = Some x \<Longrightarrow> x \<in> set xs \<and> P x"
  by (auto simp: find_Some_iff)

lemma cached_Some:
  assumes "cache_ok c"
  shows "cached c m nid gid = Some e \<longleftrightarrow>
    (\<exists>p \<in> set (entries_of c m). store c p = e \<and> is_at nid gid e)"
proof
  assume "cached c m nid gid = Some e"
  then show "\<exists>p \<in> set (entries_of c m). store c p = e \<and> is_at nid gid e"
    by (auto simp: cached_def dest!: find_Some_mem)
next
  assume "\<exists>p \<in> set (entries_of c m). store c p = e \<and> is_at nid gid e"
  then obtain p where p: "p \<in> set (entries_of c m)" "store c p = e" "is_at nid gid e" by blast
  then obtain q where q: "find (\<lambda>p. is_at nid gid (store c p)) (entries_of c m) = Some q"
    by (metis (no_types, lifting) find_None_iff not_None_eq)
  with p find_Some_mem [OF q] cache_okD(4) [OF assms p(1), of q] show "cached c m nid gid = Some e"
    by (auto simp: cached_def is_at_def)
qed

lemma cached_None:
  "cached c m nid gid = None \<longleftrightarrow> (\<forall>p \<in> set (entries_of c m). \<not> is_at nid gid (store c p))"
  by (auto simp: cached_def find_None_iff)

lemma cached_eqI:
  assumes "cache_ok c" and "\<And>e. (\<exists>p \<in> set (entries_of c m). store c p = e \<and> is_at nid gid e) \<longleftrightarrow> x = Some e"
  shows "cached c m nid gid = x"
proof -
  have eq: "cached c m nid gid = Some e \<longleftrightarrow> x = Some e" for e
    using assms(2) cached_Some [OF assms(1), of m nid gid] by simp
  show ?thesis
  proof (cases x)
    case None
    with eq show ?thesis by (metis not_Some_eq)
  qed (simp add: eq)
qed

text \<open>The three writers keep the lists well formed.\<close>

lemma cache_ok_update [keeps_inv]:
  assumes "cache_ok c" and "e_NodeID e = e_NodeID (store c p)" and "e_GPUID e = e_GPUID (store c p)"
    and "e_ModelName e = e_ModelName (store c p)"
  shows "cache_ok (c\<lparr>store := (store c)(p := e)\<rparr>)"
proof -
  have "e_NodeID (((store c)(p := e)) q) = e_NodeID (store c q)"
    "e_GPUID (((store c)(p := e)) q) = e_GPUID (store c q)"
    "e_ModelName (((store c)(p := e)) q) = e_ModelName (store c q)" for q
    using assms(2-4) by simp_all
  with assms(1) show ?thesis by (simp add: cache_ok_def entries_of_def del: fun_upd_apply)
qed

lemma cache_ok_insert [keeps_inv]:
  assumes ok: "cache_ok c" and new: "\<forall>p \<in> set (entries_of c m). \<not> is_at (e_NodeID e) (e_GPUID e) (store c p)"
    and m: "e_ModelName e = m"
  shows "cache_ok (c\<lparr>entries := (entries c)(m \<mapsto> entries_of c m @ [brk c]),
    store := (store c)(brk c := e), brk := Suc (brk c)\<rparr>)" (is "cache_ok ?c")
proof -
  have old: "store ?c p = store c p" "p \<noteq> brk c" if "p \<in> set (entries_of c k)" for p k
    using cache_okD(1) [OF ok that] by auto
  have ents: "entries_of ?c k = (if k = m then entries_of c m @ [brk c] else entries_of c k)" for k
    by (simp add: entries_of_def)
  show ?thesis
    unfolding cache_ok_def
  proof (intro allI conjI ballI)
    fix k p assume p: "p \<in> set (entries_of ?c k)"
    show "p < brk ?c" "e_ModelName (store ?c p) = k"
      using p ents [of k] old [of p k] cache_okD(1,2) [OF ok, of p k] m
      by (auto split: if_splits)
  next
    fix k
    show "distinct (entries_of ?c k)"
      using ok old(2) by (auto simp: ents cache_ok_def)
    show "inj_on (\<lambda>p. (e_NodeID (store ?c p), e_GPUID (store ?c p))) (set (entries_of ?c k))"
    proof (cases "k = m")
      case True
      have inj: "inj_on (\<lambda>p. (e_NodeID (store c p), e_GPUID (store c p))) (set (entries_of c m))"
        using ok by (simp add: cache_ok_def)
      have "inj_on (\<lambda>p. (e_NodeID (store ?c p), e_GPUID (store ?c p))) (set (entries_of c m))"
        by (rule inj_on_cong [THEN iffD1, OF _ inj]) (simp only: old(1))
      moreover have "(e_NodeID (store ?c (brk c)), e_GPUID (store ?c (brk c))) \<noteq>
          (e_NodeID (store ?c p), e_GPUID (store ?c p))" if "p \<in> set (entries_of c m)" for p
        using new that old(1) [OF that] by (auto simp: is_at_def)
      ultimately have "inj_on (\<lambda>p. (e_NodeID (store ?c p), e_GPUID (store ?c p)))
          (insert (brk c) (set (entries_of c m)))"
        unfolding inj_on_insert by blast
      moreover have "set (entries_of ?c k) = insert (brk c) (set (entries_of c m))"
        using True by (auto simp: ents)
      ultimately show ?thesis by (simp only:)
    next
      case False
      have "inj_on (\<lambda>p. (e_NodeID (store c p), e_GPUID (store c p))) (set (entries_of c k))"
        using ok by (simp add: cache_ok_def)
      then have "inj_on (\<lambda>p. (e_NodeID (store ?c p), e_GPUID (store ?c p))) (set (entries_of c k))"
        by (rule inj_on_cong [THEN iffD1, rotated]) (simp only: old(1))
      moreover have "entries_of ?c k = entries_of c k" using False by (simp add: ents)
      ultimately show ?thesis by (simp only:)
    qed
  qed
qed

lemma cache_ok_filter [keeps_inv]:
  assumes "cache_ok c"
  shows "cache_ok (c\<lparr>entries := (entries c)(m \<mapsto> filter P (entries_of c m))\<rparr>)"
proof -
  let ?c = "c\<lparr>entries := (entries c)(m \<mapsto> filter P (entries_of c m))\<rparr>"
  have ents: "entries_of ?c k = (if k = m then filter P (entries_of c m) else entries_of c k)" for k
    by (simp add: entries_of_def)
  have "set (entries_of ?c k) \<subseteq> set (entries_of c k)" "distinct (entries_of ?c k)" for k
    using assms by (auto simp: ents cache_ok_def)
  note sub = this
  show ?thesis
    unfolding cache_ok_def
  proof (intro allI conjI ballI)
    fix k p assume "p \<in> set (entries_of ?c k)"
    with sub(1) have "p \<in> set (entries_of c k)" by blast
    with cache_okD(1,2) [OF assms] show "p < brk ?c" "e_ModelName (store ?c p) = k" by simp_all
  next
    fix k
    show "distinct (entries_of ?c k)" by (rule sub(2))
    show "inj_on (\<lambda>p. (e_NodeID (store ?c p), e_GPUID (store ?c p))) (set (entries_of ?c k))"
      using inj_on_subset [OF cache_ok_inj [OF assms] sub(1)] by simp
  qed
qed

section \<open>What the operations do\<close>

lemma entries_of_store [simp]:
  "entries_of (c\<lparr>store := st\<rparr>) m = entries_of c m"
  "entries_of (c\<lparr>brk := n\<rparr>) m = entries_of c m"
  by (simp_all add: entries_of_def)

lemma entries_of_upd [simp]:
  "entries_of (c\<lparr>entries := (entries c)(m \<mapsto> ps)\<rparr>) k = (if k = m then ps else entries_of c k)"
  by (simp add: entries_of_def)

text \<open>Updating the use of an entry in place.\<close>

definition used :: "ModelCacheEntry \<Rightarrow> ModelCacheEntry \<Rightarrow> bool" where
  "used e e' \<longleftrightarrow> e_NodeID e' = e_NodeID e \<and> e_GPUID e' = e_GPUID e \<and> e_ModelName e' = e_ModelName e \<and>
     e_SizeMiB e' = e_SizeMiB e"

lemma cached_update:
  assumes ok: "cache_ok c" and p: "p \<in> set (entries_of c m)" and u: "used (store c p) e"
  shows "cached (c\<lparr>store := (store c)(p := e)\<rparr>) k nid gid =
    (if k = m \<and> is_at nid gid e then Some e else cached c k nid gid)"
proof (rule cached_eqI)
  show "cache_ok (c\<lparr>store := (store c)(p := e)\<rparr>)"
    using ok u by (intro cache_ok_update) (simp_all add: used_def)
  fix x
  have other: "q \<noteq> p" if "q \<in> set (entries_of c k)" "k \<noteq> m" for q k
    using cache_okD(2) [OF ok that(1)] cache_okD(2) [OF ok p] that(2) by auto
  have same: "is_at nid gid (store c p) \<longleftrightarrow> is_at nid gid e" using u by (simp add: is_at_def used_def)
  have uniq: "q = p" if "q \<in> set (entries_of c m)" "is_at nid gid (store c q)" "is_at nid gid e" for q
    using cache_okD(4) [OF ok that(1) p] that same by (simp add: is_at_def)
  show "(\<exists>q \<in> set (entries_of (c\<lparr>store := (store c)(p := e)\<rparr>) k).
      store (c\<lparr>store := (store c)(p := e)\<rparr>) q = x \<and> is_at nid gid x) \<longleftrightarrow>
    (if k = m \<and> is_at nid gid e then Some e else cached c k nid gid) = Some x"
  proof (cases "k = m \<and> is_at nid gid e")
    case True
    with p uniq show ?thesis by auto
  next
    case False
    have "(\<exists>q \<in> set (entries_of c k). ((store c)(p := e)) q = x \<and> is_at nid gid x) \<longleftrightarrow>
        (\<exists>q \<in> set (entries_of c k). store c q = x \<and> is_at nid gid x)"
      using False other [of _ k] same by (metis fun_upd_apply)
    with False show ?thesis by (auto simp: cached_Some [OF ok])
  qed
qed

lemma Register_cases:
  obtains (update) p where "p \<in> set (entries_of c m)" "is_at nid gid (store c p)"
      "Register now nid gid m sz dur c = c\<lparr>store := (store c)(p := (store c p)
         \<lparr>e_LastUsed := now, e_DownloadDurationSec := dur\<rparr>)\<rparr>"
  | (insert) "\<forall>p \<in> set (entries_of c m). \<not> is_at nid gid (store c p)"
      "Register now nid gid m sz dur c =
         c\<lparr>entries := (entries c)(m \<mapsto> entries_of c m @ [brk c]),
           store := (store c)(brk c := \<lparr>e_NodeID = nid, e_GPUID = gid, e_ModelName = m,
              e_SizeMiB = sz, e_LastUsed = now, e_DownloadDurationSec = dur\<rparr>),
           brk := Suc (brk c)\<rparr>"
proof (cases "find (\<lambda>p. is_at nid gid (store c p)) (entries_of c m)")
  case None
  then have "\<forall>p \<in> set (entries_of c m). \<not> is_at nid gid (store c p)" by (simp add: find_None_iff)
  with None show ?thesis using insert by (simp add: Register_def)
next
  case (Some p)
  with find_Some_mem [OF Some] show ?thesis using update [of p] by (simp add: Register_def)
qed

lemma cache_ok_Register [keeps_inv]: "cache_ok c \<Longrightarrow> cache_ok (Register now nid gid m sz dur c)"
proof (cases rule: Register_cases [where c = c and m = m and nid = nid and gid = gid and now = now
      and sz = sz and dur = dur])
  case (update p)
  assume "cache_ok c"
  with update show ?thesis by (simp add: cache_ok_update)
next
  case insert
  assume "cache_ok c"
  with insert show ?thesis by (simp add: cache_ok_insert)
qed

lemma TouchNode_cases:
  obtains (update) p where "p \<in> set (entries_of c m)" "is_at nid gid (store c p)"
      "TouchNode now nid gid m c = c\<lparr>store := (store c)(p := (store c p)\<lparr>e_LastUsed := now\<rparr>)\<rparr>"
  | (absent) "\<forall>p \<in> set (entries_of c m). \<not> is_at nid gid (store c p)" "TouchNode now nid gid m c = c"
proof (cases "find (\<lambda>p. is_at nid gid (store c p)) (entries_of c m)")
  case None
  then have "\<forall>p \<in> set (entries_of c m). \<not> is_at nid gid (store c p)" by (simp add: find_None_iff)
  with None show ?thesis using absent by (simp add: TouchNode_def)
next
  case (Some p)
  with find_Some_mem [OF Some] show ?thesis using update [of p] by (simp add: TouchNode_def)
qed

lemma cache_ok_TouchNode [keeps_inv]: "cache_ok c \<Longrightarrow> cache_ok (TouchNode now nid gid m c)"
proof (cases rule: TouchNode_cases [where c = c and m = m and nid = nid and gid = gid and now = now])
  case (update p)
  assume "cache_ok c"
  with update show ?thesis by (simp add: cache_ok_update)
qed simp

lemma cache_ok_Evict [keeps_inv]: "cache_ok c \<Longrightarrow> cache_ok (EvictEntry nid gid m c)"
  by (simp add: EvictEntry_def cache_ok_filter)

inductive cache_step :: "ModelCache \<Rightarrow> ModelCache \<Rightarrow> bool" where
  register: "cache_step c (Register now nid gid m sz dur c)"
| evict: "cache_step c (EvictEntry nid gid m c)"
| touch: "cache_step c (TouchNode now nid gid m c)"

lemma cache_ok_step: "cache_ok c \<Longrightarrow> cache_step c c' \<Longrightarrow> cache_ok c'"
  by (erule cache_step.cases) (simp_all add: keeps_inv)

interpretation cache_runs: invariant_system "\<lambda>c. \<exists>mem. c = NewModelCache mem" cache_step cache_ok
proof unfold_locales
  show "cache_ok c" if "\<exists>mem. c = NewModelCache mem" for c
    using that by (auto simp: cache_ok_def NewModelCache_def entries_of_def)
qed (rule cache_ok_step)

section \<open>The cache refines a map\<close>

lemma cached_Register:
  assumes ok: "cache_ok c"
  shows "cached (Register now nid gid m sz dur c) k n g =
    (if k = m \<and> n = nid \<and> g = gid
     then Some \<lparr>e_NodeID = nid, e_GPUID = gid, e_ModelName = m,
       e_SizeMiB = (case cached c m nid gid of None \<Rightarrow> sz | Some e \<Rightarrow> e_SizeMiB e),
       e_LastUsed = now, e_DownloadDurationSec = dur\<rparr>
     else cached c k n g)"
proof (cases rule: Register_cases [where c = c and m = m and nid = nid and gid = gid and now = now
      and sz = sz and dur = dur])
  case (update p)
  let ?e = "(store c p)\<lparr>e_LastUsed := now, e_DownloadDurationSec := dur\<rparr>"
  have c: "cached c m nid gid = Some (store c p)"
    using update(1,2) by (simp add: cached_Some [OF ok]) blast
  have "?e = \<lparr>e_NodeID = nid, e_GPUID = gid, e_ModelName = m, e_SizeMiB = e_SizeMiB (store c p),
      e_LastUsed = now, e_DownloadDurationSec = dur\<rparr>"
    using update(2) cache_okD(2) [OF ok update(1)] by (cases "store c p") (simp add: is_at_def)
  moreover have "cached (Register now nid gid m sz dur c) k n g =
      (if k = m \<and> is_at n g ?e then Some ?e else cached c k n g)"
    unfolding update(3) by (rule cached_update [OF ok update(1)]) (simp add: used_def)
  ultimately show ?thesis using update(2) by (auto simp: c is_at_def)
next
  case insert
  let ?e = "\<lparr>e_NodeID = nid, e_GPUID = gid, e_ModelName = m, e_SizeMiB = sz, e_LastUsed = now,
    e_DownloadDurationSec = dur\<rparr>"
  have none: "cached c m nid gid = None" using insert(1) by (simp add: cached_None)
  have old: "q \<noteq> brk c" if "q \<in> set (entries_of c k)" for q k
    using cache_okD(1) [OF ok that] by simp
  have "cached (Register now nid gid m sz dur c) k n g =
      (if k = m \<and> n = nid \<and> g = gid then Some ?e else cached c k n g)"
  proof (rule cached_eqI)
    show "cache_ok (Register now nid gid m sz dur c)" using ok by (rule cache_ok_Register)
    fix x
    show "(\<exists>p \<in> set (entries_of (Register now nid gid m sz dur c) k).
        store (Register now nid gid m sz dur c) p = x \<and> is_at n g x) \<longleftrightarrow>
      (if k = m \<and> n = nid \<and> g = gid then Some ?e else cached c k n g) = Some x"
      unfolding insert(2) using old none
      by (auto simp: entries_of_def [of "_\<lparr>entries := _, store := _, brk := _\<rparr>"] is_at_def
          cached_Some [OF ok] cached_None split: if_splits)
  qed
  with none show ?thesis by simp
qed

lemma cached_TouchNode:
  assumes ok: "cache_ok c"
  shows "cached (TouchNode now nid gid m c) k n g =
    (if k = m \<and> n = nid \<and> g = gid then map_option (\<lambda>e. e\<lparr>e_LastUsed := now\<rparr>) (cached c m nid gid)
     else cached c k n g)"
proof (cases rule: TouchNode_cases [where c = c and m = m and nid = nid and gid = gid and now = now])
  case (update p)
  let ?e = "(store c p)\<lparr>e_LastUsed := now\<rparr>"
  have c: "cached c m nid gid = Some (store c p)"
    using update(1,2) by (simp add: cached_Some [OF ok]) blast
  have "cached (TouchNode now nid gid m c) k n g =
      (if k = m \<and> is_at n g ?e then Some ?e else cached c k n g)"
    unfolding update(3) by (rule cached_update [OF ok update(1)]) (simp add: used_def)
  then show ?thesis using update(2) by (auto simp: c is_at_def)
next
  case absent
  then have "cached c m nid gid = None" by (simp add: cached_None)
  with absent(2) show ?thesis by simp
qed

lemma cached_Evict:
  assumes ok: "cache_ok c"
  shows "cached (EvictEntry nid gid m c) k n g =
    (if k = m \<and> n = nid \<and> g = gid then None else cached c k n g)"
proof (rule cached_eqI)
  show "cache_ok (EvictEntry nid gid m c)" using ok by (rule cache_ok_Evict)
  fix x
  show "(\<exists>p \<in> set (entries_of (EvictEntry nid gid m c) k).
      store (EvictEntry nid gid m c) p = x \<and> is_at n g x) \<longleftrightarrow>
    (if k = m \<and> n = nid \<and> g = gid then None else cached c k n g) = Some x"
    by (auto simp: EvictEntry_def is_at_def cached_Some [OF ok])
qed

text \<open>
  C40. The cache is a map from model, node and GPU to an entry: in every reachable cache,
  \<open>Register\<close> adds the entry or refreshes its use and download time (an existing entry keeps the
  size it was first registered with), \<open>Evict\<close> removes exactly that entry, \<open>TouchNode\<close> refreshes
  only its use, and \<open>ShouldPreferAffinity\<close> tells whether some entry of the model took at least
  120 seconds to download.
\<close>

theorem cache_refines_map:
  assumes "cache_step\<^sup>*\<^sup>* (NewModelCache mem) c"
  shows "cached (Register now nid gid m sz dur c) = (\<lambda>k n g. if k = m \<and> n = nid \<and> g = gid
      then Some \<lparr>e_NodeID = nid, e_GPUID = gid, e_ModelName = m,
        e_SizeMiB = (case cached c m nid gid of None \<Rightarrow> sz | Some e \<Rightarrow> e_SizeMiB e),
        e_LastUsed = now, e_DownloadDurationSec = dur\<rparr> else cached c k n g) \<and>
    cached (EvictEntry nid gid m c) = (\<lambda>k n g. if k = m \<and> n = nid \<and> g = gid then None else cached c k n g) \<and>
    cached (TouchNode now nid gid m c) = (\<lambda>k n g. if k = m \<and> n = nid \<and> g = gid
      then map_option (\<lambda>e. e\<lparr>e_LastUsed := now\<rparr>) (cached c m nid gid) else cached c k n g) \<and>
    (ShouldPreferAffinity c m \<longleftrightarrow>
      (\<exists>n g e. cached c m n g = Some e \<and> f64_ge (e_DownloadDurationSec e) (Fin 120)))"
proof -
  have ok: "cache_ok c" using cache_runs.reachable_inv [OF _ assms] by blast
  have "ShouldPreferAffinity c m \<longleftrightarrow>
      (\<exists>n g e. cached c m n g = Some e \<and> f64_ge (e_DownloadDurationSec e) (Fin 120))"
    unfolding ShouldPreferAffinity_def list_ex_iff AffinityWaitThresholdSec_def cached_Some [OF ok]
    by (auto simp: is_at_def)
  then show ?thesis by (simp add: fun_eq_iff cached_Register [OF ok] cached_Evict [OF ok] cached_TouchNode [OF ok])
qed

lemma used_step:
  assumes ok: "cache_ok c" and "cache_step c c'" and p: "p < brk c"
  shows "used (store c p) (store c' p) \<and> p < brk c'"
  using assms(2)
proof cases
  case (register now nid gid m sz dur)
  show ?thesis
    unfolding register
    by (rule Register_cases [of c m nid gid now sz dur]) (use p in \<open>auto simp: used_def\<close>)
next
  case (touch now nid gid m)
  show ?thesis
    unfolding touch
    by (rule TouchNode_cases [of c m nid gid now]) (use p in \<open>auto simp: used_def\<close>)
qed (use p in \<open>simp add: EvictEntry_def used_def\<close>)

text \<open>
  The list \<open>WarmNodes\<close> returns stays valid: it names each GPU with a cached entry for the model
  once, and whatever the cache does afterwards, eviction included, each pointer in it still leads
  to the entry of the same node, GPU, model and size; only use and download times may change.
\<close>

theorem warm_nodes_stay_valid:
  assumes "cache_step\<^sup>*\<^sup>* (NewModelCache mem) c" and "cache_step\<^sup>*\<^sup>* c c'"
  shows "distinct (map (\<lambda>p. (e_NodeID (store c p), e_GPUID (store c p))) (WarmNodes c m)) \<and>
    (\<forall>n g. (n, g) \<in> (\<lambda>p. (e_NodeID (store c p), e_GPUID (store c p))) ` set (WarmNodes c m) \<longleftrightarrow>
      cached c m n g \<noteq> None) \<and>
    (\<forall>p \<in> set (WarmNodes c m). e_NodeID (store c' p) = e_NodeID (store c p) \<and>
      e_GPUID (store c' p) = e_GPUID (store c p) \<and> e_ModelName (store c' p) = m \<and>
      e_SizeMiB (store c' p) = e_SizeMiB (store c p))"
proof -
  have ok: "cache_ok c" using cache_runs.reachable_inv [OF _ assms(1)] by blast
  have "used (store c p) (store c' p) \<and> p < brk c'" if "p < brk c" for p
    using assms(2)
  proof (induction rule: rtranclp_induct)
    case (step c1 c2)
    have "cache_ok c1" using cache_runs.steps_inv [OF step(1) ok] .
    with step used_step [of c1 c2 p] show ?case by (simp add: used_def)
  qed (use that in \<open>simp add: used_def\<close>)
  moreover have "(n, g) \<in> (\<lambda>p. (e_NodeID (store c p), e_GPUID (store c p))) ` set (WarmNodes c m) \<longleftrightarrow>
      cached c m n g \<noteq> None" for n g
    unfolding cached_None WarmNodes_def is_at_def by auto
  moreover have "distinct (map (\<lambda>p. (e_NodeID (store c p), e_GPUID (store c p))) (WarmNodes c m))"
    using ok by (simp add: cache_ok_def WarmNodes_def distinct_map)
  ultimately show ?thesis
    using cache_okD(1,2) [OF ok, of _ m] by (simp add: WarmNodes_def used_def)
qed

section \<open>Concrete runs\<close>

definition demo_entry :: ModelCacheEntry where
  "demo_entry = \<lparr>e_NodeID = [], e_GPUID = [], e_ModelName = [], e_SizeMiB = 0, e_LastUsed = 0,
     e_DownloadDurationSec = Fin 0\<rparr>"

text \<open>A model on two nodes; on the first it took three minutes to download.\<close>

definition demo_cache :: ModelCache where
  "demo_cache = Register 5 ''b'' ''g'' ''m'' 70 (Fin 10)
     (Register 4 ''a'' ''g'' ''m'' 70 (Fin 180) (NewModelCache (\<lambda>_. demo_entry)))"

lemma demo_cache_reachable: "cache_step\<^sup>*\<^sup>* (NewModelCache (\<lambda>_. demo_entry)) demo_cache"
  unfolding demo_cache_def
  by (blast intro: cache_step.register rtranclp.rtrancl_into_rtrancl)

theorem cache_refines_map_witness:
  "cached (EvictEntry ''a'' ''g'' ''m'' demo_cache) ''m'' ''a'' ''g'' = None \<and>
   map_option e_SizeMiB (cached (Register 9 ''a'' ''g'' ''m'' 99 (Fin 1) demo_cache) ''m'' ''a'' ''g'') = Some 70 \<and>
   ShouldPreferAffinity demo_cache ''m''"
proof -
  have e: "map_option e_SizeMiB (cached demo_cache ''m'' ''a'' ''g'') = Some 70"
    "map_option e_DownloadDurationSec (cached demo_cache ''m'' ''a'' ''g'') = Some (Fin 180)" by code_simp+
  then obtain e where "cached demo_cache ''m'' ''a'' ''g'' = Some e" "e_SizeMiB e = 70"
    "e_DownloadDurationSec e = Fin 180" by auto
  moreover have "f64_ge (Fin 180) (Fin 120)" by code_simp
  ultimately have "\<exists>n g e. cached demo_cache ''m'' n g = Some e \<and>
      f64_ge (e_DownloadDurationSec e) (Fin 120)" by metis
  with \<open>cached demo_cache ''m'' ''a'' ''g'' = Some e\<close> \<open>e_SizeMiB e = 70\<close>
    cache_refines_map [OF demo_cache_reachable, of 9 "''a''" "''g''" "''m''" 99 "Fin 1"]
  show ?thesis by simp
qed

theorem warm_nodes_stay_valid_witness:
  "map (\<lambda>p. e_NodeID (store (EvictEntry ''a'' ''g'' ''m'' demo_cache) p)) (WarmNodes demo_cache ''m'') = [''a'', ''b'']"
proof -
  have "cache_step\<^sup>*\<^sup>* demo_cache (EvictEntry ''a'' ''g'' ''m'' demo_cache)"
    by (rule r_into_rtranclp) (rule cache_step.evict)
  from warm_nodes_stay_valid [OF demo_cache_reachable this, of "''m''"]
  have "\<forall>p \<in> set (WarmNodes demo_cache ''m''). e_NodeID (store (EvictEntry ''a'' ''g'' ''m'' demo_cache) p) =
      e_NodeID (store demo_cache p)" by blast
  then have "map (\<lambda>p. e_NodeID (store (EvictEntry ''a'' ''g'' ''m'' demo_cache) p)) (WarmNodes demo_cache ''m'') =
      map (\<lambda>p. e_NodeID (store demo_cache p)) (WarmNodes demo_cache ''m'')" by simp
  also have "\<dots> = [''a'', ''b'']" by code_simp
  finally show ?thesis .
qed

end
