(* ===== verification/Dispatch.thy ===== *)
theory Dispatch
  imports Gateway Traffic_Analyzer
begin

text \<open>
  \<open>scheduler/main.go\<close>, the handlers: the heartbeat endpoint, the commands and log lines of
  \<open>handleActions\<close>, and where a command for a GPU goes.
\<close>

section \<open>The heartbeat endpoint\<close>

record HeartbeatRequest =
  hr_method :: string
  hr_body :: "string + HeartbeatMsg"

definition handleHeartbeat ::
  "HeartbeatRequest \<Rightarrow> HeartbeatMsg chan \<Rightarrow> Response \<times> HeartbeatMsg chan" where
  "handleHeartbeat rq ch =
     (if hr_method rq \<noteq> ''POST'' then (http_error ''method not allowed'' 405, ch)
      else case hr_body rq of
        Inl e \<Rightarrow> (http_error (''bad request: '' @ e) 400, ch)
      | Inr msg \<Rightarrow>
          (case try_send msg ch of
             Some ch' \<Rightarrow> (http_error [] 204, ch')
           | None \<Rightarrow> (http_error ''heartbeat channel full'' 503, ch)))"

section \<open>Actions\<close>

record agentCommand =
  ac_Action :: string
  ac_ModelName :: string
  ac_Quantization :: string
  ac_SliceID :: string

text \<open>
  The JSON object of a command, as its fields in order: a field tagged \<open>omitempty\<close> is left out
  when it is empty.
\<close>

definition command_fields :: "agentCommand \<Rightarrow> (string \<times> string) list" where
  "command_fields cmd =
     [(''action'', ac_Action cmd), (''model_name'', ac_ModelName cmd)] @
     (if ac_Quantization cmd = [] then [] else [(''quantization'', ac_Quantization cmd)]) @
     (if ac_SliceID cmd = [] then [] else [(''slice_id'', ac_SliceID cmd)])"

text \<open>\<open>%-ns\<close> pads with spaces on the right to a width of \<open>n\<close>.\<close>

definition pad_right :: "nat \<Rightarrow> string \<Rightarrow> string" where
  "pad_right n s = s @ replicate (n - length s) CHR '' ''"

definition formatAction :: "string \<Rightarrow> ReconcileAction \<Rightarrow> string" where
  "formatAction verb act =
     (let location = a_NodeID act @ ''/'' @ a_GPUID act;
          location' = (if a_SliceID act \<noteq> []
            then a_NodeID act @ ''/'' @ a_GPUID act @ '' slice='' @ a_SliceID act
            else location)
      in ''[scheduler] '' @ pad_right 6 verb @ ''  model='' @ pad_right 30 (a_ModelName act) @
         ''  on '' @ location')"

text \<open>
  The requests that leave the process: the address the goroutine captured, the URL it posts to,
  and the command it marshals into the body.
\<close>

record post =
  po_addr :: string
  po_url :: string
  po_body :: agentCommand

definition dispatchToAgent :: "NodeRegistry \<Rightarrow> ReconcileAction \<Rightarrow> string \<Rightarrow> post option" where
  "dispatchToAgent nodeReg act verb =
     (case Get nodeReg (a_NodeID act) (a_GPUID act) of
        None \<Rightarrow> None
      | Some node \<Rightarrow>
          if AgentAddr node = [] then None
          else let cmd = \<lparr>ac_Action = verb, ac_ModelName = a_ModelName act,
                          ac_Quantization = [], ac_SliceID = a_SliceID act\<rparr>
               in Some \<lparr>po_addr = AgentAddr node, po_url = AgentAddr node @ ''/command'', po_body = cmd\<rparr>)"

text \<open>
  What the goroutine of a dispatch logs of the agent's answer: the request failed, a status
  other than 200, or 200 with the status and detail of the body if it decodes.
\<close>

datatype post_result = PostFailed string | Answered int string "(string \<times> string) option"

definition dispatch_log :: "string \<Rightarrow> string \<Rightarrow> string \<Rightarrow> post_result \<Rightarrow> string" where
  "dispatch_log verb model addr res =
     (let head = ''[dispatch] '' @ verb @ '' '' @ model @ '' -> '' @ addr in
      case res of
        PostFailed e \<Rightarrow> head @ '' failed: '' @ e
      | Answered code status body \<Rightarrow>
          if code \<noteq> 200 then head @ '' returned '' @ status
          else (case body of
                  Some (st, detail) \<Rightarrow>
                    if st = ''error'' then head @ '' reported error: '' @ detail else head @ '' ok''
                | None \<Rightarrow> head @ '' ok''))"

text \<open>One turn of \<open>handleActions\<close>: the line it logs and the request it sends.\<close>

definition handleAction :: "NodeRegistry \<Rightarrow> ReconcileAction \<Rightarrow> string \<times> post option" where
  "handleAction nodeReg act =
     (case a_Type act of
        ActionEvict \<Rightarrow> (formatAction ''EVICT'' act, dispatchToAgent nodeReg act ''EVICT'')
      | ActionPrewarm \<Rightarrow> (formatAction ''PLACED'' act, dispatchToAgent nodeReg act ''PREWARM'')
      | ActionMarkDead \<Rightarrow>
          (''[scheduler] NODE DOWN  '' @ a_NodeID act @ ''/'' @ a_GPUID act @
             ''  -- workloads will be rescheduled'', None))"

text \<open>The line for a command that has nowhere to go.\<close>

definition dropped :: "ReconcileAction \<Rightarrow> post option \<Rightarrow> string list" where
  "dropped act p =
     (case p of
        Some _ \<Rightarrow> []
      | None \<Rightarrow>
          (case a_Type act of
             ActionMarkDead \<Rightarrow> []
           | _ \<Rightarrow> [''[dispatch] no known agent address for '' @ a_NodeID act @ ''/'' @ a_GPUID act @
               '', dropping '' @ (if a_Type act = ActionEvict then ''EVICT'' else ''PREWARM'') @ '' '' @
               a_ModelName act]))"

definition handleSignal :: "PrewarmSignal \<Rightarrow> string" where
  "handleSignal sig =
     ''[scheduler] PREWARM  model='' @ pad_right 30 (sig_ModelName sig) @ ''  reason: '' @ sig_Reason sig"

section \<open>The heartbeat endpoint, case by case\<close>

text \<open>
  A heartbeat is acknowledged with 204 exactly when it will be applied: the request is a POST
  that decodes and the channel has room, and then it is appended to the channel. In every other
  case the reply says which of the three it was and the channel is unchanged; the handler never
  blocks and the channel never exceeds its capacity.
\<close>

theorem heartbeat_acknowledged_iff_queued:
  assumes "length (ch_buf ch) \<le> ch_cap ch" and "handleHeartbeat rq ch = (rsp, ch')"
  shows "(rs_status rsp = 204 \<longleftrightarrow> hr_method rq = ''POST'' \<and> (\<exists>msg. hr_body rq = Inr msg) \<and>
      length (ch_buf ch) < ch_cap ch) \<and>
    (rs_status rsp = 405 \<longleftrightarrow> hr_method rq \<noteq> ''POST'') \<and>
    (rs_status rsp = 400 \<longleftrightarrow> hr_method rq = ''POST'' \<and> (\<exists>e. hr_body rq = Inl e)) \<and>
    (rs_status rsp = 503 \<longleftrightarrow> hr_method rq = ''POST'' \<and> (\<exists>msg. hr_body rq = Inr msg) \<and>
      length (ch_buf ch) = ch_cap ch) \<and>
    ch_buf ch' = ch_buf ch @ (case hr_body rq of Inr msg \<Rightarrow> if rs_status rsp = 204 then [msg] else [] | _ \<Rightarrow> []) \<and>
    length (ch_buf ch') \<le> ch_cap ch'"
  using assms
  by (auto simp: handleHeartbeat_def http_error_def try_send_def split: if_splits sum.splits)

section \<open>Where commands go\<close>

text \<open>Marking nodes dead does not change their addresses.\<close>

lemma Get_MarkUnhealthy:
  "map_option AgentAddr (Get (MarkUnhealthy nid gid r) n g) = map_option AgentAddr (Get r n g)"
  by (auto simp: Get_def nodes_MarkUnhealthy split: option.splits)

lemma dispatch_addr:
  "dispatchToAgent r a verb = (case map_option AgentAddr (Get r (a_NodeID a) (a_GPUID a)) of
     None \<Rightarrow> None
   | Some addr \<Rightarrow> if addr = [] then None
       else Some \<lparr>po_addr = addr, po_url = addr @ ''/command'', po_body = \<lparr>ac_Action = verb, ac_ModelName = a_ModelName a,
         ac_Quantization = [], ac_SliceID = a_SliceID a\<rparr>\<rparr>)"
  by (simp add: dispatchToAgent_def Let_def split: option.split)

text \<open>What may happen to the registry without a heartbeat of the GPU with key \<open>k\<close>.\<close>

inductive registry_event :: "string \<Rightarrow> NodeRegistry \<Rightarrow> NodeRegistry \<Rightarrow> bool" for k where
  other_heartbeat: "node_key (hb_NodeID hb) (hb_GPUID hb) \<noteq> k \<Longrightarrow>
    registry_event k r (applyHeartbeat now hb r)"
| marked: "registry_event k r (MarkUnhealthy nid gid r)"

text \<open>
  Commands follow the agent: after a heartbeat of a GPU, and whatever heartbeats of other GPUs
  are applied and nodes are marked dead since, a command for the GPU goes to the address that
  heartbeat carried, with the model and slice of the action, or nowhere if it carried none.
\<close>

theorem dispatch_follows_last_heartbeat:
  assumes "(registry_event (node_key (a_NodeID a) (a_GPUID a)))\<^sup>*\<^sup>* (applyHeartbeat now hb r) r'"
    and "a_NodeID a = hb_NodeID hb" and "a_GPUID a = hb_GPUID hb"
  shows "dispatchToAgent r' a verb = (if hb_AgentAddr hb = [] then None
    else Some \<lparr>po_addr = hb_AgentAddr hb, po_url = hb_AgentAddr hb @ ''/command'', po_body = \<lparr>ac_Action = verb,
      ac_ModelName = a_ModelName a, ac_Quantization = [], ac_SliceID = a_SliceID a\<rparr>\<rparr>)"
proof -
  have "map_option AgentAddr (Get r' (a_NodeID a) (a_GPUID a)) = Some (hb_AgentAddr hb)"
    using assms(1)
  proof (induction rule: rtranclp_induct)
    case base
    show ?case using assms(2,3)
      by (simp add: Get_def applyHeartbeat_def nodes_Upsert key_of_def node_of_heartbeat_def)
  next
    case (step r1 r2)
    from step(2) show ?case
    proof cases
      case (other_heartbeat hb' now')
      with step(3) show ?thesis
        by (simp add: Get_def applyHeartbeat_def nodes_Upsert key_of_def node_of_heartbeat_def)
    next
      case marked
      with step(3) show ?thesis by (simp add: Get_MarkUnhealthy)
    qed
  qed
  then show ?thesis by (auto simp: dispatch_addr)
qed

section \<open>Concrete runs\<close>

theorem heartbeat_acknowledged_iff_queued_witness:
  "rs_status (fst (handleHeartbeat \<lparr>hr_method = ''POST'', hr_body = Inr (demo_hb [])\<rparr> (make_chan 256))) = 204 \<and>
   rs_status (fst (handleHeartbeat \<lparr>hr_method = ''POST'', hr_body = Inr (demo_hb [])\<rparr> (make_chan 0))) = 503"
  using heartbeat_acknowledged_iff_queued [of "make_chan 256 :: HeartbeatMsg chan",
      OF _ prod.collapse [symmetric], of "\<lparr>hr_method = ''POST'', hr_body = Inr (demo_hb [])\<rparr>"]
    heartbeat_acknowledged_iff_queued [of "make_chan 0 :: HeartbeatMsg chan",
      OF _ prod.collapse [symmetric], of "\<lparr>hr_method = ''POST'', hr_body = Inr (demo_hb [])\<rparr>"]
  by (simp add: make_chan_def)

definition prewarm_x :: ReconcileAction where
  "prewarm_x = \<lparr>a_Type = ActionPrewarm, a_NodeID = ''a'', a_GPUID = ''g'', a_SliceID = [],
     a_ModelName = ''x''\<rparr>"

definition post_x :: post where
  "post_x = \<lparr>po_addr = ''http://a'', po_url = ''http://a/command'', po_body = \<lparr>ac_Action = ''PREWARM'', ac_ModelName = ''x'',
     ac_Quantization = [], ac_SliceID = []\<rparr>\<rparr>"

definition reg_a :: NodeRegistry where
  "reg_a = applyHeartbeat 0 (demo_hb []) NewNodeRegistry"

theorem dispatch_follows_last_heartbeat_witness:
  "dispatchToAgent (MarkUnhealthy ''a'' ''g'' reg_a) prewarm_x ''PREWARM'' = Some post_x"
proof -
  have "(registry_event (node_key (a_NodeID prewarm_x) (a_GPUID prewarm_x)))\<^sup>*\<^sup>*
      (applyHeartbeat 0 (demo_hb []) NewNodeRegistry) (MarkUnhealthy ''a'' ''g'' reg_a)"
    unfolding reg_a_def by (rule r_into_rtranclp) (rule registry_event.marked)
  from dispatch_follows_last_heartbeat [OF this, of "''PREWARM''"]
  show ?thesis by (simp add: prewarm_x_def post_x_def demo_hb_def)
qed

end
