(* ===== verification/Reconcile_Pass.thy ===== *)
theory Reconcile_Pass
  imports Reconcile
begin

text \<open>
  A pass of \<open>reconcile\<close> as the goroutine runs it: one blocking send at a time, with the desired
  state of a slice read when the pass reaches that slice. The control point of the goroutine is
  a value; a step takes it to the next blocking send or loop head. The theory shows that a pass
  always ends, that with an unchanging desired state it sends exactly the actions of
  \<open>reconcile\<close> in the same order, and what it sends when the desired state grows meanwhile.
\<close>

section \<open>The control points\<close>

text \<open>
  Where the goroutine is: between passes; in the loop over the stale nodes; in the loop over the
  healthy nodes; in the loop over the slices of a MIG node, with the index of the next one. The
  lists are what the loops have left.
\<close>

datatype control =
    Idle
  | Marking "GPUNode list"
  | Visiting "GPUNode list"
  | Slicing GPUNode nat "MIGSlice list" "GPUNode list"

definition dead_action :: "GPUNode \<Rightarrow> ReconcileAction" where
  "dead_action n = \<lparr>a_Type = ActionMarkDead, a_NodeID = NodeID n, a_GPUID = GPUID n,
     a_SliceID = [], a_ModelName = []\<rparr>"

text \<open>The body of the loop of \<open>reconcileMIGNode\<close>.\<close>

definition slice_body :: "pick \<Rightarrow> Reconciler \<Rightarrow> GPUNode \<Rightarrow> nat \<Rightarrow> MIGSlice \<Rightarrow> ReconcileAction list" where
  "slice_body pick r node j s =
     (if \<not> s_Healthy s then []
      else case snapshotDesired r (sliceKey (NodeID node) (GPUID node) (s_SliceID s)) of
        None \<Rightarrow> []
      | Some desiredSet \<Rightarrow>
          slice_actions pick node j (s_SliceID s) desiredSet (toSet (s_LoadedModels s)))"

text \<open>
  One step: the registry, the next control point, and the actions to send before it is reached.
  The desired state is read in the steps that call \<open>snapshotDesired\<close>. Nothing happens at \<open>Idle\<close>;
  \<open>start_pass\<close> leaves it.
\<close>

fun pass_step ::
  "pick \<Rightarrow> string list \<Rightarrow> Reconciler \<Rightarrow> NodeRegistry \<Rightarrow> control \<Rightarrow>
     NodeRegistry \<times> control \<times> ReconcileAction list" where
  "pass_step pick order r reg Idle = (reg, Idle, [])"
| "pass_step pick order r reg (Marking (n # ns)) =
     (MarkUnhealthy (NodeID n) (GPUID n) reg, Marking ns, [dead_action n])"
| "pass_step pick order r reg (Marking []) = (reg, Visiting (All order reg), [])"
| "pass_step pick order r reg (Visiting (n # ns)) =
     (if MIGEnabled n \<and> MIGSlices n \<noteq> [] then (reg, Slicing n 0 (MIGSlices n) ns, [])
      else (reg, Visiting ns, reconcileNonMIGNode pick r n))"
| "pass_step pick order r reg (Visiting []) = (reg, Idle, [])"
| "pass_step pick order r reg (Slicing n j (s # ss) ns) =
     (reg, Slicing n (Suc j) ss ns, slice_body pick r n j s)"
| "pass_step pick order r reg (Slicing n j [] ns) = (reg, Visiting ns, [])"

definition start_pass :: "string list \<Rightarrow> time \<Rightarrow> Reconciler \<Rightarrow> NodeRegistry \<Rightarrow> control" where
  "start_pass order now r reg = Marking (StaleNodes order now (staleTimeout r) reg)"

section \<open>A pass ends\<close>

text \<open>
  What a pass has left: the stage, and within it the nodes and slices to visit. Every step
  decreases it, whatever the desired state and the orders of the maps.
\<close>

definition visit_work :: "GPUNode list \<Rightarrow> nat" where
  "visit_work ns = (\<Sum>n\<leftarrow>ns. 2 + length (MIGSlices n))"

fun pass_work :: "control \<Rightarrow> nat \<times> nat" where
  "pass_work Idle = (0, 0)"
| "pass_work (Marking ns) = (2, length ns)"
| "pass_work (Visiting ns) = (1, visit_work ns)"
| "pass_work (Slicing n j ss ns) = (1, Suc (length ss) + visit_work ns)"

definition less_work :: "(control \<times> control) set" where
  "less_work = inv_image (less_than <*lex*> less_than) pass_work"

lemma wf_less_work [simp]: "wf less_work"
  by (simp add: less_work_def wf_inv_image wf_lex_prod)

lemma pass_step_less_work:
  "pass_step pick order r reg c = (reg', c', acts) \<Longrightarrow> c \<noteq> Idle \<Longrightarrow> (c', c) \<in> less_work"
  by (induction pick order r reg c rule: pass_step.induct)
    (auto simp: less_work_def visit_work_def split: if_splits)

text \<open>The whole pass, with the desired state of its start.\<close>

function pass_run ::
  "pick \<Rightarrow> string list \<Rightarrow> Reconciler \<Rightarrow> NodeRegistry \<Rightarrow> control \<Rightarrow>
     NodeRegistry \<times> ReconcileAction list" where
  "pass_run pick order r reg c =
     (if c = Idle then (reg, [])
      else let (reg1, c1, acts) = pass_step pick order r reg c;
               (reg2, acts') = pass_run pick order r reg1 c1
           in (reg2, acts @ acts'))"
  by pat_completeness auto
termination
  by (relation "inv_image less_work (\<lambda>(pick, order, r, reg, c). c)")
    (auto intro: wf_inv_image dest!: pass_step_less_work [OF sym])

declare pass_run.simps [simp del]

lemma pass_run_Idle [simp]: "pass_run pick order r reg Idle = (reg, [])"
  by (simp add: pass_run.simps)

lemma pass_run_step:
  "c \<noteq> Idle \<Longrightarrow> pass_step pick order r reg c = (reg1, c1, acts) \<Longrightarrow>
     pass_run pick order r reg c = (let (reg2, acts') = pass_run pick order r reg1 c1
       in (reg2, acts @ acts'))"
  by (subst pass_run.simps) simp

section \<open>A pass implements reconcile\<close>

lemma mig_actions_body:
  "mig_actions pick r n j (s # ss) = slice_body pick r n j s @ mig_actions pick r n (Suc j) ss"
  by (simp add: slice_body_def)

lemma run_Slicing:
  "pass_run pick order r reg (Slicing n j ss ns) =
     (let (reg', acts) = pass_run pick order r reg (Visiting ns)
      in (reg', mig_actions pick r n j ss @ acts))"
proof (induction ss arbitrary: j)
  case Nil
  show ?case by (subst pass_run_step) (auto simp: Let_def split_def)
next
  case (Cons s ss)
  show ?case
    by (subst pass_run_step, simp, simp) (simp only: Cons mig_actions_body Let_def split_def, simp)
qed

abbreviation node_actions :: "pick \<Rightarrow> Reconciler \<Rightarrow> GPUNode \<Rightarrow> ReconcileAction list" where
  "node_actions pick r n \<equiv> (if MIGEnabled n \<and> MIGSlices n \<noteq> [] then reconcileMIGNode pick r n
     else reconcileNonMIGNode pick r n)"

lemma run_Visiting:
  "pass_run pick order r reg (Visiting ns) = (reg, concat (map (node_actions pick r) ns))"
proof (induction ns)
  case Nil
  show ?case by (subst pass_run_step) auto
next
  case (Cons n ns)
  show ?case
  proof (cases "MIGEnabled n \<and> MIGSlices n \<noteq> []")
    case True
    then show ?thesis
      by (subst pass_run_step, simp, simp) (simp add: run_Slicing Cons reconcileMIGNode_def)
  next
    case False
    then show ?thesis
      by (subst pass_run_step, simp, simp) (auto simp: Cons)
  qed
qed

lemma run_Marking:
  "pass_run pick order r reg (Marking ns) =
     (let (reg', dead) = mark_dead ns reg
      in (reg', dead @ concat (map (node_actions pick r) (All order reg'))))"
proof (induction ns arbitrary: reg)
  case Nil
  show ?case by (subst pass_run_step, simp, simp) (simp add: run_Visiting)
next
  case (Cons n ns)
  show ?case
    by (subst pass_run_step, simp, simp) (simp add: Cons Let_def split_def dead_action_def)
qed

text \<open>
  The two renderings of the code agree: run step by step with a desired state that does not change
  meanwhile, a pass leaves the registry and sends the sequence of actions that \<open>reconcile\<close> gives.
\<close>

lemma pass_run_reconcile:
  "pass_run pick ks' r reg (start_pass ks now r reg) = reconcile pick ks ks' now r reg"
  by (simp add: start_pass_def run_Marking reconcile_def Let_def)

section \<open>What a pass sends\<close>

text \<open>
  The units a pass has yet to compare: those of the nodes it has yet to visit. While it marks
  stale nodes these are the units of all nodes that will be healthy after the marking.
\<close>

definition node_units :: "GPUNode set \<Rightarrow> (GPUNode \<times> string \<times> string list) set" where
  "node_units N = (SIGMA n:N. units_of n)"

fun units_left :: "NodeRegistry \<Rightarrow> control \<Rightarrow> (GPUNode \<times> string \<times> string list) set" where
  "units_left reg Idle = {}"
| "units_left reg (Marking ns) = node_units (healthy_nodes (fst (mark_dead ns reg)))"
| "units_left reg (Visiting ns) = node_units (set ns)"
| "units_left reg (Slicing n j ss ns) =
     {(n, s_SliceID s, s_LoadedModels s) | s. s \<in> set ss \<and> s_Healthy s} \<union> node_units (set ns)"

abbreviation unit_drift :: "Reconciler \<Rightarrow> GPUNode \<times> string \<times> string list \<Rightarrow> ReconcileAction set" where
  "unit_drift r u \<equiv> (case u of (n, sid, loaded) \<Rightarrow> drift r n sid loaded)"

lemma node_units_simps [simp]:
  "node_units {} = {}"
  "node_units (insert n N) = Pair n ` units_of n \<union> node_units N"
  by (auto simp: node_units_def)

lemma set_slice_body:
  "pick_ok pick \<Longrightarrow> set (slice_body pick r n j s) =
     (if s_Healthy s then drift r n (s_SliceID s) (s_LoadedModels s) else {})"
  by (simp add: slice_body_def set_snapshot_actions)

lemma set_reconcileNonMIGNode:
  assumes "pick_ok pick" and "\<not> (MIGEnabled n \<and> MIGSlices n \<noteq> [])"
  shows "set (reconcileNonMIGNode pick r n) = node_drift r n"
  using set_node_actions [OF assms(1), of n r] assms(2) by (simp only: if_False)

text \<open>
  A step compares some of the units that are left, and sends their drift; in the first loop it
  sends that a stale node is dead.
\<close>

lemma pass_step_units:
  assumes "pass_step pick ks r reg c = (reg', c', acts)"
    and "pick_ok pick" and "enumerates ks (nodes reg)"
  obtains U where "units_left reg c = U \<union> units_left reg' c'"
    and "set acts = (\<Union>u \<in> U. unit_drift r u) \<union>
      (case c of Marking (n # ns) \<Rightarrow> {dead_action n} | _ \<Rightarrow> {})"
proof (cases c)
  case Idle
  with assms(1) that [of "{}"] show ?thesis by simp
next
  case (Marking ns)
  show ?thesis
  proof (cases ns)
    case Nil
    with Marking assms(1) that [of "{}"] set_All [OF assms(3)] show ?thesis by auto
  next
    case (Cons n ns')
    with Marking assms(1) that [of "{}"] show ?thesis by (auto simp: Let_def split_def)
  qed
next
  case (Visiting ns)
  show ?thesis
  proof (cases ns)
    case Nil
    with Visiting assms(1) that [of "{}"] show ?thesis by simp
  next
    case (Cons n ns')
    show ?thesis
    proof (cases "MIGEnabled n \<and> MIGSlices n \<noteq> []")
      case True
      show ?thesis
        by (rule that [of "{}"]) (use True Visiting Cons assms(1) in \<open>auto simp: units_of_def\<close>)
    next
      case False
      with Visiting Cons assms(1) have eq: "reg' = reg" "c' = Visiting ns'"
        "acts = reconcileNonMIGNode pick r n" by (simp_all only: pass_step.simps if_False prod.inject)
      show ?thesis
        by (rule that [of "Pair n ` units_of n"])
          (use Visiting Cons eq set_reconcileNonMIGNode [OF assms(2) False] in
            \<open>auto simp: node_drift_def\<close>)
    qed
  qed
next
  case (Slicing n j ss ns)
  show ?thesis
  proof (cases ss)
    case Nil
    with Slicing assms(1) that [of "{}"] show ?thesis by auto
  next
    case (Cons s ss')
    show ?thesis
      by (rule that [of "if s_Healthy s then {(n, s_SliceID s, s_LoadedModels s)} else {}"])
        (use Slicing Cons assms(1) set_slice_body [OF assms(2), of r n j s] in auto)
  qed
qed

section \<open>A desired state that grows\<close>

text \<open>
  The gateway only adds to the desired state. What is due before and after it added is due in
  between.
\<close>

definition grows :: "Reconciler \<Rightarrow> Reconciler \<Rightarrow> bool" where
  "grows r r' \<longleftrightarrow> staleTimeout r' = staleTimeout r \<and>
     (\<forall>k D. desired r k = Some D \<longrightarrow> (\<exists>D'. desired r' k = Some D' \<and> D \<subseteq> D'))"

lemma grows_refl [simp]: "grows r r"
  by (simp add: grows_def)

lemma grows_trans: "grows r s \<Longrightarrow> grows s t \<Longrightarrow> grows r t"
  unfolding grows_def by (metis subset_trans)

lemma grows_AddDesired [intro]: "grows r (AddDesired nid gid sid m r)"
  by (auto simp: grows_def desired_AddDesired)

lemma drift_between:
  assumes "grows r s" "grows s t" and "a \<in> drift r n sid loaded" "a \<in> drift t n sid loaded"
  shows "a \<in> drift s n sid loaded"
proof -
  let ?k = "sliceKey (NodeID n) (GPUID n) sid"
  obtain D where D: "desired r ?k = Some D" using assms(3) by (auto simp: drift_def split: option.splits)
  with assms(1) obtain D1 where D1: "desired s ?k = Some D1" "D \<subseteq> D1" unfolding grows_def by blast
  with assms(2) obtain D2 where D2: "desired t ?k = Some D2" "D1 \<subseteq> D2" unfolding grows_def by blast
  from assms(3,4) D D1 D2 show ?thesis by (auto simp: drift_def)
qed

end
