(* ===== verification/Json.thy ===== *)
theory Json
  imports Main
begin

text \<open>
  JSON texts as \<open>encoding/json\<close> and \<open>serde_json\<close> render and read them: values, the two writers,
  which differ in the characters they escape, and a reader. Strings are lists of bytes; the
  theorems are about ASCII strings, for which no byte is part of a longer character. Numbers are
  integers; the interfaces between the programs carry no others.
\<close>

section \<open>Decimal numbers\<close>

definition digit_char :: "nat \<Rightarrow> char" where
  "digit_char d = char_of (48 + d)"

fun show_nat :: "nat \<Rightarrow> string" where
  "show_nat n = (if n < 10 then [digit_char n] else show_nat (n div 10) @ [digit_char (n mod 10)])"

declare show_nat.simps [simp del]

text \<open>\<open>%d\<close>.\<close>

definition show_int :: "int \<Rightarrow> string" where
  "show_int i = (if i < 0 then CHR ''-'' # show_nat (nat (- i)) else show_nat (nat i))"

definition is_digit :: "char \<Rightarrow> bool" where
  "is_digit c \<longleftrightarrow> 48 \<le> (of_char c :: nat) \<and> (of_char c :: nat) < 58"

definition digit_val :: "char \<Rightarrow> nat" where
  "digit_val c = of_char c - 48"

definition read_digits :: "string \<Rightarrow> nat" where
  "read_digits ds = foldl (\<lambda>n d. 10 * n + digit_val d) 0 ds"

lemma is_digit_digit_char [simp]: "d < 10 \<Longrightarrow> is_digit (digit_char d)"
  by (simp add: is_digit_def digit_char_def)

lemma digit_val_digit_char [simp]: "d < 10 \<Longrightarrow> digit_val (digit_char d) = d"
  by (simp add: digit_val_def digit_char_def)

lemma show_nat_nonempty [simp]: "show_nat n \<noteq> []"
  by (subst show_nat.simps) simp

lemma show_nat_digits: "c \<in> set (show_nat n) \<Longrightarrow> is_digit c"
proof (induction n rule: show_nat.induct)
  case (1 n)
  then show ?case by (subst (asm) (2) show_nat.simps) (auto split: if_splits)
qed

lemma read_show_nat [simp]: "read_digits (show_nat n) = n"
proof (induction n rule: show_nat.induct)
  case (1 n)
  then show ?case by (subst show_nat.simps) (auto simp: read_digits_def)
qed

text \<open>No leading zeros.\<close>

lemma hd_show_nat: "0 < n \<Longrightarrow> hd (show_nat n) \<noteq> CHR ''0''"
proof (induction n rule: show_nat.induct)
  case (1 n)
  have "digit_val (CHR ''0'') = 0" by (simp add: digit_val_def)
  then have d0: "digit_char n = CHR ''0'' \<Longrightarrow> n < 10 \<Longrightarrow> n = 0"
    by (metis digit_val_digit_char)
  show ?case
  proof (cases "n < 10")
    case True
    with 1(2) d0 show ?thesis by (subst show_nat.simps) auto
  next
    case False
    with 1 show ?thesis by (subst show_nat.simps) simp
  qed
qed

lemma show_nat_0: "show_nat 0 = ''0''"
proof -
  have "char_of (48 :: nat) = CHR ''0''" by code_simp
  then show ?thesis by (subst show_nat.simps) (simp add: digit_char_def)
qed

section \<open>Strings\<close>

definition dq :: char where "dq = CHR 0x22"
definition bs :: char where "bs = CHR 0x5C"

definition ascii :: "string \<Rightarrow> bool" where
  "ascii s \<longleftrightarrow> (\<forall>c \<in> set s. (of_char c :: nat) < 128)"

definition hex_digit :: "nat \<Rightarrow> char" where
  "hex_digit d = (if d < 10 then char_of (48 + d) else char_of (87 + d))"

definition hex_val :: "char \<Rightarrow> nat option" where
  "hex_val c = (let n = of_char c :: nat in
     if 48 \<le> n \<and> n < 58 then Some (n - 48)
     else if 97 \<le> n \<and> n < 103 then Some (n - 87)
     else if 65 \<le> n \<and> n < 71 then Some (n - 55) else None)"

text \<open>
  The escapes: a quote, a backslash, and the control characters, five of which have a short form.
  With \<open>html\<close>, the default of \<open>encoding/json\<close>, also the angle brackets and the ampersand.
\<close>

definition short_escape :: "char \<Rightarrow> char option" where
  "short_escape c =
     (if c = dq then Some dq else if c = bs then Some bs
      else if c = CHR 0x08 then Some CHR ''b'' else if c = CHR 0x0C then Some CHR ''f''
      else if c = CHR 0x0A then Some CHR ''n'' else if c = CHR 0x0D then Some CHR ''r''
      else if c = CHR 0x09 then Some CHR ''t'' else None)"

definition short_unescape :: "char \<Rightarrow> char option" where
  "short_unescape c =
     (if c = dq then Some dq else if c = bs then Some bs else if c = CHR ''/'' then Some CHR ''/''
      else if c = CHR ''b'' then Some CHR 0x08 else if c = CHR ''f'' then Some CHR 0x0C
      else if c = CHR ''n'' then Some CHR 0x0A else if c = CHR ''r'' then Some CHR 0x0D
      else if c = CHR ''t'' then Some CHR 0x09 else None)"

definition escape :: "bool \<Rightarrow> char \<Rightarrow> string" where
  "escape html c =
     (case short_escape c of Some e \<Rightarrow> [bs, e]
      | None \<Rightarrow>
          let n = of_char c :: nat in
          if n < 32 \<or> html \<and> c \<in> {CHR ''<'', CHR ''>'', CHR ''&''}
          then [bs, CHR ''u'', CHR ''0'', CHR ''0'', hex_digit (n div 16), hex_digit (n mod 16)]
          else [c])"

definition quote :: "bool \<Rightarrow> string \<Rightarrow> string" where
  "quote html s = dq # concat (map (escape html) s) @ [dq]"

definition hex4 :: "char \<Rightarrow> char \<Rightarrow> char \<Rightarrow> char \<Rightarrow> nat option" where
  "hex4 a b c d = (case (hex_val a, hex_val b, hex_val c, hex_val d) of
     (Some h, Some i, Some j, Some k) \<Rightarrow> Some (((h * 16 + i) * 16 + j) * 16 + k) | _ \<Rightarrow> None)"

abbreviation prefix_char :: "char \<Rightarrow> (string \<times> string) option \<Rightarrow> (string \<times> string) option" where
  "prefix_char c r \<equiv> map_option (\<lambda>(s, rest). (c # s, rest)) r"

text \<open>Reading up to the closing quote. Escapes of other than ASCII characters are not read.\<close>

fun read_string :: "string \<Rightarrow> (string \<times> string) option" where
  "read_string [] = None"
| "read_string (c # cs) =
     (if c = dq then Some ([], cs)
      else if c = bs then
        (case cs of
           [] \<Rightarrow> None
         | e # es \<Rightarrow>
             (case short_unescape e of
                Some d \<Rightarrow> prefix_char d (read_string es)
              | None \<Rightarrow>
                  if e = CHR ''u'' then
                    (case es of
                       h1 # h2 # h3 # h4 # r \<Rightarrow>
                         (case hex4 h1 h2 h3 h4 of
                            Some n \<Rightarrow> if n < 128 then prefix_char (char_of n) (read_string r) else None
                          | None \<Rightarrow> None)
                     | _ \<Rightarrow> None)
                  else None))
      else if (of_char c :: nat) < 32 then None
      else prefix_char c (read_string cs))"

declare read_string.simps(2) [simp del]

lemma short_unescape_escape: "short_escape c = Some e \<Longrightarrow> short_unescape e = Some c"
  by (auto simp: short_escape_def short_unescape_def dq_def bs_def split: if_splits)

lemma hex_val_hex_digit [simp]: "d < 16 \<Longrightarrow> hex_val (hex_digit d) = Some d"
  by (auto simp: hex_val_def hex_digit_def Let_def)

lemma read_escape:
  assumes "(of_char c :: nat) < 128"
  shows "read_string (escape html c @ rest) = prefix_char c (read_string rest)"
proof (cases "short_escape c")
  case (Some e)
  have "bs \<noteq> dq" by (simp add: bs_def dq_def)
  with Some short_unescape_escape [OF Some] show ?thesis
    by (simp add: escape_def read_string.simps)
next
  case None
  let ?n = "of_char c :: nat"
  have c: "c \<noteq> dq" "c \<noteq> bs" using None by (auto simp: short_escape_def split: if_splits)
  show ?thesis
  proof (cases "?n < 32 \<or> html \<and> c \<in> {CHR ''<'', CHR ''>'', CHR ''&''}")
    case True
    have "hex_val (CHR ''0'') = Some 0" by (simp add: hex_val_def)
    then have "hex4 (CHR ''0'') (CHR ''0'') (hex_digit (?n div 16)) (hex_digit (?n mod 16)) = Some ?n"
      using assms by (simp add: hex4_def)
    moreover have "bs \<noteq> dq" "short_unescape (CHR ''u'') = None"
      by (simp_all add: bs_def dq_def short_unescape_def)
    ultimately show ?thesis using None True assms
      by (simp add: escape_def Let_def read_string.simps)
  next
    case False
    with None have "escape html c = [c]" by (auto simp: escape_def Let_def)
    with False c show ?thesis by (simp add: read_string.simps)
  qed
qed

lemma read_escapes:
  "ascii s \<Longrightarrow> read_string (concat (map (escape html) s) @ dq # rest) = Some (s, rest)"
  by (induction s) (auto simp: read_string.simps read_escape ascii_def)

section \<open>Values\<close>

datatype json =
    JNull
  | JBool bool
  | JInt int
  | JStr string
  | JArr "json list"
  | JObj "(string \<times> json) list"

fun commas :: "string list \<Rightarrow> string" where
  "commas [] = []"
| "commas [x] = x"
| "commas (x # y # zs) = x @ CHR '','' # commas (y # zs)"

lemma commas_Cons: "commas (x # xs) = (if xs = [] then x else x @ CHR '','' # commas xs)"
  by (cases xs) auto

text \<open>The writers put no space between the tokens.\<close>

function render :: "bool \<Rightarrow> json \<Rightarrow> string" where
  "render html JNull = ''null''"
| "render html (JBool b) = (if b then ''true'' else ''false'')"
| "render html (JInt i) = show_int i"
| "render html (JStr s) = quote html s"
| "render html (JArr xs) = CHR ''['' # commas (map (render html) xs) @ '']''"
| "render html (JObj kvs) =
     CHR ''{'' # commas (map (\<lambda>kv. quote html (fst kv) @ CHR '':'' # render html (snd kv)) kvs) @ ''}''"
  by pat_completeness auto

lemma size_member: "kv \<in> set kvs \<Longrightarrow> size (snd kv) \<le> size_list (size_prod (\<lambda>_. 0) size) kvs"
  by (rule size_list_estimation' [of kv], assumption) (cases kv, simp)

termination render
  by (relation "measure (\<lambda>(html, j). size j)")
    (auto simp: less_Suc_eq_le intro: size_list_estimation' size_member [of "(a, b)" for a b, simplified])

section \<open>Reading\<close>

fun skip_ws :: "string \<Rightarrow> string" where
  "skip_ws [] = []"
| "skip_ws (c # cs) = (if c \<in> {CHR '' '', CHR 0x09, CHR 0x0A, CHR 0x0D} then skip_ws cs else c # cs)"

fun read_literal :: "string \<Rightarrow> json \<Rightarrow> string \<Rightarrow> (json \<times> string) option" where
  "read_literal [] j s = Some (j, s)"
| "read_literal (w # ws) j [] = None"
| "read_literal (w # ws) j (c # cs) = (if c = w then read_literal ws j cs else None)"

text \<open>An integer: no leading zero, no fraction or exponent.\<close>

definition read_number :: "bool \<Rightarrow> string \<Rightarrow> (json \<times> string) option" where
  "read_number neg s =
     (let ds = takeWhile is_digit s; rest = dropWhile is_digit s in
      if ds = [] \<or> hd ds = CHR ''0'' \<and> length ds > 1 then None
      else if rest \<noteq> [] \<and> hd rest \<in> {CHR ''.'', CHR ''e'', CHR ''E''} then None
      else Some (JInt (if neg then - int (read_digits ds) else int (read_digits ds)), rest))"

abbreviation map_result :: "('a \<Rightarrow> 'b) \<Rightarrow> ('a \<times> string) option \<Rightarrow> ('b \<times> string) option" where
  "map_result f r \<equiv> map_option (\<lambda>(x, rest). (f x, rest)) r"

text \<open>
  The fuel bounds the number of nested calls; \<open>parse\<close> gives as much as a text of its length can
  use.
\<close>

fun read_value :: "nat \<Rightarrow> string \<Rightarrow> (json \<times> string) option"
  and read_items :: "nat \<Rightarrow> string \<Rightarrow> (json list \<times> string) option"
  and read_fields :: "nat \<Rightarrow> string \<Rightarrow> ((string \<times> json) list \<times> string) option" where
  "read_value 0 s = None"
| "read_value (Suc n) s =
     (case skip_ws s of
        [] \<Rightarrow> None
      | c # cs \<Rightarrow>
          if c = CHR ''{'' then
            (case skip_ws cs of
               [] \<Rightarrow> None
             | d # ds \<Rightarrow> if d = CHR ''}'' then Some (JObj [], ds) else map_result JObj (read_fields n cs))
          else if c = CHR ''['' then
            (case skip_ws cs of
               [] \<Rightarrow> None
             | d # ds \<Rightarrow> if d = CHR '']'' then Some (JArr [], ds) else map_result JArr (read_items n cs))
          else if c = dq then map_result JStr (read_string cs)
          else if c = CHR ''-'' then read_number True cs
          else if is_digit c then read_number False (c # cs)
          else if c = CHR ''t'' then read_literal ''rue'' (JBool True) cs
          else if c = CHR ''f'' then read_literal ''alse'' (JBool False) cs
          else if c = CHR ''n'' then read_literal ''ull'' JNull cs
          else None)"
| "read_items 0 s = None"
| "read_items (Suc n) s =
     (case read_value n s of
        None \<Rightarrow> None
      | Some (x, r) \<Rightarrow>
          (case skip_ws r of
             [] \<Rightarrow> None
           | d # ds \<Rightarrow>
               if d = CHR '','' then map_result (\<lambda>xs. x # xs) (read_items n ds)
               else if d = CHR '']'' then Some ([x], ds) else None))"
| "read_fields 0 s = None"
| "read_fields (Suc n) s =
     (case skip_ws s of
        [] \<Rightarrow> None
      | q # qs \<Rightarrow>
          if q \<noteq> dq then None
          else (case read_string qs of
                  None \<Rightarrow> None
                | Some (k, r) \<Rightarrow>
                    (case skip_ws r of
                       [] \<Rightarrow> None
                     | d # ds \<Rightarrow>
                         if d \<noteq> CHR '':'' then None
                         else (case read_value n ds of
                                 None \<Rightarrow> None
                               | Some (v, r') \<Rightarrow>
                                   (case skip_ws r' of
                                      [] \<Rightarrow> None
                                    | e # es \<Rightarrow>
                                        if e = CHR '','' then map_result (\<lambda>kvs. (k, v) # kvs) (read_fields n es)
                                        else if e = CHR ''}'' then Some ([(k, v)], es) else None)))))"

definition parse :: "string \<Rightarrow> (json \<times> string) option" where
  "parse s = read_value (Suc (2 * length s)) s"

section \<open>Round trip\<close>

fun json_ascii :: "json \<Rightarrow> bool" where
  "json_ascii (JStr s) \<longleftrightarrow> ascii s"
| "json_ascii (JArr xs) \<longleftrightarrow> (\<forall>x \<in> set xs. json_ascii x)"
| "json_ascii (JObj kvs) \<longleftrightarrow> (\<forall>kv \<in> set kvs. ascii (fst kv) \<and> json_ascii (snd kv))"
| "json_ascii _ \<longleftrightarrow> True"

text \<open>What may follow a value: nothing, a delimiter, or a line break.\<close>

definition stops :: "string \<Rightarrow> bool" where
  "stops rest \<longleftrightarrow> rest = [] \<or> hd rest \<in> {CHR '','', CHR '']'', CHR ''}'', CHR 0x0A}"

text \<open>The fuel a value needs.\<close>

fun cost :: "json \<Rightarrow> nat" where
  "cost (JArr xs) = Suc (\<Sum>x\<leftarrow>xs. Suc (cost x))"
| "cost (JObj kvs) = Suc (\<Sum>kv\<leftarrow>kvs. Suc (cost (snd kv)))"
| "cost _ = 1"

lemma read_number_show:
  assumes "stops rest"
  shows "read_number neg (show_nat n @ rest) =
    Some (JInt (if neg then - int n else int n), rest)"
proof -
  have digits: "\<forall>c \<in> set (show_nat n). is_digit c" using show_nat_digits by blast
  have rest: "rest = [] \<or> \<not> is_digit (hd rest)" "rest \<noteq> [] \<Longrightarrow> hd rest \<notin> {CHR ''.'', CHR ''e'', CHR ''E''}"
    using assms by (auto simp: stops_def is_digit_def)
  have "takeWhile is_digit (show_nat n @ rest) = show_nat n"
    using digits rest(1) by (cases rest) (auto simp: takeWhile_append)
  moreover have "dropWhile is_digit (show_nat n @ rest) = rest"
    using digits rest(1) by (cases rest) (auto simp: dropWhile_append)
  moreover have "\<not> (hd (show_nat n) = CHR ''0'' \<and> length (show_nat n) > 1)"
    using hd_show_nat [of n] show_nat_0 by (cases "n = 0") auto
  ultimately show ?thesis using rest(2) by (auto simp: read_number_def Let_def)
qed

lemma read_value_int:
  assumes "stops rest"
  shows "read_value (Suc n) (show_int i @ rest) = Some (JInt i, rest)"
proof (cases "i < 0")
  case True
  then show ?thesis using read_number_show [OF assms, of True "nat (- i)"]
    by (simp add: show_int_def dq_def)
next
  case False
  obtain c cs where c: "show_nat (nat i) = c # cs" by (cases "show_nat (nat i)") auto
  then have "is_digit c" using show_nat_digits [of c "nat i"] by simp
  then have "c \<notin> {CHR '' '', CHR 0x09, CHR 0x0A, CHR 0x0D, CHR ''{'', CHR ''['', dq, CHR ''-''}"
    by (auto simp: is_digit_def dq_def)
  with False c read_number_show [OF assms, of False "nat i"] \<open>is_digit c\<close> show ?thesis
    by (simp add: show_int_def)
qed

lemma read_value_quote:
  "ascii s \<Longrightarrow> read_value (Suc n) (quote html s @ rest) = Some (JStr s, rest)"
  by (simp add: quote_def read_escapes) (simp add: dq_def)

lemma render_start:
  "\<exists>c cs. render html j = c # cs \<and>
     c \<notin> {CHR '' '', CHR 0x09, CHR 0x0A, CHR 0x0D, CHR '']'', CHR ''}''}"
proof (cases j)
  case (JInt i)
  obtain c cs where c: "show_nat (nat i) = c # cs" by (cases "show_nat (nat i)") auto
  then have "is_digit c" using show_nat_digits [of c "nat i"] by simp
  then have "c \<notin> {CHR '' '', CHR 0x09, CHR 0x0A, CHR 0x0D, CHR '']'', CHR ''}''}"
    by (auto simp: is_digit_def)
  with JInt c show ?thesis by (simp add: show_int_def)
qed (auto simp: quote_def dq_def)

lemma skip_ws_render: "\<exists>c cs. skip_ws (render html j @ s) = c # cs \<and> c \<notin> {CHR '']'', CHR ''}''}"
  using render_start [of html j] by auto

lemma read_items_render:
  assumes "\<And>x n rest. x \<in> set xs \<Longrightarrow> stops rest \<Longrightarrow> cost x \<le> n \<Longrightarrow>
      read_value n (render html x @ rest) = Some (x, rest)"
    and "xs \<noteq> []" and "(\<Sum>x\<leftarrow>xs. Suc (cost x)) \<le> n"
  shows "read_items n (commas (map (render html) xs) @ CHR '']'' # rest) = Some (xs, rest)"
  using assms
proof (induction xs arbitrary: n)
  case (Cons x xs)
  then obtain m where n: "n = Suc m" "cost x \<le> m" "(\<Sum>x\<leftarrow>xs. Suc (cost x)) \<le> m"
    by (cases n) auto
  show ?case
  proof (cases "xs = []")
    case True
    have "read_value m (render html x @ CHR '']'' # rest) = Some (x, CHR '']'' # rest)"
      using n(2) by (intro Cons.prems(1)) (simp_all add: stops_def)
    with True n(1) show ?thesis by simp
  next
    case False
    have "read_items m (commas (map (render html) xs) @ CHR '']'' # rest) = Some (xs, rest)"
      using False n(3) by (intro Cons.IH Cons.prems(1)) simp_all
    moreover have "read_value m (render html x @ CHR '','' # r) = Some (x, CHR '','' # r)" for r
      using n(2) by (intro Cons.prems(1)) (simp_all add: stops_def)
    ultimately show ?thesis using False n(1) by (simp add: commas_Cons)
  qed
qed simp

abbreviation render_field :: "bool \<Rightarrow> string \<times> json \<Rightarrow> string" where
  "render_field html kv \<equiv> quote html (fst kv) @ CHR '':'' # render html (snd kv)"

lemma read_fields_step:
  assumes "ascii k" and "read_value n (t @ rest) = Some (v, rest)"
  shows "read_fields (Suc n) (quote html k @ CHR '':'' # t @ rest) =
    (case skip_ws rest of [] \<Rightarrow> None
     | e # es \<Rightarrow>
         if e = CHR '','' then map_result (\<lambda>kvs. (k, v) # kvs) (read_fields n es)
         else if e = CHR ''}'' then Some ([(k, v)], es) else None)"
  using assms by (simp add: quote_def read_escapes) (simp add: dq_def)

lemma read_fields_render:
  assumes "\<And>kv n rest. kv \<in> set kvs \<Longrightarrow> stops rest \<Longrightarrow> cost (snd kv) \<le> n \<Longrightarrow>
      read_value n (render html (snd kv) @ rest) = Some (snd kv, rest)"
    and "\<And>kv. kv \<in> set kvs \<Longrightarrow> ascii (fst kv)"
    and "kvs \<noteq> []" and "(\<Sum>kv\<leftarrow>kvs. Suc (cost (snd kv))) \<le> n"
  shows "read_fields n (commas (map (render_field html) kvs) @ CHR ''}'' # rest) = Some (kvs, rest)"
  using assms
proof (induction kvs arbitrary: n)
  case (Cons kv kvs)
  then obtain m where n: "n = Suc m" "cost (snd kv) \<le> m" "(\<Sum>kv\<leftarrow>kvs. Suc (cost (snd kv))) \<le> m"
    by (cases n) auto
  have k: "ascii (fst kv)" using Cons.prems(2) by simp
  have v: "read_value m (render html (snd kv) @ r) = Some (snd kv, r)" if "stops r" for r
    using n(2) that by (intro Cons.prems(1)) simp_all
  show ?case
  proof (cases "kvs = []")
    case True
    have "stops (CHR ''}'' # rest)" by (simp add: stops_def)
    from read_fields_step [OF k v [OF this]] True n(1) show ?thesis by simp
  next
    case False
    let ?r = "CHR '','' # commas (map (render_field html) kvs) @ CHR ''}'' # rest"
    have "read_fields m (commas (map (render_field html) kvs) @ CHR ''}'' # rest) = Some (kvs, rest)"
      using False n(3) by (intro Cons.IH Cons.prems(1,2)) simp_all
    moreover have "stops ?r" by (simp add: stops_def)
    ultimately show ?thesis using False n(1) read_fields_step [OF k v [OF \<open>stops ?r\<close>]]
      by (simp add: commas_Cons)
  qed
qed simp

lemma read_render:
  "json_ascii j \<Longrightarrow> stops rest \<Longrightarrow> cost j \<le> n \<Longrightarrow>
     read_value n (render html j @ rest) = Some (j, rest)"
proof (induction j arbitrary: n rest)
  case (JArr xs)
  then obtain m where n: "n = Suc m" "(\<Sum>x\<leftarrow>xs. Suc (cost x)) \<le> m" by (cases n) auto
  show ?case
  proof (cases xs)
    case Nil
    with n(1) show ?thesis by simp
  next
    case (Cons x ys)
    obtain c cs where "skip_ws (commas (map (render html) xs) @ CHR '']'' # rest) = c # cs" "c \<noteq> CHR '']''"
      using skip_ws_render [of html x "(if ys = [] then [] else CHR '','' # commas (map (render html) ys)) @ CHR '']'' # rest"]
      by (auto simp: Cons commas_Cons split: if_splits)
    moreover have "read_items m (commas (map (render html) xs) @ CHR '']'' # rest) = Some (xs, rest)"
      using JArr Cons n(2) by (intro read_items_render) auto
    ultimately show ?thesis using n(1) by simp
  qed
next
  case (JObj kvs)
  then obtain m where n: "n = Suc m" "(\<Sum>kv\<leftarrow>kvs. Suc (cost (snd kv))) \<le> m" by (cases n) auto
  show ?case
  proof (cases kvs)
    case Nil
    with n(1) show ?thesis by simp
  next
    case (Cons kv kvs')
    have skip: "skip_ws (dq # t) = dq # t" for t by (simp add: dq_def)
    obtain cs where "skip_ws (commas (map (render_field html) kvs) @ CHR ''}'' # rest) = dq # cs"
      by (cases "kvs' = []") (simp_all add: Cons commas_Cons quote_def skip del: skip_ws.simps)
    moreover have "read_fields m (commas (map (render_field html) kvs) @ CHR ''}'' # rest) = Some (kvs, rest)"
      using JObj Cons n(2) by (intro read_fields_render) (auto intro!: JObj.IH simp: snds.simps)
    ultimately show ?thesis using n(1) by (simp add: dq_def)
  qed
next
  case (JStr s)
  then show ?case using read_value_quote by (cases n) auto
next
  case (JInt i)
  then show ?case using read_value_int by (cases n) auto
next
  case (JBool b)
  then show ?case by (cases n) (auto simp: dq_def is_digit_def)
next
  case JNull
  then show ?case by (cases n) (auto simp: dq_def is_digit_def)
qed

lemma commas_length:
  "xs \<noteq> [] \<Longrightarrow> Suc (length (commas (map f xs))) = (\<Sum>x\<leftarrow>xs. Suc (length (f x)))"
  by (induction xs) (auto simp: commas_Cons)

lemma cost_length: "cost j \<le> 2 * length (render html j)"
proof (induction j)
  case (JArr xs)
  have "(\<Sum>x\<leftarrow>xs. Suc (cost x)) \<le> (\<Sum>x\<leftarrow>xs. 2 * Suc (length (render html x)))"
    using JArr by (intro sum_list_mono) (simp add: le_SucI)
  also have "\<dots> = 2 * (\<Sum>x\<leftarrow>xs. Suc (length (render html x)))" by (induction xs) simp_all
  finally show ?case using commas_length [of xs "render html"] by (cases "xs = []") auto
next
  case (JObj kvs)
  have "(\<Sum>kv\<leftarrow>kvs. Suc (cost (snd kv))) \<le> (\<Sum>kv\<leftarrow>kvs. 2 * Suc (length (render_field html kv)))"
  proof (rule sum_list_mono)
    fix kv assume "kv \<in> set kvs"
    then have "cost (snd kv) \<le> 2 * length (render html (snd kv))" by (rule JObj) (simp add: snds.simps)
    then show "Suc (cost (snd kv)) \<le> 2 * Suc (length (render_field html kv))" by simp
  qed
  also have "\<dots> = 2 * (\<Sum>kv\<leftarrow>kvs. Suc (length (render_field html kv)))" by (induction kvs) simp_all
  finally show ?case using commas_length [of kvs "render_field html"] by (cases "kvs = []") auto
next
  case (JStr s)
  show ?case by (simp add: quote_def)
next
  case (JInt i)
  have "length (show_nat n) > 0" for n by simp
  then have "show_int i \<noteq> []" by (auto simp: show_int_def)
  then have "1 \<le> length (show_int i)" by (cases "show_int i") auto
  then show ?case by simp
qed simp_all

text \<open>
  What a writer writes is read back, whatever follows that cannot be taken for a part of the
  value.
\<close>

lemma parse_render:
  "json_ascii j \<Longrightarrow> stops rest \<Longrightarrow> parse (render html j @ rest) = Some (j, rest)"
  unfolding parse_def using cost_length [of j html] by (intro read_render) simp_all

end
