(* ===== verification/Heartbeat_Log.thy ===== *)
theory Heartbeat_Log
  imports Json Dispatch
begin

text \<open>
  \<open>logHeartbeat\<close> of \<open>scheduler/main.go\<close>: the lines a heartbeat leaves in the scheduler's log, one
  per MIG slice or one for the whole GPU, and the endpoint with the line it writes. The time stamp
  the standard logger puts before a line is left out.
\<close>

section \<open>Formatting\<close>

text \<open>\<open>%nd\<close> pads with spaces on the left.\<close>

definition pad_left :: "nat \<Rightarrow> string \<Rightarrow> string" where
  "pad_left n s = replicate (n - length s) CHR '' '' @ s"

text \<open>
  \<open>%.0f\<close>: the exact value of the float, rounded to the nearest integer, a tie to the even one. A
  value that rounds to zero from below keeps its sign.
\<close>

fun show_f0 :: "f64 \<Rightarrow> string" where
  "show_f0 (Fin q) = (if q < 0 then CHR ''-'' # show_int (rne (- q)) else show_int (rne q))"
| "show_f0 PosInf = ''+Inf''"
| "show_f0 NegInf = ''-Inf''"
| "show_f0 NaN = ''NaN''"

text \<open>\<open>strings.Join\<close>.\<close>

fun Join :: "string list \<Rightarrow> string \<Rightarrow> string" where
  "Join [] sep = []"
| "Join [s] sep = s"
| "Join (s # t # ss) sep = s @ sep @ Join (t # ss) sep"

section \<open>The lines\<close>

definition usedPct :: "i64 \<Rightarrow> i64 \<Rightarrow> f64" where
  "usedPct used tot = (if 0 < sint tot then f64_pct (sint used) (sint tot) else Fin 0)"

definition models_text :: "string list \<Rightarrow> string" where
  "models_text ms = (if ms = [] then ''idle'' else Join ms '', '')"

text \<open>The part the two formats share. The subtraction is that of \<open>int64\<close>.\<close>

definition vram_text :: "i64 \<Rightarrow> i64 \<Rightarrow> string list \<Rightarrow> string" where
  "vram_text tot used ms =
     ''  allotted='' @ pad_left 5 (show_int (sint tot)) @
     '' MiB  used='' @ pad_left 5 (show_int (sint used)) @
     '' MiB  free='' @ pad_left 5 (show_int (sint (tot - used))) @
     '' MiB  ('' @ show_f0 (usedPct used tot) @ ''%)  models: '' @ models_text ms"

definition slice_line :: "HeartbeatMsg \<Rightarrow> MIGSlice \<Rightarrow> string" where
  "slice_line msg s =
     ''[gpu] '' @ hb_NodeID msg @ ''/'' @ hb_GPUID msg @ '' slice='' @ pad_right 7 (s_SliceID s) @
     vram_text (s_TotalVRAMMiB s) (s_UsedVRAMMiB s) (s_LoadedModels s)"

definition logHeartbeat :: "HeartbeatMsg \<Rightarrow> string list" where
  "logHeartbeat msg =
     (if hb_MIGEnabled msg \<and> hb_MIGSlices msg \<noteq> [] then map (slice_line msg) (hb_MIGSlices msg)
      else [''[gpu] '' @ hb_NodeID msg @ ''/'' @ hb_GPUID msg @
        vram_text (hb_TotalVRAMMiB msg) (hb_UsedVRAMMiB msg) (hb_LoadedModels msg)])"

text \<open>The endpoint, with what it logs: a heartbeat is logged before it is known to fit.\<close>

definition serveHeartbeat ::
  "HeartbeatRequest \<Rightarrow> HeartbeatMsg chan \<Rightarrow> string list \<times> Response \<times> HeartbeatMsg chan" where
  "serveHeartbeat rq ch =
     (if hr_method rq \<noteq> ''POST'' then []
      else case hr_body rq of Inl e \<Rightarrow> [] | Inr msg \<Rightarrow> logHeartbeat msg,
      handleHeartbeat rq ch)"

lemma serveHeartbeat_snd: "serveHeartbeat rq ch = (lines, rsp, ch') \<Longrightarrow> handleHeartbeat rq ch = (rsp, ch')"
  by (simp add: serveHeartbeat_def)

section \<open>What a line shows\<close>

lemma f64_pct_range:
  assumes "0 \<le> u" and "u \<le> t" and "0 < t" and "t < 2 ^ 53"
  shows "\<exists>q. f64_pct u t = Fin q \<and> 0 \<le> q \<and> q \<le> 100"
proof -
  let ?q = "of_int u / of_int t :: rat"
  have v: "f64_pct u t = Fin (rnd (rnd ?q * 100))" using assms by (simp add: f64_pct_value)
  have q: "0 \<le> ?q" "?q \<le> 1" using assms by simp_all
  have "rnd 0 \<le> rnd ?q" using q(1) by (rule rnd_mono)
  moreover have "rnd ?q \<le> rnd 1" using q(2) by (rule rnd_mono)
  ultimately have r: "0 \<le> rnd ?q * 100" "rnd ?q * 100 \<le> 100" using rnd_int [of 1] by simp_all
  have "rnd 0 \<le> rnd (rnd ?q * 100)" using r(1) by (rule rnd_mono)
  moreover have "rnd (rnd ?q * 100) \<le> rnd 100" using r(2) by (rule rnd_mono)
  ultimately show ?thesis using v rnd_int [of 100] by simp
qed

lemma usedPct_range:
  assumes "0 \<le> sint used" and "sint used \<le> sint tot" and "sint tot < 2 ^ 53"
  shows "\<exists>q. usedPct used tot = Fin q \<and> 0 \<le> q \<and> q \<le> 100"
  using f64_pct_range [OF assms(1,2) _ assms(3)] by (simp add: usedPct_def)

lemma show_f0_range:
  assumes "0 \<le> q" and "q \<le> 100"
  shows "\<exists>k. show_f0 (Fin q) = show_int k \<and> 0 \<le> k \<and> k \<le> 100"
  using assms rne_mono [of 0 q] rne_mono [of q 100] rne_of_int [of 0] rne_of_int [of 100]
  by (intro exI [of _ "rne q"]) simp

lemma sint_free:
  fixes used tot :: i64
  assumes "0 \<le> sint used" and "sint used \<le> sint tot"
  shows "sint (tot - used) = sint tot - sint used"
proof -
  have "sint tot < 2 ^ 63" using sint_lt [of tot] by simp
  then have "signed_take_bit 63 (sint tot - sint used) = sint tot - sint used"
    using assms by (intro signed_take_bit_int_eq_self) simp_all
  moreover have "sint (tot - used) = signed_take_bit 63 (sint tot - sint used)"
    by (simp add: sint_word_ariths(2))
  ultimately show ?thesis by simp
qed

text \<open>A reading is sound when what is in use fits in what there is.\<close>

definition reading_ok :: "i64 \<Rightarrow> i64 \<Rightarrow> bool" where
  "reading_ok used tot \<longleftrightarrow> 0 \<le> sint used \<and> sint used \<le> sint tot \<and> sint tot < 2 ^ 53"

definition sound_text :: "i64 \<Rightarrow> i64 \<Rightarrow> string list \<Rightarrow> string \<Rightarrow> bool" where
  "sound_text tot used ms txt \<longleftrightarrow>
     (\<exists>k. 0 \<le> k \<and> k \<le> 100 \<and> txt = ''  allotted='' @ pad_left 5 (show_int (sint tot)) @
     '' MiB  used='' @ pad_left 5 (show_int (sint used)) @
     '' MiB  free='' @ pad_left 5 (show_int (sint tot - sint used)) @
     '' MiB  ('' @ show_int k @ ''%)  models: '' @ models_text ms)"

lemma vram_text_sound: "reading_ok used tot \<Longrightarrow> sound_text tot used ms (vram_text tot used ms)"
proof -
  assume r: "reading_ok used tot"
  then obtain q where q: "usedPct used tot = Fin q" "0 \<le> q" "q \<le> 100"
    using usedPct_range unfolding reading_ok_def by blast
  then obtain k where "show_f0 (Fin q) = show_int k" "0 \<le> k" "k \<le> 100"
    using show_f0_range by blast
  with q r show ?thesis
    unfolding sound_text_def vram_text_def by (auto simp: sint_free reading_ok_def)
qed

text \<open>
  For readings that are sound, every log line shows numbers that add up: the free memory is
  the difference of the two others, with no wrap-around, and the percentage is a whole number from
  0 to 100. There is one line per slice, in the order of the heartbeat, and one line for a GPU
  without slices; a MIG node that reports no slices is one line too.
\<close>

theorem log_lines_add_up:
  assumes "\<And>s. s \<in> set (hb_MIGSlices msg) \<Longrightarrow> reading_ok (s_UsedVRAMMiB s) (s_TotalVRAMMiB s)"
    and "reading_ok (hb_UsedVRAMMiB msg) (hb_TotalVRAMMiB msg)"
  shows "if hb_MIGEnabled msg \<and> hb_MIGSlices msg \<noteq> []
    then list_all2 (\<lambda>s l. \<exists>txt. sound_text (s_TotalVRAMMiB s) (s_UsedVRAMMiB s) (s_LoadedModels s) txt \<and>
        l = ''[gpu] '' @ hb_NodeID msg @ ''/'' @ hb_GPUID msg @ '' slice='' @
          pad_right 7 (s_SliceID s) @ txt) (hb_MIGSlices msg) (logHeartbeat msg)
    else \<exists>txt. sound_text (hb_TotalVRAMMiB msg) (hb_UsedVRAMMiB msg) (hb_LoadedModels msg) txt \<and>
        logHeartbeat msg = [''[gpu] '' @ hb_NodeID msg @ ''/'' @ hb_GPUID msg @ txt]"
  using vram_text_sound [OF assms(1)] vram_text_sound [OF assms(2)]
  by (auto simp: logHeartbeat_def slice_line_def list_all2_map2 intro!: list.rel_refl_strong)

definition demo_beat :: HeartbeatMsg where
  "demo_beat = \<lparr>hb_NodeID = ''n1'', hb_GPUID = ''g0'', hb_UsedVRAMMiB = 8192, hb_TotalVRAMMiB = 81920,
     hb_LoadedModels = [''phi''], hb_NVLinkEnabled = False, hb_MIGEnabled = True,
     hb_MIGSlices = [\<lparr>s_SliceID = ''0/0/0'', s_Profile = MIGProfile2g20gb, s_TotalVRAMMiB = 20480,
       s_UsedVRAMMiB = 8192, s_LoadedModels = [''phi'', ''bert''], s_Healthy = True\<rparr>],
     hb_ModelWeightAffinity = Map.empty, hb_AgentAddr = []\<rparr>"

theorem log_lines_add_up_witness:
  "\<exists>txt. sound_text 20480 8192 [''phi'', ''bert''] txt \<and>
     logHeartbeat demo_beat = [''[gpu] n1/g0 slice=0/0/0  '' @ txt]"
proof -
  have *: "list_all2 (\<lambda>s l. \<exists>txt. sound_text (s_TotalVRAMMiB s) (s_UsedVRAMMiB s) (s_LoadedModels s) txt \<and>
        l = ''[gpu] '' @ hb_NodeID demo_beat @ ''/'' @ hb_GPUID demo_beat @ '' slice='' @
          pad_right 7 (s_SliceID s) @ txt) (hb_MIGSlices demo_beat) (logHeartbeat demo_beat)"
    using log_lines_add_up [of demo_beat] by (simp add: demo_beat_def reading_ok_def)
  then show ?thesis by (auto simp: demo_beat_def pad_right_def list_all2_Cons1 numeral_2_eq_2)
qed

end
