(* ===== verification/Control_Plane.thy ===== *)
theory Control_Plane
  imports Heartbeat_Log Reconcile_Pass
begin

text \<open>
  \<open>scheduler/main.go\<close>: the wiring of the components, as a system of interleaved steps. A step of
  the reconciler is one iteration of the loops of \<open>reconcile\<close> or one blocking send, so requests
  are placed, heartbeats arrive and commands are posted in the middle of a pass.
\<close>

section \<open>The system\<close>

text \<open>
  The state \<open>main\<close> sets up and shares between its goroutines. The reconciler's desired state is
  in the gateway, which writes it. \<open>sy_pass\<close> is where the reconciler goroutine is and \<open>sy_unsent\<close>
  what it has to send before it goes on; it blocks on a full channel. \<open>sy_flights\<close> are the posts
  whose goroutines wait for an answer. Kept for the record are: the registries there have been;
  the heartbeats that were acknowledged, and those that were applied with the time; the actions
  the passes decided on and those the dispatcher took; the log; and the requests sent to agents.
\<close>

record system =
  sy_reg :: NodeRegistry
  sy_gateway :: gateway
  sy_heartbeats :: "HeartbeatMsg chan"
  sy_pass :: control
  sy_unsent :: "ReconcileAction list"
  sy_actions :: "ReconcileAction chan"
  sy_traffic :: TrafficAnalyzer
  sy_flights :: "post list"
  sy_seen :: "NodeRegistry set"
  sy_accepted :: "HeartbeatMsg list"
  sy_applied :: "(time \<times> HeartbeatMsg) list"
  sy_decided :: "ReconcileAction list"
  sy_handled :: "ReconcileAction list"
  sy_log :: "string list"
  sy_posts :: "(ReconcileAction \<times> post) list"

definition main_init :: "(nat \<Rightarrow> pendingRequest) \<Rightarrow> system" where
  "main_init mem =
     \<lparr>sy_reg = NewNodeRegistry,
      sy_gateway = NewGateway NewReconciler (NewQueue 50) mem,
      sy_heartbeats = make_chan 256,
      sy_pass = Idle,
      sy_unsent = [],
      sy_actions = make_chan 64,
      sy_traffic = NewTrafficAnalyzer (make_chan 1024) (make_chan 64),
      sy_flights = [],
      sy_seen = {NewNodeRegistry},
      sy_accepted = [],
      sy_applied = [],
      sy_decided = [],
      sy_handled = [],
      sy_log = [],
      sy_posts = []\<rparr>"

text \<open>
  The loop of the reconciler goroutine: between passes it applies a heartbeat or starts a pass at
  a tick; within one it advances to the next send, and sends.
\<close>

inductive reconciler_step :: "system \<Rightarrow> system \<Rightarrow> bool" where
  apply_heartbeat: "sy_pass s = Idle \<Longrightarrow> sy_unsent s = [] \<Longrightarrow>
    recv (sy_heartbeats s) = Some (hb, ch) \<Longrightarrow>
    reconciler_step s (s\<lparr>sy_heartbeats := ch, sy_reg := applyHeartbeat now hb (sy_reg s),
      sy_seen := insert (applyHeartbeat now hb (sy_reg s)) (sy_seen s),
      sy_applied := sy_applied s @ [(now, hb)]\<rparr>)"
| tick: "sy_pass s = Idle \<Longrightarrow> sy_unsent s = [] \<Longrightarrow> enumerates ks (nodes (sy_reg s)) \<Longrightarrow>
    reconciler_step s (s\<lparr>sy_pass := start_pass ks now (g_reconciler (sy_gateway s)) (sy_reg s)\<rparr>)"
| advance: "sy_pass s \<noteq> Idle \<Longrightarrow> sy_unsent s = [] \<Longrightarrow> pick_ok pick \<Longrightarrow>
    enumerates ks (nodes (sy_reg s)) \<Longrightarrow>
    pass_step pick ks (g_reconciler (sy_gateway s)) (sy_reg s) (sy_pass s) = (reg, c, acts) \<Longrightarrow>
    reconciler_step s (s\<lparr>sy_reg := reg, sy_seen := insert reg (sy_seen s), sy_pass := c,
      sy_unsent := acts, sy_decided := sy_decided s @ acts\<rparr>)"
| send_action: "sy_unsent s = a # rest \<Longrightarrow> try_send a (sy_actions s) = Some ch \<Longrightarrow>
    reconciler_step s (s\<lparr>sy_unsent := rest, sy_actions := ch\<rparr>)"

text \<open>The loop of \<open>handleActions\<close>: it takes an action or a prewarm signal.\<close>

inductive dispatcher_step :: "system \<Rightarrow> system \<Rightarrow> bool" where
  handle_action: "recv (sy_actions s) = Some (a, ch) \<Longrightarrow> handleAction (sy_reg s) a = (line, p) \<Longrightarrow>
    dispatcher_step s (s\<lparr>sy_actions := ch, sy_handled := sy_handled s @ [a], sy_log := sy_log s @ line # dropped a p,
      sy_flights := sy_flights s @ (case p of None \<Rightarrow> [] | Some p \<Rightarrow> [p]),
      sy_posts := sy_posts s @ (case p of None \<Rightarrow> [] | Some p \<Rightarrow> [(a, p)])\<rparr>)"
| handle_signal: "recv (signals (sy_traffic s)) = Some (sig, ch) \<Longrightarrow>
    dispatcher_step s (s\<lparr>sy_traffic := (sy_traffic s)\<lparr>signals := ch\<rparr>, sy_log := sy_log s @ [handleSignal sig]\<rparr>)"

text \<open>The heartbeat a reply acknowledges.\<close>

definition acknowledged :: "HeartbeatRequest \<Rightarrow> Response \<Rightarrow> HeartbeatMsg list" where
  "acknowledged rq rsp =
     (case hr_body rq of Inl _ \<Rightarrow> [] | Inr msg \<Rightarrow> if rs_status rsp = 204 then [msg] else [])"

text \<open>
  All goroutines: the heartbeat handlers, the \<open>/schedule\<close> handlers and the drain loop, the
  reconciler, the dispatcher, the goroutines of its posts, which log the answers in any order, the
  traffic analyzer and its clients. A step of the gateway that calls \<open>Schedule\<close> may have read the registry some time before.
\<close>

inductive sys_step :: "system \<Rightarrow> system \<Rightarrow> bool" where
  heartbeat: "serveHeartbeat rq (sy_heartbeats s) = (lines, rsp, ch) \<Longrightarrow>
    sys_step s (s\<lparr>sy_heartbeats := ch, sy_accepted := sy_accepted s @ acknowledged rq rsp,
      sy_log := sy_log s @ lines\<rparr>)"
| admission: "gw_step (sy_seen s) (sy_gateway s) g \<Longrightarrow> sys_step s (s\<lparr>sy_gateway := g\<rparr>)"
| reconciler: "reconciler_step s s' \<Longrightarrow> sys_step s s'"
| dispatcher: "dispatcher_step s s' \<Longrightarrow> sys_step s s'"
| answered: "p \<in> set (sy_flights s) \<Longrightarrow>
    sys_step s (s\<lparr>sy_flights := remove1 p (sy_flights s), sy_log := sy_log s @
      [dispatch_log (ac_Action (po_body p)) (ac_ModelName (po_body p)) (po_addr p) res]\<rparr>)"
| traffic: "ta_step (sy_traffic s) t \<Longrightarrow> sys_step s (s\<lparr>sy_traffic := t\<rparr>)"

text \<open>The steps with their premises, for the proofs.\<close>

inductive_cases sys_stepE: "sys_step s s'"
inductive_cases reconciler_stepE: "reconciler_step s s'"
inductive_cases dispatcher_stepE: "dispatcher_step s s'"

lemma sys_step_cases [consumes 1, case_names heartbeat admission apply_heartbeat tick advance
    send_action handle_action handle_signal answered traffic]:
  assumes "sys_step s s'"
  obtains rq lines rsp ch where "s' = s\<lparr>sy_heartbeats := ch,
        sy_accepted := sy_accepted s @ acknowledged rq rsp, sy_log := sy_log s @ lines\<rparr>"
      "handleHeartbeat rq (sy_heartbeats s) = (rsp, ch)"
  | g where "s' = s\<lparr>sy_gateway := g\<rparr>" "gw_step (sy_seen s) (sy_gateway s) g"
  | hb ch now where "s' = s\<lparr>sy_heartbeats := ch, sy_reg := applyHeartbeat now hb (sy_reg s),
        sy_seen := insert (applyHeartbeat now hb (sy_reg s)) (sy_seen s),
        sy_applied := sy_applied s @ [(now, hb)]\<rparr>"
      "sy_pass s = Idle" "sy_unsent s = []" "recv (sy_heartbeats s) = Some (hb, ch)"
  | ks now where "s' = s\<lparr>sy_pass := start_pass ks now (g_reconciler (sy_gateway s)) (sy_reg s)\<rparr>"
      "sy_pass s = Idle" "sy_unsent s = []" "enumerates ks (nodes (sy_reg s))"
  | pick ks reg c acts where "s' = s\<lparr>sy_reg := reg, sy_seen := insert reg (sy_seen s), sy_pass := c,
        sy_unsent := acts, sy_decided := sy_decided s @ acts\<rparr>"
      "sy_pass s \<noteq> Idle" "sy_unsent s = []" "pick_ok pick" "enumerates ks (nodes (sy_reg s))"
      "pass_step pick ks (g_reconciler (sy_gateway s)) (sy_reg s) (sy_pass s) = (reg, c, acts)"
  | a rest ch where "s' = s\<lparr>sy_unsent := rest, sy_actions := ch\<rparr>" "sy_unsent s = a # rest"
      "try_send a (sy_actions s) = Some ch"
  | a ch line p where "s' = s\<lparr>sy_actions := ch, sy_handled := sy_handled s @ [a], sy_log := sy_log s @ line # dropped a p,
        sy_flights := sy_flights s @ (case p of None \<Rightarrow> [] | Some p \<Rightarrow> [p]),
        sy_posts := sy_posts s @ (case p of None \<Rightarrow> [] | Some p \<Rightarrow> [(a, p)])\<rparr>"
      "recv (sy_actions s) = Some (a, ch)" "handleAction (sy_reg s) a = (line, p)"
  | sig ch where "s' = s\<lparr>sy_traffic := (sy_traffic s)\<lparr>signals := ch\<rparr>, sy_log := sy_log s @ [handleSignal sig]\<rparr>"
      "recv (signals (sy_traffic s)) = Some (sig, ch)"
  | p line where "s' = s\<lparr>sy_flights := remove1 p (sy_flights s), sy_log := sy_log s @ [line]\<rparr>"
      "p \<in> set (sy_flights s)"
  | t where "s' = s\<lparr>sy_traffic := t\<rparr>" "ta_step (sy_traffic s) t"
  using assms
proof (cases rule: sys_step.cases)
  case (heartbeat rq lines rsp ch)
  show thesis by (rule that(1) [OF heartbeat(1) serveHeartbeat_snd [OF heartbeat(2)]])
next
  case (admission g)
  then show thesis by (rule that(2))
next
  case reconciler
  then show thesis
  proof (cases rule: reconciler_step.cases)
    case (apply_heartbeat hb ch now)
    then show thesis by (rule that(3))
  next
    case (tick ks now)
    then show thesis by (rule that(4))
  next
    case (advance pick ks reg c acts)
    then show thesis by (rule that(5))
  next
    case (send_action a rest ch)
    then show thesis by (rule that(6))
  qed
next
  case dispatcher
  then show thesis
  proof (cases rule: dispatcher_step.cases)
    case (handle_action a ch line p)
    then show thesis by (rule that(7))
  next
    case (handle_signal sig ch)
    then show thesis by (rule that(8))
  qed
next
  case (answered p res)
  show thesis by (rule that(9) [OF answered])
next
  case (traffic t)
  then show thesis by (rule that(10))
qed

section \<open>From a reply to a command\<close>

lemma committed_mono_step: "gw_step R g g' \<Longrightarrow> committed g k \<subseteq> committed g' k"
  using replied_step by (fastforce simp: committed_def)

abbreviation target_key :: "ReconcileAction \<Rightarrow> string" where
  "target_key a \<equiv> sliceKey (a_NodeID a) (a_GPUID a) (a_SliceID a)"

text \<open>A PREWARM is justified by a placement a client was told of.\<close>

definition justified :: "gateway \<Rightarrow> ReconcileAction \<Rightarrow> bool" where
  "justified g a \<longleftrightarrow> (a_Type a = ActionPrewarm \<longrightarrow> a_ModelName a \<in> committed g (target_key a))"

definition post_ok :: "ReconcileAction \<Rightarrow> post \<Rightarrow> bool" where
  "post_ok a p \<longleftrightarrow> (\<exists>addr verb. addr \<noteq> [] \<and> po_url p = addr @ ''/command'' \<and>
     (a_Type a = ActionPrewarm \<and> verb = ''PREWARM'' \<or> a_Type a = ActionEvict \<and> verb = ''EVICT'') \<and>
     po_body p = \<lparr>ac_Action = verb, ac_ModelName = a_ModelName a, ac_Quantization = [],
       ac_SliceID = a_SliceID a\<rparr>)"
definition pending_actions :: "system \<Rightarrow> ReconcileAction set" where
  "pending_actions s = set (sy_unsent s) \<union> set (ch_buf (sy_actions s)) \<union> fst ` set (sy_posts s)"

definition gateway_reached :: "NodeRegistry set \<Rightarrow> gateway \<Rightarrow> bool" where
  "gateway_reached R g \<longleftrightarrow> (\<exists>mem. (gw_step R)\<^sup>*\<^sup>* (NewGateway NewReconciler (NewQueue 50) mem) g)"

definition sys_inv :: "system \<Rightarrow> bool" where
  "sys_inv s \<longleftrightarrow> gateway_reached (sy_seen s) (sy_gateway s) \<and> registry_ok (sy_reg s) \<and>
     (\<forall>a \<in> pending_actions s. justified (sy_gateway s) a) \<and>
     (\<forall>(a, p) \<in> set (sy_posts s). post_ok a p)"

lemma gateway_reached_mono: "gateway_reached R g \<Longrightarrow> R \<subseteq> R' \<Longrightarrow> gateway_reached R' g"
  unfolding gateway_reached_def by (blast intro: gw_steps_mono)

lemma gateway_reached_step: "gateway_reached R g \<Longrightarrow> gw_step R g g' \<Longrightarrow> gateway_reached R g'"
  unfolding gateway_reached_def by (blast intro: rtranclp.rtrancl_into_rtrancl)

lemma desired_is_committed:
  assumes "gateway_reached R g"
  shows "desired_models (g_reconciler g) k = committed g k"
proof -
  from assms obtain mem where "(gw_step R)\<^sup>*\<^sup>* (NewGateway NewReconciler (NewQueue 50) mem) g"
    unfolding gateway_reached_def by blast
  from gw_ledger.reachable_inv [OF _ this, of NewReconciler] have "ledger_inv NewReconciler g" by blast
  then show ?thesis
    by (simp add: ledger_inv_def) (simp add: desired_models_def desired_def NewReconciler_def)
qed
lemma drift_justified:
  assumes "gateway_reached R g" and "a \<in> drift (g_reconciler g) n sid loaded"
  shows "justified g a"
  using assms(2) desired_is_committed [OF assms(1)]
  by (auto simp: drift_def justified_def desired_models_def split: option.splits)
    fastforce

lemma handleAction_post: "handleAction r a = (line, Some p) \<Longrightarrow> post_ok a p"
  by (auto simp: handleAction_def dispatchToAgent_def Let_def post_ok_def
      split: ActionType.splits option.splits if_splits)

lemma sys_inv_frame:
  assumes "sys_inv s" and "gateway_reached (sy_seen s') (sy_gateway s')" and "registry_ok (sy_reg s')"
    and "\<And>k. committed (sy_gateway s) k \<subseteq> committed (sy_gateway s') k"
    and "\<And>a. a \<in> pending_actions s' \<Longrightarrow> a \<in> pending_actions s \<or> justified (sy_gateway s') a"
    and "\<And>a p. (a, p) \<in> set (sy_posts s') \<Longrightarrow> (a, p) \<in> set (sy_posts s) \<or> post_ok a p"
  shows "sys_inv s'"
  unfolding sys_inv_def
proof (intro conjI ballI)
  show "justified (sy_gateway s') a" if "a \<in> pending_actions s'" for a
    using assms(1) assms(4) assms(5) [OF that] unfolding sys_inv_def justified_def by blast
  show "case x of (a, p) \<Rightarrow> post_ok a p" if "x \<in> set (sy_posts s')" for x
    using assms(1) assms(6) [of "fst x" "snd x"] that unfolding sys_inv_def by (auto simp: split_def)
qed (rule assms)+
lemma pass_step_actions:
  assumes "pass_step pick ks r reg c = (reg', c', acts)"
    and "pick_ok pick" and "enumerates ks (nodes reg)" and a: "a \<in> set acts"
  shows "(\<exists>n. a = dead_action n) \<or> (\<exists>n sid loaded. a \<in> drift r n sid loaded)"
proof -
  obtain U where "set acts = (\<Union>u \<in> U. unit_drift r u) \<union>
      (case c of Marking (n # ns) \<Rightarrow> {dead_action n} | _ \<Rightarrow> {})"
    using pass_step_units [OF assms(1-3)] by metis
  with a show ?thesis by (auto split: control.splits list.splits)
qed

lemma pass_step_registry:
  assumes "pass_step pick ks r reg c = (reg', c', acts)"
  shows "registry_ok reg \<Longrightarrow> registry_ok reg'" "dom (nodes reg') = dom (nodes reg)"
  using assms by (induction pick ks r reg c rule: pass_step.induct)
    (auto simp: nodes_MarkUnhealthy intro: registry_ok_MarkUnhealthy split: if_splits option.splits)

lemma advance_justified:
  assumes "gateway_reached R g" and "pick_ok pick" and "enumerates ks (nodes reg)"
    and "pass_step pick ks (g_reconciler g) reg c = (reg', c', acts)" and "a \<in> set acts"
  shows "justified g a"
  using pass_step_actions [OF assms(4,2,3,5)] drift_justified [OF assms(1)]
  by (auto simp: justified_def dead_action_def)

lemma sys_inv_step:
  assumes inv: "sys_inv s" and "sys_step s s'"
  shows "sys_inv s'"
  using assms(2)
proof (cases rule: sys_step_cases)
  case (heartbeat rq lines rsp ch)
  with inv show ?thesis by (intro sys_inv_frame [OF inv]) (auto simp: sys_inv_def pending_actions_def)
next
  case (admission g)
  with inv show ?thesis
    using committed_mono_step [OF admission(2)] gateway_reached_step [OF _ admission(2)]
    by (intro sys_inv_frame [OF inv]) (auto simp: sys_inv_def pending_actions_def)
next
  case (apply_heartbeat hb ch now)
  have "gateway_reached (sy_seen s') (sy_gateway s)"
    using inv gateway_reached_mono [of "sy_seen s" _ "sy_seen s'"] apply_heartbeat(1)
    by (auto simp: sys_inv_def)
  with inv apply_heartbeat show ?thesis
    by (intro sys_inv_frame [OF inv])
      (auto simp: sys_inv_def pending_actions_def applyHeartbeat_def registry_ok_Upsert)
next
  case (advance pick ks reg c acts)
  have pre: "gateway_reached (sy_seen s) (sy_gateway s)" "registry_ok (sy_reg s)" using inv by (simp_all add: sys_inv_def)
  note just = advance_justified [OF pre(1) advance(4-6)]
  have "registry_ok reg" using pass_step_registry(1) [OF advance(6) pre(2)] .
  moreover have "gateway_reached (sy_seen s') (sy_gateway s)"
    by (rule gateway_reached_mono [OF pre(1)]) (auto simp: advance(1))
  ultimately show ?thesis using pre advance(1) just
    by (intro sys_inv_frame [OF inv]) (auto simp: pending_actions_def)
next
  case (send_action a rest ch)
  with inv show ?thesis
    by (intro sys_inv_frame [OF inv]) (auto simp: sys_inv_def pending_actions_def try_send_Some)
next
  case (handle_action a ch line p)
  then have a: "a \<in> pending_actions s" "set (ch_buf ch) \<subseteq> set (ch_buf (sy_actions s))"
    by (auto simp: recv_def pending_actions_def split: list.splits)
  with inv handle_action show ?thesis
    using handleAction_post [of "sy_reg s" a line]
    by (intro sys_inv_frame [OF inv])
      (auto simp: sys_inv_def pending_actions_def split: option.splits)
qed (use inv in \<open>intro sys_inv_frame [OF inv]; auto simp: sys_inv_def pending_actions_def\<close>)+

lemma sys_inv_init: "sys_inv (main_init mem)"
  by (auto simp: sys_inv_def main_init_def gateway_reached_def registry_ok_New pending_actions_def
      make_chan_def)

interpretation sys_runs: invariant_system "\<lambda>s. \<exists>mem. s = main_init mem" sys_step sys_inv
  by unfold_locales (auto simp: sys_inv_init intro: sys_inv_step)

text \<open>Behind a committed placement there is a reply.\<close>

lemma committed_reply:
  assumes "sys_inv s" and "m \<in> committed (sy_gateway s) k"
  shows "\<exists>i rq r req d. g_handlers (sy_gateway s) i = Some \<lparr>h_request = rq, h_state = Replied r\<rparr> \<and>
    rs_status r = 200 \<and> rs_body r = DecisionJSON d \<and> rq_body rq = Inr req \<and> ModelName req = m \<and>
    sliceKey (d_NodeID d) (d_GPUID d) (d_SliceID d) = k"
proof -
  obtain g0 where reach: "(gw_step (sy_seen s))\<^sup>*\<^sup>* (NewGateway NewReconciler (NewQueue 50) g0) (sy_gateway s)"
    using assms(1) by (auto simp: sys_inv_def gateway_reached_def)
  have "rs_status r = 200"
    if "g_handlers (sy_gateway s) i = Some \<lparr>h_request = rq, h_state = Replied r\<rparr>"
      "rs_body r = DecisionJSON d" for i rq r d
    using gw_invD(6) [OF reachable_gw_inv [OF reach] that(1)] that(2)
    by (auto simp: handler_ok_def reply_ok_def)
  with assms(2) show ?thesis unfolding committed_def by fastforce
qed

text \<open>
  C3. End to end: in every interleaving of the whole scheduler, each request it sent to an agent is
  a PREWARM or EVICT posted to \<open>/command\<close> at a non-empty address, and a PREWARM names a model
  and a slice for which a client is answered 200 with a decision for that slice, its reply written
  or about to be. No model is loaded that was not placed.
\<close>

theorem commands_follow_replies:
  assumes "sys_step\<^sup>*\<^sup>* (main_init mem) s" and "(a, p) \<in> set (sy_posts s)"
  shows "(\<exists>addr. addr \<noteq> [] \<and> po_url p = addr @ ''/command'') \<and>
    ac_Action (po_body p) \<in> {''PREWARM'', ''EVICT''} \<and>
    (ac_Action (po_body p) = ''PREWARM'' \<longrightarrow> (\<exists>i rq r req d.
      g_handlers (sy_gateway s) i = Some \<lparr>h_request = rq, h_state = Replied r\<rparr> \<and>
      rs_status r = 200 \<and> rs_body r = DecisionJSON d \<and> rq_body rq = Inr req \<and>
      ModelName req = ac_ModelName (po_body p) \<and>
      sliceKey (d_NodeID d) (d_GPUID d) (d_SliceID d) =
        sliceKey (a_NodeID a) (a_GPUID a) (ac_SliceID (po_body p))))"
proof -
  have inv: "sys_inv s" using sys_runs.reachable_inv [OF _ assms(1)] by blast
  have "a \<in> pending_actions s" using assms(2) by (force simp: pending_actions_def)
  with inv assms(2) have post: "post_ok a p" and just: "justified (sy_gateway s) a"
    by (auto simp: sys_inv_def)
  have "\<exists>i rq r req d. g_handlers (sy_gateway s) i = Some \<lparr>h_request = rq, h_state = Replied r\<rparr> \<and>
      rs_status r = 200 \<and> rs_body r = DecisionJSON d \<and> rq_body rq = Inr req \<and>
      ModelName req = a_ModelName a \<and>
      sliceKey (d_NodeID d) (d_GPUID d) (d_SliceID d) = target_key a"
    if "a_Type a = ActionPrewarm"
    using committed_reply [OF inv] just that unfolding justified_def by blast
  with post show ?thesis by (auto simp: post_ok_def)
qed

section \<open>Channels and progress\<close>

definition channels_ok :: "system \<Rightarrow> bool" where
  "channels_ok s \<longleftrightarrow> ch_ok (sy_heartbeats s) \<and> ch_cap (sy_heartbeats s) = 256 \<and>
     ch_ok (sy_actions s) \<and> ch_cap (sy_actions s) = 64 \<and> ta_ok (sy_traffic s)"

lemma handleHeartbeat_channel:
  "handleHeartbeat rq ch = (rsp, ch') \<Longrightarrow> ch_ok ch \<Longrightarrow> ch_ok ch' \<and> ch_cap ch' = ch_cap ch"
  by (auto simp: handleHeartbeat_def ch_ok_def try_send_def split: if_splits sum.splits)

lemma recv_channel: "recv ch = Some (x, ch') \<Longrightarrow> ch_ok ch \<Longrightarrow> ch_ok ch' \<and> ch_cap ch' = ch_cap ch"
  by (auto simp: recv_def ch_ok_def split: list.splits)

lemma channels_ok_step:
  assumes ok: "channels_ok s" and "sys_step s s'"
  shows "channels_ok s'"
  using assms(2)
proof (cases rule: sys_step_cases)
  case (heartbeat rq lines rsp ch)
  with ok handleHeartbeat_channel [OF heartbeat(2)] show ?thesis by (simp add: channels_ok_def)
next
  case (apply_heartbeat hb ch now)
  with ok recv_channel [OF apply_heartbeat(4)] show ?thesis by (simp add: channels_ok_def)
next
  case (send_action a rest ch)
  with ok ch_ok_try_send [OF send_action(3)] show ?thesis by (auto simp: channels_ok_def try_send_Some)
next
  case (handle_action a ch line p)
  with ok recv_channel [OF handle_action(2)] show ?thesis by (simp add: channels_ok_def)
next
  case (traffic t)
  with ok ta_ok_step [OF _ traffic(2)] show ?thesis by (simp add: channels_ok_def)
next
  case (handle_signal sig ch)
  with ok recv_channel [OF handle_signal(2)] show ?thesis by (simp add: channels_ok_def ta_ok_def)
qed (use ok in \<open>simp_all add: channels_ok_def\<close>)

interpretation sys_channels: invariant_system "\<lambda>s. \<exists>mem. s = main_init mem" sys_step channels_ok
proof unfold_locales
  show "channels_ok s" if "\<exists>mem. s = main_init mem" for s
    using that by (auto simp: channels_ok_def main_init_def ta_ok_def NewTrafficAnalyzer_def)
      (simp_all add: make_chan_def)
qed (rule channels_ok_step)

section \<open>A concrete run\<close>

text \<open>
  A node reports, a request is placed on it, the reconciler ticks, has the model loaded, and the
  dispatcher posts the command.
\<close>

definition gw_x :: gateway where
  "gw_x = HandleSchedule_start insertion_sort [''a/g''] reg_a 7 demo_rq
     (NewGateway NewReconciler (NewQueue 50) demo_mem)"

definition node_a :: GPUNode where
  "node_a = (node_of_heartbeat 0 (demo_hb []))\<lparr>Healthy := True\<rparr>"

lemma nodes_reg_a: "nodes reg_a = [''a/g'' \<mapsto> node_a]"
  by (simp add: reg_a_def applyHeartbeat_def nodes_Upsert key_of_def node_key_def node_of_heartbeat_def
      node_a_def demo_hb_def slash_def NewNodeRegistry_def)

lemma reg_a_keys: "enumerates [''a/g''] (nodes reg_a)"
  by (simp add: enumerates_def nodes_reg_a)

lemma demo_pass_steps:
  "start_pass [''a/g''] 0 (g_reconciler gw_x) reg_a = Marking []"
  "pass_step in_order [''a/g''] r reg_a (Marking []) = (reg_a, Visiting [node_a], [])"
  "pass_step in_order [''a/g''] (g_reconciler gw_x) reg_a (Visiting [node_a]) = (reg_a, Visiting [], [prewarm_x])"
proof -
  have "staleTimeout (g_reconciler gw_x) = 2 * Second" by code_simp
  then show "start_pass [''a/g''] 0 (g_reconciler gw_x) reg_a = Marking []"
    by (simp add: start_pass_def StaleNodes_def nodes_reg_a node_a_def node_of_heartbeat_def Second_def
        map_filter_def)
  show "pass_step in_order [''a/g''] r reg_a (Marking []) = (reg_a, Visiting [node_a], [])"
    by (simp add: All_def nodes_reg_a node_a_def map_filter_def)
  have "reconcileNonMIGNode in_order (g_reconciler gw_x) node_a = [prewarm_x]" by code_simp
  moreover have "\<not> MIGEnabled node_a" by (simp add: node_a_def node_of_heartbeat_def demo_hb_def)
  ultimately show "pass_step in_order [''a/g''] (g_reconciler gw_x) reg_a (Visiting [node_a]) =
      (reg_a, Visiting [], [prewarm_x])" by simp
qed

definition sys_placed :: system where
  "sys_placed = (main_init demo_mem)\<lparr>sy_reg := reg_a, sy_gateway := gw_x,
     sy_seen := {reg_a, NewNodeRegistry}, sy_accepted := [demo_hb []], sy_applied := [(0, demo_hb [])],
     sy_log := logHeartbeat (demo_hb [])\<rparr>"

lemmas demo_state = sys_placed_def main_init_def make_chan_def

text \<open>The node's heartbeat waits in the channel, and is applied.\<close>

definition sys_reported :: system where
  "sys_reported = (main_init demo_mem)\<lparr>sy_heartbeats := \<lparr>ch_buf = [demo_hb []], ch_cap = 256\<rparr>,
     sy_accepted := [demo_hb []], sy_log := logHeartbeat (demo_hb [])\<rparr>"

definition sys_known :: system where
  "sys_known = (main_init demo_mem)\<lparr>sy_reg := reg_a, sy_seen := {reg_a, NewNodeRegistry},
     sy_accepted := [demo_hb []], sy_applied := [(0, demo_hb [])], sy_log := logHeartbeat (demo_hb [])\<rparr>"

lemma demo_intake: "sys_step (main_init demo_mem) sys_reported" "sys_step sys_reported sys_known"
proof -
  show "sys_step (main_init demo_mem) sys_reported"
    using sys_step.heartbeat [of "\<lparr>hr_method = ''POST'', hr_body = Inr (demo_hb [])\<rparr>" "main_init demo_mem"
        "logHeartbeat (demo_hb [])" "http_error [] 204" "\<lparr>ch_buf = [demo_hb []], ch_cap = 256\<rparr>"]
    by (simp add: serveHeartbeat_def handleHeartbeat_def acknowledged_def http_error_def main_init_def
        make_chan_def try_send_def sys_reported_def)
  show "sys_step sys_reported sys_known"
    using sys_step.reconciler [OF reconciler_step.apply_heartbeat [of sys_reported "demo_hb []" "make_chan 256" 0]]
    by (simp add: sys_reported_def sys_known_def main_init_def recv_def make_chan_def reg_a_def)
qed

lemma run_placed_sys: "sys_step\<^sup>*\<^sup>* (main_init demo_mem) sys_placed"
proof -
  have "gw_step (sy_seen sys_known) (sy_gateway sys_known) gw_x"
    unfolding gw_x_def using go_insertion.slice_sorter_axioms reg_a_keys
    by (simp add: sys_known_def main_init_def) (rule gw_step.request, simp_all add: NewGateway_def)
  then have "sys_step sys_known sys_placed"
    unfolding sys_placed_def sys_known_def using sys_step.admission [of sys_known gw_x]
    by (simp add: sys_known_def main_init_def)
  with demo_intake show ?thesis by (meson rtranclp.rtrancl_into_rtrancl rtranclp.rtrancl_refl)
qed

text \<open>The pass that follows, state by state.\<close>

definition demo_run :: "nat \<Rightarrow> system" where
  "demo_run i =
     (if i = 0 then sys_placed
      else if i = 1 then sys_placed\<lparr>sy_pass := Marking []\<rparr>
      else if i = 2 then sys_placed\<lparr>sy_pass := Visiting [node_a]\<rparr>
      else if i = 3 then sys_placed\<lparr>sy_pass := Visiting [], sy_unsent := [prewarm_x], sy_decided := [prewarm_x]\<rparr>
      else if i = 4 then sys_placed\<lparr>sy_pass := Visiting [], sy_actions := \<lparr>ch_buf = [prewarm_x], ch_cap = 64\<rparr>,
        sy_decided := [prewarm_x]\<rparr>
      else if i = 5 then sys_placed\<lparr>sy_actions := \<lparr>ch_buf = [prewarm_x], ch_cap = 64\<rparr>, sy_decided := [prewarm_x]\<rparr>
      else sys_placed\<lparr>sy_flights := [post_x], sy_decided := [prewarm_x], sy_handled := [prewarm_x],
        sy_log := logHeartbeat (demo_hb []) @ [fst (handleAction reg_a prewarm_x)], sy_posts := [(prewarm_x, post_x)]\<rparr>)"

lemma demo_moves:
  "reconciler_step (demo_run 0) (demo_run 1)" "reconciler_step (demo_run 1) (demo_run 2)"
  "reconciler_step (demo_run 2) (demo_run 3)" "reconciler_step (demo_run 3) (demo_run 4)"
  "reconciler_step (demo_run 4) (demo_run 5)" "dispatcher_step (demo_run 5) (demo_run 6)"
proof -
  show "reconciler_step (demo_run 0) (demo_run 1)"
    using reconciler_step.tick [of sys_placed "[''a/g'']" 0] reg_a_keys demo_pass_steps(1)
    by (simp add: demo_run_def demo_state)
  show "reconciler_step (demo_run 1) (demo_run 2)"
    using reconciler_step.advance [of "demo_run 1" in_order "[''a/g'']" reg_a "Visiting [node_a]" "[]"]
      reg_a_keys demo_pass_steps(2) in_order_ok by (simp add: demo_run_def demo_state)
  show "reconciler_step (demo_run 2) (demo_run 3)"
    using reconciler_step.advance [of "demo_run 2" in_order "[''a/g'']" reg_a "Visiting []" "[prewarm_x]"]
      reg_a_keys demo_pass_steps(3) in_order_ok by (simp add: demo_run_def demo_state)
  show "reconciler_step (demo_run 3) (demo_run 4)"
    using reconciler_step.send_action [of "demo_run 3" prewarm_x "[]" "\<lparr>ch_buf = [prewarm_x], ch_cap = 64\<rparr>"]
    by (simp add: demo_run_def demo_state try_send_def)
  show "reconciler_step (demo_run 4) (demo_run 5)"
    using reconciler_step.advance [of "demo_run 4" in_order "[''a/g'']" reg_a "Idle" "[]"]
      reg_a_keys in_order_ok by (simp add: demo_run_def demo_state)
  have "handleAction reg_a prewarm_x = (fst (handleAction reg_a prewarm_x), Some post_x)"
    by (simp add: prod_eq_iff) code_simp
  then show "dispatcher_step (demo_run 5) (demo_run 6)"
    using dispatcher_step.handle_action [of "demo_run 5" prewarm_x "make_chan 64"
        "fst (handleAction reg_a prewarm_x)" "Some post_x"]
    by (simp add: demo_run_def demo_state recv_def dropped_def)
qed

theorem commands_follow_replies_witness:
  "\<exists>s a. sys_step\<^sup>*\<^sup>* (main_init demo_mem) s \<and> (a, post_x) \<in> set (sy_posts s) \<and>
     (\<exists>i rq r. g_handlers (sy_gateway s) i = Some \<lparr>h_request = rq, h_state = Replied r\<rparr> \<and> rs_status r = 200)"
proof -
  have run: "sys_step\<^sup>*\<^sup>* (main_init demo_mem) (demo_run 6)"
  proof -
    have "sys_step\<^sup>*\<^sup>* (main_init demo_mem) (demo_run 0)" using run_placed_sys by (simp add: demo_run_def)
    with demo_moves(1-5) [THEN sys_step.reconciler] demo_moves(6) [THEN sys_step.dispatcher]
    show ?thesis by (meson rtranclp.rtrancl_into_rtrancl)
  qed
  have mem: "(prewarm_x, post_x) \<in> set (sy_posts (demo_run 6))" by (simp add: demo_run_def)
  have "ac_Action (po_body post_x) = ''PREWARM''" by (simp add: post_x_def)
  with commands_follow_replies [OF run mem] obtain i rq r where
    "g_handlers (sy_gateway (demo_run 6)) i = Some \<lparr>h_request = rq, h_state = Replied r\<rparr>" "rs_status r = 200"
    by blast
  with run mem show ?thesis by blast
qed

end
