(* ===== verification/Fair_Runs.thy ===== *)
theory Fair_Runs
  imports Prelude
begin

text \<open>
  Infinite runs of an interleaved system and what fairness gives: the interface of a system in
  which some component is busy, has moves that use up a well-founded measure, and is disturbed
  by no other step. A scheduler that does not neglect an enabled move for ever then finishes
  the work.
\<close>

text \<open>
  A run takes a step at every point. It is fair to the moves of a component when no move stays
  enabled from some point on without one being taken.
\<close>

definition is_run :: "('s \<Rightarrow> 's \<Rightarrow> bool) \<Rightarrow> (nat \<Rightarrow> 's) \<Rightarrow> bool" where
  "is_run step f \<longleftrightarrow> (\<forall>i. step (f i) (f (Suc i)))"

definition fair :: "('s \<Rightarrow> 's \<Rightarrow> bool) \<Rightarrow> (nat \<Rightarrow> 's) \<Rightarrow> bool" where
  "fair move f \<longleftrightarrow> (\<forall>i. (\<forall>j \<ge> i. \<exists>t. move (f j) t) \<longrightarrow> (\<exists>j \<ge> i. move (f j) (f (Suc j))))"

lemma run_steps: "is_run step f \<Longrightarrow> i \<le> j \<Longrightarrow> step\<^sup>*\<^sup>* (f i) (f j)"
  by (induction j rule: nat_induct)
    (auto simp: is_run_def le_Suc_eq intro: rtranclp.rtrancl_into_rtrancl)

locale progress_system =
  fixes step :: "'s \<Rightarrow> 's \<Rightarrow> bool"
    and move :: "'s \<Rightarrow> 's \<Rightarrow> bool"
    and busy :: "'s \<Rightarrow> bool"
    and inv :: "'s \<Rightarrow> bool"
    and work :: "'s \<Rightarrow> 'm"
    and less_work :: "('m \<times> 'm) set"
  assumes wf_work: "wf less_work"
    and inv_step: "inv s \<Longrightarrow> step s t \<Longrightarrow> inv t"
    and enabled: "inv s \<Longrightarrow> busy s \<Longrightarrow> \<exists>t. move s t"
    and move_decreases: "inv s \<Longrightarrow> busy s \<Longrightarrow> move s t \<Longrightarrow> (work t, work s) \<in> less_work"
    and step_keeps: "inv s \<Longrightarrow> busy s \<Longrightarrow> step s t \<Longrightarrow> \<not> move s t \<Longrightarrow> work t = work s"
begin

lemma run_inv: "is_run step f \<Longrightarrow> inv (f 0) \<Longrightarrow> inv (f i)"
  by (induction i) (auto simp: is_run_def intro: inv_step)

text \<open>Until the next move the measure stays.\<close>

lemma work_until:
  assumes "is_run step f" "inv (f 0)" and "i \<le> k"
    and "\<And>j. i \<le> j \<Longrightarrow> j < k \<Longrightarrow> busy (f j) \<and> \<not> move (f j) (f (Suc j))"
  shows "work (f k) = work (f i)"
  using assms(3,4)
proof (induction k rule: dec_induct)
  case (step k)
  then have "busy (f k)" "\<not> move (f k) (f (Suc k))" by auto
  with assms(1) run_inv [OF assms(1,2)] have "work (f (Suc k)) = work (f k)"
    by (auto simp: is_run_def intro: step_keeps)
  with step show ?case by simp
qed simp

theorem finishes:
  assumes run: "is_run step f" and start: "inv (f 0)" and fair: "fair move f"
  shows "\<exists>j \<ge> i. \<not> busy (f j)"
proof (induction "work (f i)" arbitrary: i rule: wf_induct_rule [OF wf_work])
  case (1 i)
  show ?case
  proof (rule ccontr)
    assume "\<not> ?thesis"
    then have busy: "busy (f j)" if "i \<le> j" for j using that by blast
    with enabled run_inv [OF run start] have "\<forall>j \<ge> i. \<exists>t. move (f j) t" by blast
    with fair have ex: "\<exists>j \<ge> i. move (f j) (f (Suc j))" unfolding fair_def by blast
    define k where "k = (LEAST j. i \<le> j \<and> move (f j) (f (Suc j)))"
    have k: "i \<le> k" "move (f k) (f (Suc k))"
      using LeastI_ex [of "\<lambda>j. i \<le> j \<and> move (f j) (f (Suc j))"] ex by (auto simp: k_def)
    have "\<not> move (f j) (f (Suc j))" if "i \<le> j" "j < k" for j
      using not_less_Least [of j "\<lambda>j. i \<le> j \<and> move (f j) (f (Suc j))"] that by (auto simp: k_def)
    with busy have "work (f k) = work (f i)" by (intro work_until [OF run start k(1)]) auto
    moreover have "(work (f (Suc k)), work (f k)) \<in> less_work"
      using move_decreases run_inv [OF run start] busy k by blast
    ultimately have "(work (f (Suc k)), work (f i)) \<in> less_work" by simp
    from 1 [OF this] obtain j where "Suc k \<le> j" "\<not> busy (f j)" by blast
    with busy [of j] k(1) show False by simp
  qed
qed

end

section \<open>A server that keeps up\<close>

text \<open>
  Strong fairness: a move that is enabled again and again, though not all the time, is taken again
  and again. So a server that is ready again and again and can then serve while anything is owed
  serves all that is owed at any time.
\<close>

definition strongly_fair :: "('s \<Rightarrow> 's \<Rightarrow> bool) \<Rightarrow> (nat \<Rightarrow> 's) \<Rightarrow> bool" where
  "strongly_fair move f \<longleftrightarrow>
     ((\<forall>i. \<exists>j \<ge> i. \<exists>t. move (f j) t) \<longrightarrow> (\<forall>i. \<exists>j \<ge> i. move (f j) (f (Suc j))))"

locale server_system = invariant_system start step inv
  for start :: "'s \<Rightarrow> bool" and step :: "'s \<Rightarrow> 's \<Rightarrow> bool" and inv :: "'s \<Rightarrow> bool" +
  fixes move :: "'s \<Rightarrow> 's \<Rightarrow> bool"
    and ready :: "'s \<Rightarrow> bool"
    and served :: "'s \<Rightarrow> nat"
    and owed :: "'s \<Rightarrow> nat"
  assumes served_mono: "step s t \<Longrightarrow> served s \<le> served t"
    and owed_mono: "step s t \<Longrightarrow> owed s \<le> owed t"
    and can_serve: "inv s \<Longrightarrow> ready s \<Longrightarrow> served s < owed s \<Longrightarrow> \<exists>t. move s t"
    and serves: "move s t \<Longrightarrow> served s < served t"
begin

lemma served_mono_steps: "step\<^sup>*\<^sup>* s t \<Longrightarrow> served s \<le> served t"
  by (induction rule: rtranclp_induct) (auto dest: served_mono)

lemma owed_mono_steps: "step\<^sup>*\<^sup>* s t \<Longrightarrow> owed s \<le> owed t"
  by (induction rule: rtranclp_induct) (auto dest: owed_mono)

lemma served_grows:
  assumes run: "is_run step f" and taken: "\<forall>i. \<exists>j \<ge> i. move (f j) (f (Suc j))"
  shows "\<exists>j \<ge> i. n \<le> served (f j)"
proof (induction n)
  case (Suc n)
  then obtain j where j: "i \<le> j" "n \<le> served (f j)" by blast
  from taken obtain k where k: "j \<le> k" "move (f k) (f (Suc k))" by blast
  have "served (f j) \<le> served (f k)" by (rule served_mono_steps [OF run_steps [OF run k(1)]])
  with j(2) serves [OF k(2)] have "Suc n \<le> served (f (Suc k))" by linarith
  with j(1) k(1) show ?case by (intro exI [of _ "Suc k"]) simp
qed auto

theorem catches_up:
  assumes run: "is_run step f" and inv: "inv (f 0)"
    and fair: "strongly_fair move f" and often: "\<And>i. \<exists>j \<ge> i. ready (f j)"
  shows "\<exists>j \<ge> i. owed (f i) \<le> served (f j)"
proof (rule ccontr)
  assume "\<not> ?thesis"
  then have behind: "served (f j) < owed (f i)" if "i \<le> j" for j using that by (meson not_le)
  have "\<exists>j \<ge> k. \<exists>t. move (f j) t" for k
  proof -
    from often obtain j where j: "max i k \<le> j" "ready (f j)" by blast
    have "owed (f i) \<le> owed (f j)" using j(1) by (intro owed_mono_steps run_steps [OF run]) simp
    with behind [of j] j(1) have "served (f j) < owed (f j)" by simp
    moreover have "inv (f j)" by (rule steps_inv [OF run_steps [OF run le0] inv])
    ultimately show ?thesis using can_serve j by (meson max.boundedE)
  qed
  with fair have "\<forall>i. \<exists>j \<ge> i. move (f j) (f (Suc j))" unfolding strongly_fair_def by blast
  from served_grows [OF run this] obtain j where "i \<le> j" "owed (f i) \<le> served (f j)" by blast
  with behind [of j] show False by simp
qed

end

end
