(* ===== verification/Pass_Properties.thy ===== *)
theory Pass_Properties
  imports Control_Plane Fair_Runs
begin

text \<open>
  What holds of a reconcile pass in the middle of everything else: it ends, it does not undo
  placements, and it sends the corrections that are due throughout.
\<close>

section \<open>A pass ends\<close>

definition in_pass :: "system \<Rightarrow> bool" where
  "in_pass s \<longleftrightarrow> sy_pass s \<noteq> Idle \<or> sy_unsent s \<noteq> []"

text \<open>
  The moves that bring a pass forward: those of the reconciler, and those of the dispatcher that
  take an action off the channel.
\<close>

definition pass_move :: "system \<Rightarrow> system \<Rightarrow> bool" where
  "pass_move s t \<longleftrightarrow> in_pass s \<and>
     (reconciler_step s t \<or> dispatcher_step s t \<and> sy_actions t \<noteq> sy_actions s)"

definition system_work :: "system \<Rightarrow> (nat \<times> nat) \<times> nat \<times> nat" where
  "system_work s = (pass_work (sy_pass s), length (sy_unsent s), length (ch_buf (sy_actions s)))"

definition less_system_work :: "(((nat \<times> nat) \<times> nat \<times> nat) \<times> ((nat \<times> nat) \<times> nat \<times> nat)) set" where
  "less_system_work = (less_than <*lex*> less_than) <*lex*> less_than <*lex*> less_than"

lemma reconciler_less:
  assumes "reconciler_step s t" and "in_pass s"
  shows "(system_work t, system_work s) \<in> less_system_work"
  using assms
proof cases
  case (advance pick ks reg c acts)
  from pass_step_less_work [OF advance(6,2)] advance(1) show ?thesis
    by (auto simp: less_work_def system_work_def less_system_work_def)
qed (auto simp: in_pass_def system_work_def less_system_work_def)

lemma handled_less:
  assumes "dispatcher_step s t" and "sy_actions t \<noteq> sy_actions s"
  shows "(system_work t, system_work s) \<in> less_system_work"
  using assms
  by cases (auto simp: system_work_def less_system_work_def recv_def split: list.splits)

lemma other_steps_keep_work:
  assumes "sys_step s t" and "in_pass s" and "\<not> pass_move s t"
  shows "system_work t = system_work s"
proof -
  have "sy_pass t = sy_pass s \<and> sy_unsent t = sy_unsent s \<and> sy_actions t = sy_actions s"
    using assms(1)
  proof cases
    case reconciler
    with assms(2,3) show ?thesis by (simp add: pass_move_def)
  next
    case dispatcher
    with assms(2,3) have "sy_actions t = sy_actions s" by (auto simp: pass_move_def)
    with dispatcher show ?thesis by cases auto
  qed simp_all
  then show ?thesis by (simp add: system_work_def)
qed

lemma finite_registry_step:
  assumes "finite (dom (nodes (sy_reg s)))" and "sys_step s t"
  shows "finite (dom (nodes (sy_reg t)))"
  using assms(2)
proof (cases rule: sys_step_cases)
  case (advance pick ks reg c acts)
  with assms(1) pass_step_registry(2) [OF advance(6)] show ?thesis by simp
qed (use assms(1) in \<open>simp_all add: applyHeartbeat_def nodes_Upsert\<close>)

text \<open>A pass is never stuck: when the channel is full the dispatcher can make room.\<close>

lemma pass_enabled:
  assumes "channels_ok s" and "finite (dom (nodes (sy_reg s)))" and "in_pass s"
  shows "\<exists>t. pass_move s t"
proof (cases "sy_unsent s")
  case Nil
  with assms(3) have busy: "sy_pass s \<noteq> Idle" by (simp add: in_pass_def)
  from assms(2) obtain ks where ks: "enumerates ks (nodes (sy_reg s))"
    unfolding enumerates_def by (metis finite_distinct_list)
  obtain reg c acts where
    "pass_step in_order ks (g_reconciler (sy_gateway s)) (sy_reg s) (sy_pass s) = (reg, c, acts)"
    by (metis prod_cases3)
  from reconciler_step.advance [OF busy Nil in_order_ok ks this] assms(3)
  show ?thesis by (auto simp: pass_move_def)
next
  case (Cons a rest)
  show ?thesis
  proof (cases "try_send a (sy_actions s)")
    case (Some ch)
    from reconciler_step.send_action [OF Cons Some] assms(3) show ?thesis
      by (auto simp: pass_move_def)
  next
    case None
    with assms(1) obtain b bs where b: "ch_buf (sy_actions s) = b # bs"
      by (cases "ch_buf (sy_actions s)") (auto simp: try_send_None channels_ok_def)
    obtain line p where h: "handleAction (sy_reg s) b = (line, p)" by fastforce
    have "recv (sy_actions s) = Some (b, (sy_actions s)\<lparr>ch_buf := bs\<rparr>)" by (simp add: recv_def b)
    note d = dispatcher_step.handle_action [OF this h]
    obtain t where t: "dispatcher_step s t" "sy_actions t = (sy_actions s)\<lparr>ch_buf := bs\<rparr>"
      by (rule that [OF d]) simp
    then have "ch_buf (sy_actions t) \<noteq> ch_buf (sy_actions s)" using b by simp
    then have "sy_actions t \<noteq> sy_actions s" by auto
    with t assms(3) show ?thesis by (auto simp: pass_move_def)
  qed
qed

lemma wf_less_system_work: "wf less_system_work"
  by (auto simp: less_system_work_def)

interpretation pass: progress_system sys_step pass_move in_pass
  "\<lambda>s. channels_ok s \<and> finite (dom (nodes (sy_reg s)))" system_work less_system_work
proof unfold_locales
  show "(system_work t, system_work s) \<in> less_system_work"
    if "channels_ok s \<and> finite (dom (nodes (sy_reg s)))" "in_pass s" "pass_move s t" for s t
    using that reconciler_less handled_less by (auto simp: pass_move_def)
qed (auto simp: wf_less_system_work intro: finite_registry_step channels_ok_step pass_enabled
  other_steps_keep_work)

lemma pass_idle_again:
  assumes "sys_step\<^sup>*\<^sup>* (main_init mem) (f 0)" and "is_run sys_step f" and "fair pass_move f"
  shows "\<exists>j \<ge> i. \<not> in_pass (f j)"
proof -
  have "channels_ok (f 0)" using sys_channels.reachable_inv [OF _ assms(1)] by blast
  moreover have "finite (dom (nodes (sy_reg (f 0))))"
    using assms(1) by (induction rule: rtranclp_induct)
      (auto simp: main_init_def NewNodeRegistry_def intro: finite_registry_step)
  ultimately show ?thesis using pass.finishes [OF assms(2) _ assms(3)] by blast
qed

text \<open>
  C10. Every reconcile pass ends: in every infinite run of the whole scheduler that does not neglect
  an enabled move of the pass for ever (a step of the reconciler, or of the dispatcher taking an
  action), the reconciler is again and again between passes, ready for the next heartbeat or tick,
  whatever requests, heartbeats and signals arrive meanwhile and however full the channels get.
\<close>

theorem pass_terminates:
  assumes "sys_step\<^sup>*\<^sup>* (main_init mem) (f 0)" and "is_run sys_step f" and "fair pass_move f"
  shows "\<exists>j \<ge> i. sy_pass (f j) = Idle \<and> sy_unsent (f j) = []"
  using pass_idle_again [OF assms, of i] by (simp add: in_pass_def)

section \<open>Placements stick\<close>

text \<open>
  C9. A placement is not undone: once a client was answered 200 with a decision for a slice, no pass
  decides to evict the model from that slice. An EVICT of it that is not already on its way, unsent
  or in the channel, is never sent again, in any continuation.
\<close>

theorem placed_model_not_evicted:
  assumes reach: "sys_step\<^sup>*\<^sup>* (main_init mem) s"
    and reply: "g_handlers (sy_gateway s) i = Some \<lparr>h_request = rq, h_state = Replied r\<rparr>"
      "rs_body r = DecisionJSON d" "rq_body rq = Inr req"
    and a: "a_Type a = ActionEvict" "a_ModelName a = ModelName req"
      "sliceKey (a_NodeID a) (a_GPUID a) (a_SliceID a) = sliceKey (d_NodeID d) (d_GPUID d) (d_SliceID d)"
    and fresh: "a \<notin> set (sy_unsent s)" "a \<notin> set (ch_buf (sy_actions s))"
    and run: "sys_step\<^sup>*\<^sup>* s t"
  shows "a \<notin> set (sy_unsent t) \<and> a \<notin> set (ch_buf (sy_actions t)) \<and>
    (\<exists>new. sy_posts t = sy_posts s @ new \<and> a \<notin> fst ` set new)"
proof -
  have placed: "a_ModelName a \<in> committed (sy_gateway s) (target_key a)"
    unfolding committed_def a(2,3) using reply by blast
  have "sys_inv s" using sys_runs.reachable_inv [OF _ reach] by blast
  with run have "sys_inv t \<and> a_ModelName a \<in> committed (sy_gateway t) (target_key a) \<and>
      a \<notin> set (sy_unsent t) \<and> a \<notin> set (ch_buf (sy_actions t)) \<and>
      (\<exists>new. sy_posts t = sy_posts s @ new \<and> a \<notin> fst ` set new)"
  proof (induction rule: rtranclp_induct)
    case base
    with placed fresh show ?case by simp
  next
    case (step t u)
    then have inv: "sys_inv t" and m: "a_ModelName a \<in> committed (sy_gateway t) (target_key a)"
      and out: "a \<notin> set (sy_unsent t)" "a \<notin> set (ch_buf (sy_actions t))"
      and posts: "\<exists>new. sy_posts t = sy_posts s @ new \<and> a \<notin> fst ` set new" by auto
    from step(2) have "a_ModelName a \<in> committed (sy_gateway u) (target_key a) \<and>
      a \<notin> set (sy_unsent u) \<and> a \<notin> set (ch_buf (sy_actions u)) \<and>
      (\<exists>new. sy_posts u = sy_posts s @ new \<and> a \<notin> fst ` set new)"
    proof (cases rule: sys_step_cases)
      case (admission g)
      with m out posts committed_mono_step [OF admission(2)] show ?thesis by auto
    next
      case (advance pick ks reg c acts)
      have "gateway_reached (sy_seen t) (sy_gateway t)" using inv by (simp add: sys_inv_def)
      with m have "a_ModelName a \<in> desired_models (g_reconciler (sy_gateway t)) (target_key a)"
        by (simp add: desired_is_committed)
      then have "a \<notin> drift (g_reconciler (sy_gateway t)) n sid loaded" for n sid loaded
        using a(1) by (auto simp: drift_def desired_models_def split: option.splits)
      moreover have "a \<noteq> dead_action n" for n using a(1) by (auto simp: dead_action_def)
      ultimately have "a \<notin> set acts" using pass_step_actions [OF advance(6,4,5)] by blast
      with advance(1) m out posts show ?thesis by simp
    next
      case (send_action b rest ch)
      with m out posts show ?thesis by (auto simp: try_send_Some)
    next
      case (handle_action b ch line p)
      then have b: "b \<in> set (ch_buf (sy_actions t))" "set (ch_buf ch) \<subseteq> set (ch_buf (sy_actions t))"
        by (auto simp: recv_def split: list.splits)
      from posts obtain new where new: "sy_posts t = sy_posts s @ new" "a \<notin> fst ` set new" by blast
      from b out have "a \<noteq> b" by blast
      with new have "sy_posts u = sy_posts s @ (new @ (case p of None \<Rightarrow> [] | Some p \<Rightarrow> [(b, p)]))"
        "a \<notin> fst ` set (new @ (case p of None \<Rightarrow> [] | Some p \<Rightarrow> [(b, p)]))"
        using handle_action(1) by (auto split: option.splits)
      with m out b handle_action(1) show ?thesis by auto
    qed (use m out posts in auto)
    with inv step(2) sys_inv_step show ?case by blast
  qed
  then show ?thesis by blast
qed

section \<open>What a pass sends while the desired state grows\<close>

lemma gw_step_grows: "gw_step R g g' \<Longrightarrow> grows (g_reconciler g) (g_reconciler g')"
  by (erule gw_step.cases)
    (auto simp: HandleSchedule_start_def HandleSchedule_result_def HandleSchedule_timeout_def Let_def
      respond_def commit_def give_back_frame send_result_frame
      split: sum.splits queue_error.splits option.splits prod.splits if_splits)

abbreviation rec_of :: "system \<Rightarrow> Reconciler" where
  "rec_of s \<equiv> g_reconciler (sy_gateway s)"

lemma sys_step_grows: "sys_step s t \<Longrightarrow> grows (rec_of s) (rec_of t)"
  by (erule sys_step_cases) (auto intro: gw_step_grows)

lemma sys_steps_grow: "sys_step\<^sup>*\<^sup>* s t \<Longrightarrow> grows (rec_of s) (rec_of t)"
  by (induction rule: rtranclp_induct) (auto intro: sys_step_grows grows_trans)

text \<open>The steps of the system while a pass is on.\<close>

definition pass_sys_step :: "system \<Rightarrow> system \<Rightarrow> bool" where
  "pass_sys_step s t \<longleftrightarrow> sys_step s t \<and> sy_pass s \<noteq> Idle"

lemma pass_sys_steps: "pass_sys_step\<^sup>*\<^sup>* s t \<Longrightarrow> sys_step\<^sup>*\<^sup>* s t"
  by (rule rtranclp_mono [THEN predicate2D, rotated]) (auto simp: pass_sys_step_def)

text \<open>
  The account of a pass that started in \<open>s1\<close> with the units \<open>U\<close> and the stale nodes \<open>S\<close>: \<open>acts\<close> are
  the actions decided so far, \<open>V\<close> the units compared so far.
\<close>

fun stale_left :: "control \<Rightarrow> GPUNode set" where
  "stale_left (Marking ns) = set ns"
| "stale_left _ = {}"

definition due_sent :: "Reconciler \<Rightarrow> Reconciler \<Rightarrow> (GPUNode \<times> string \<times> string list) set \<Rightarrow>
    ReconcileAction list \<Rightarrow> bool" where
  "due_sent r r' V acts \<longleftrightarrow> (\<forall>u \<in> V. unit_drift r u \<inter> unit_drift r' u \<subseteq> set acts)"

definition sent_due :: "system \<Rightarrow> system \<Rightarrow> (GPUNode \<times> string \<times> string list) set \<Rightarrow>
    ReconcileAction list \<Rightarrow> bool" where
  "sent_due s1 t V acts \<longleftrightarrow> (\<forall>a \<in> set acts. a_Type a \<noteq> ActionMarkDead \<longrightarrow>
     (\<exists>s u. sys_step\<^sup>*\<^sup>* s1 s \<and> sys_step\<^sup>*\<^sup>* s t \<and> u \<in> V \<and> a \<in> unit_drift (rec_of s) u))"

definition deaths :: "ReconcileAction list \<Rightarrow> ReconcileAction set" where
  "deaths acts = {a \<in> set acts. a_Type a = ActionMarkDead}"

definition pass_account :: "system \<Rightarrow> ReconcileAction list \<Rightarrow> (GPUNode \<times> string \<times> string list) set \<Rightarrow>
    GPUNode set \<Rightarrow> system \<Rightarrow> bool" where
  "pass_account s1 before U S t \<longleftrightarrow> (\<exists>acts V. sy_decided t = before @ acts \<and>
     U = V \<union> units_left (sy_reg t) (sy_pass t) \<and> due_sent (rec_of s1) (rec_of t) V acts \<and>
     sent_due s1 t V acts \<and> dead_action ` S = deaths acts \<union> dead_action ` stale_left (sy_pass t))"

lemma deaths_append [simp]: "deaths (xs @ ys) = deaths xs \<union> deaths ys"
  by (auto simp: deaths_def)

lemma drift_type: "a \<in> drift r n sid loaded \<Longrightarrow> a_Type a \<noteq> ActionMarkDead"
  by (auto simp: drift_def split: option.splits)

lemma pass_step_deaths:
  assumes "pass_step pick ks r reg c = (reg', c', acts)" "pick_ok pick" "enumerates ks (nodes reg)"
  shows "dead_action ` stale_left c = deaths acts \<union> dead_action ` stale_left c'"
proof -
  obtain U where "set acts = (\<Union>u \<in> U. unit_drift r u) \<union>
      (case c of Marking (n # ns) \<Rightarrow> {dead_action n} | _ \<Rightarrow> {})"
    using pass_step_units [OF assms] by metis
  then have "deaths acts = (case c of Marking (n # ns) \<Rightarrow> {dead_action n} | _ \<Rightarrow> {})"
    by (auto simp: deaths_def dead_action_def dest!: drift_type split: control.splits list.splits)
  then show ?thesis using assms(1)
    by (cases "(pick, ks, r, reg, c)" rule: pass_step.cases) (auto split: if_splits)
qed

text \<open>A step that leaves the pass where it is keeps the account.\<close>

lemma account_frame:
  assumes "pass_account s1 before U S t" and "sys_step\<^sup>*\<^sup>* s1 t" and "sys_step t u"
    and "sy_decided u = sy_decided t" "sy_pass u = sy_pass t" "sy_reg u = sy_reg t"
  shows "pass_account s1 before U S u"
proof -
  from assms(1) obtain acts V where A: "sy_decided t = before @ acts"
    "U = V \<union> units_left (sy_reg t) (sy_pass t)" "due_sent (rec_of s1) (rec_of t) V acts"
    "sent_due s1 t V acts" "dead_action ` S = deaths acts \<union> dead_action ` stale_left (sy_pass t)"
    unfolding pass_account_def by blast
  have "due_sent (rec_of s1) (rec_of u) V acts"
    using A(3) drift_between [OF sys_steps_grow [OF assms(2)] sys_step_grows [OF assms(3)]]
    unfolding due_sent_def by fastforce
  moreover have "sent_due s1 u V acts"
    using A(4) assms(3) unfolding sent_due_def by (meson rtranclp.rtrancl_into_rtrancl)
  ultimately show ?thesis
    using A assms(4-6) unfolding pass_account_def by auto
qed

lemma account_step:
  assumes acc: "pass_account s1 before U S t" and run: "sys_step\<^sup>*\<^sup>* s1 t" and "pass_sys_step t u"
  shows "pass_account s1 before U S u"
proof -
  have step: "sys_step t u" and on: "sy_pass t \<noteq> Idle" using assms(3) by (simp_all add: pass_sys_step_def)
  from step show ?thesis
  proof (cases rule: sys_step_cases)
    case (advance pick ks reg c acts')
    from acc obtain acts V where A: "sy_decided t = before @ acts"
      "U = V \<union> units_left (sy_reg t) (sy_pass t)" "due_sent (rec_of s1) (rec_of t) V acts"
      "sent_due s1 t V acts" "dead_action ` S = deaths acts \<union> dead_action ` stale_left (sy_pass t)"
      unfolding pass_account_def by blast
    obtain W where W: "units_left (sy_reg t) (sy_pass t) = W \<union> units_left reg c"
      "set acts' = (\<Union>w \<in> W. unit_drift (rec_of t) w) \<union>
        (case sy_pass t of Marking (n # ns) \<Rightarrow> {dead_action n} | _ \<Rightarrow> {})"
      using pass_step_units [OF advance(6,4,5)] by metis
    have same: "rec_of u = rec_of t" using advance(1) by simp
    have "due_sent (rec_of s1) (rec_of u) (V \<union> W) (acts @ acts')"
      using A(3) W(2) unfolding due_sent_def same by fastforce
    moreover have "sent_due s1 u (V \<union> W) (acts @ acts')"
      unfolding sent_due_def
    proof (intro ballI impI)
      fix a assume a: "a \<in> set (acts @ acts')" "a_Type a \<noteq> ActionMarkDead"
      show "\<exists>s v. sys_step\<^sup>*\<^sup>* s1 s \<and> sys_step\<^sup>*\<^sup>* s u \<and> v \<in> V \<union> W \<and> a \<in> unit_drift (rec_of s) v"
      proof (cases "a \<in> set acts")
        case True
        with A(4) a(2) step show ?thesis
          unfolding sent_due_def by (meson UnI1 rtranclp.rtrancl_into_rtrancl)
      next
        case False
        with a have "a \<in> set acts'" by simp
        with W(2) a(2) obtain w where "w \<in> W" "a \<in> unit_drift (rec_of t) w"
          by (auto simp: dead_action_def split: control.splits list.splits)
        with run step show ?thesis by blast
      qed
    qed
    moreover have "dead_action ` S = deaths (acts @ acts') \<union> dead_action ` stale_left c"
      using A(5) pass_step_deaths [OF advance(6,4,5)] by auto
    ultimately show ?thesis
      using A(1,2) W(1) advance(1) unfolding pass_account_def
      by (intro exI [of _ "acts @ acts'"] exI [of _ "V \<union> W"]) auto
  next
    case (apply_heartbeat hb ch now)
    with on show ?thesis by simp
  next
    case (tick ks now)
    with on show ?thesis by simp
  qed (rule account_frame [OF acc run step]; simp)+
qed

text \<open>The outcome of a pass, as a lemma for those who build on it.\<close>

lemma pass_outcome:
  assumes reach: "sys_step\<^sup>*\<^sup>* (main_init mem) s0"
    and start: "sy_pass s0 = Idle" "sy_unsent s0 = []" "enumerates ks (nodes (sy_reg s0))"
      "s1 = s0\<lparr>sy_pass := start_pass ks now (rec_of s0) (sy_reg s0)\<rparr>"
    and run: "pass_sys_step\<^sup>*\<^sup>* s1 s2" and stop: "sy_pass s2 = Idle"
  shows "\<exists>acts. sy_decided s2 = sy_decided s0 @ acts \<and>
    {a \<in> set acts. a_Type a = ActionMarkDead} =
      dead_action ` {n \<in> healthy_nodes (sy_reg s0). is_stale (rec_of s0) now n} \<and>
    (\<forall>n \<in> healthy_nodes (sy_reg s0). \<not> is_stale (rec_of s0) now n \<longrightarrow> (\<forall>(sid, loaded) \<in> units_of n.
      drift (rec_of s0) n sid loaded \<inter> drift (rec_of s2) n sid loaded \<subseteq> set acts)) \<and>
    (\<forall>a \<in> set acts. a_Type a \<noteq> ActionMarkDead \<longrightarrow> (\<exists>s n. sys_step\<^sup>*\<^sup>* s1 s \<and> sys_step\<^sup>*\<^sup>* s s2 \<and>
      n \<in> healthy_nodes (sy_reg s0) \<and> \<not> is_stale (rec_of s0) now n \<and> a \<in> node_drift (rec_of s) n))"
proof -
  let ?N = "{n \<in> healthy_nodes (sy_reg s0). \<not> is_stale (rec_of s0) now n}"
  let ?S = "{n \<in> healthy_nodes (sy_reg s0). is_stale (rec_of s0) now n}"
  have "registry_ok (sy_reg s0)" using sys_runs.reachable_inv [OF _ reach] by (auto simp: sys_inv_def)
  note healthy = healthy_after_marking [OF this start(3), of now "staleTimeout (rec_of s0)"]
  have "pass_account s1 (sy_decided s0) (node_units ?N) ?S s1"
    unfolding pass_account_def
    by (rule exI [of _ "[]"], rule exI [of _ "{}"])
      (simp add: start(4) start_pass_def healthy is_stale_def due_sent_def sent_due_def deaths_def
        set_StaleNodes [OF start(3)])
  with run have "pass_account s1 (sy_decided s0) (node_units ?N) ?S s2"
    by (induction rule: rtranclp_induct) (auto intro: account_step pass_sys_steps)
  then obtain acts where A: "sy_decided s2 = sy_decided s0 @ acts"
    "due_sent (rec_of s1) (rec_of s2) (node_units ?N) acts" "sent_due s1 s2 (node_units ?N) acts"
    "dead_action ` ?S = deaths acts"
    unfolding pass_account_def using stop by auto
  have "rec_of s1 = rec_of s0" by (simp add: start(4))
  with A(2) have "drift (rec_of s0) n sid loaded \<inter> drift (rec_of s2) n sid loaded \<subseteq> set acts"
    if "n \<in> ?N" "(sid, loaded) \<in> units_of n" for n sid loaded
    using that unfolding due_sent_def node_units_def by fastforce
  moreover have "\<exists>s n. sys_step\<^sup>*\<^sup>* s1 s \<and> sys_step\<^sup>*\<^sup>* s s2 \<and> n \<in> ?N \<and> a \<in> node_drift (rec_of s) n"
    if "a \<in> set acts" "a_Type a \<noteq> ActionMarkDead" for a
  proof -
    from A(3) that obtain s u where "sys_step\<^sup>*\<^sup>* s1 s" "sys_step\<^sup>*\<^sup>* s s2" "u \<in> node_units ?N"
      "a \<in> unit_drift (rec_of s) u" unfolding sent_due_def by blast
    then show ?thesis unfolding node_units_def node_drift_def by fastforce
  qed
  ultimately show ?thesis using A(1,4) by (intro exI [of _ acts]) (auto simp: deaths_def)
qed

text \<open>
  C12. What a pass sends in the middle of everything else: it declares dead exactly the nodes that
  were stale when it started, it sends every correction that is due, by the desired state, both
  when it starts and when it ends, and every correction it sends is due at some moment of the
  pass, on a node that was healthy and not stale at its start.
\<close>

theorem pass_sends_what_is_due:
  assumes reach: "sys_step\<^sup>*\<^sup>* (main_init mem) s0"
    and start: "sy_pass s0 = Idle" "sy_unsent s0 = []" "enumerates ks (nodes (sy_reg s0))"
      "s1 = s0\<lparr>sy_pass := start_pass ks now (rec_of s0) (sy_reg s0)\<rparr>"
    and run: "pass_sys_step\<^sup>*\<^sup>* s1 s2" and stop: "sy_pass s2 = Idle"
  shows "\<exists>acts. sy_decided s2 = sy_decided s0 @ acts \<and>
    {a \<in> set acts. a_Type a = ActionMarkDead} =
      dead_action ` {n \<in> healthy_nodes (sy_reg s0). is_stale (rec_of s0) now n} \<and>
    (\<forall>n \<in> healthy_nodes (sy_reg s0). \<not> is_stale (rec_of s0) now n \<longrightarrow> (\<forall>(sid, loaded) \<in> units_of n.
      drift (rec_of s0) n sid loaded \<inter> drift (rec_of s2) n sid loaded \<subseteq> set acts)) \<and>
    (\<forall>a \<in> set acts. a_Type a \<noteq> ActionMarkDead \<longrightarrow> (\<exists>s n. sys_step\<^sup>*\<^sup>* s1 s \<and> sys_step\<^sup>*\<^sup>* s s2 \<and>
      n \<in> healthy_nodes (sy_reg s0) \<and> \<not> is_stale (rec_of s0) now n \<and> a \<in> node_drift (rec_of s) n))"
  using pass_outcome [OF assms] .

section \<open>A concrete run\<close>

text \<open>Afterwards heartbeats that are not POST requests are turned away.\<close>

lemma sys_stutter: "sys_step s s"
  using sys_step.heartbeat [of "\<lparr>hr_method = [], hr_body = Inl []\<rparr>" s "[]" "http_error ''method not allowed'' 405"
      "sy_heartbeats s"] by (simp add: serveHeartbeat_def handleHeartbeat_def acknowledged_def)

lemma demo_run_is_run: "is_run sys_step demo_run"
  unfolding is_run_def
proof
  fix i :: nat
  consider "i = 0" | "i = 1" | "i = 2" | "i = 3" | "i = 4" | "i = 5" | "6 \<le> i" by linarith
  then show "sys_step (demo_run i) (demo_run (Suc i))"
  proof cases
    case 1
    then show ?thesis using sys_step.reconciler [OF demo_moves(1)] by simp
  next
    case 2
    then show ?thesis using sys_step.reconciler [OF demo_moves(2)] by (simp add: eval_nat_numeral)
  next
    case 3
    then show ?thesis using sys_step.reconciler [OF demo_moves(3)] by (simp add: eval_nat_numeral)
  next
    case 4
    then show ?thesis using sys_step.reconciler [OF demo_moves(4)] by (simp add: eval_nat_numeral)
  next
    case 5
    then show ?thesis using sys_step.reconciler [OF demo_moves(5)] by (simp add: eval_nat_numeral)
  next
    case 6
    then show ?thesis using sys_step.dispatcher [OF demo_moves(6)] by (simp add: eval_nat_numeral)
  next
    case 7
    then have "demo_run (Suc i) = demo_run i" by (simp add: demo_run_def)
    with sys_stutter show ?thesis by simp
  qed
qed

lemma demo_run_fair: "fair pass_move demo_run"
  unfolding fair_def
proof (intro allI impI)
  fix i :: nat
  assume moves: "\<forall>j \<ge> i. \<exists>t. pass_move (demo_run j) t"
  show "\<exists>j \<ge> i. pass_move (demo_run j) (demo_run (Suc j))"
  proof (cases "i \<le> 4")
    case True
    have "pass_move (demo_run 4) (demo_run 5)"
      using demo_moves(5) by (simp add: pass_move_def in_pass_def) (simp add: demo_run_def)
    then have "pass_move (demo_run 4) (demo_run (Suc 4))" by (simp add: eval_nat_numeral)
    with True show ?thesis by blast
  next
    case False
    then have "\<not> in_pass (demo_run i)" by (simp add: demo_run_def in_pass_def demo_state)
    with moves show ?thesis by (auto simp: pass_move_def)
  qed
qed

theorem pass_terminates_witness:
  "sy_pass (demo_run 1) \<noteq> Idle \<and> (\<exists>j \<ge> 1. sy_pass (demo_run j) = Idle \<and> sy_unsent (demo_run j) = [])"
proof -
  have "sys_step\<^sup>*\<^sup>* (main_init demo_mem) (demo_run 0)" using run_placed_sys by (simp add: demo_run_def)
  from pass_terminates [OF this demo_run_is_run demo_run_fair, of 1] show ?thesis
    by (simp add: demo_run_def)
qed

theorem placed_model_not_evicted_witness:
  "prewarm_x\<lparr>a_Type := ActionEvict\<rparr> \<notin> set (sy_unsent (demo_run 6))"
proof -
  let ?a = "prewarm_x\<lparr>a_Type := ActionEvict\<rparr>"
  have "sys_step\<^sup>*\<^sup>* (demo_run 0) (demo_run 6)" by (rule run_steps [OF demo_run_is_run]) simp
  then have run: "sys_step\<^sup>*\<^sup>* sys_placed (demo_run 6)" by (simp add: demo_run_def)
  have empty: "?a \<notin> set (sy_unsent sys_placed)" "?a \<notin> set (ch_buf (sy_actions sys_placed))"
    by (simp_all add: demo_state)
  have "(prewarm_x, post_x) \<in> set (sy_posts (demo_run 6))" by (simp add: demo_run_def)
  moreover have "ac_Action (po_body post_x) = ''PREWARM''" by (simp add: post_x_def)
  moreover have "justified (sy_gateway (demo_run 6)) prewarm_x"
    using sys_runs.reachable_inv [OF _ rtranclp_trans [OF run_placed_sys run]] calculation(1)
    by (force simp: sys_inv_def pending_actions_def)
  then have "a_ModelName prewarm_x \<in> committed (sy_gateway sys_placed) (target_key prewarm_x)"
    by (simp add: justified_def prewarm_x_def demo_run_def)
  then obtain i rq r req d where "g_handlers (sy_gateway sys_placed) i = Some \<lparr>h_request = rq, h_state = Replied r\<rparr>"
    "rs_body r = DecisionJSON d" "rq_body rq = Inr req" "a_ModelName ?a = ModelName req"
    "sliceKey (a_NodeID ?a) (a_GPUID ?a) (a_SliceID ?a) = sliceKey (d_NodeID d) (d_GPUID d) (d_SliceID d)"
    unfolding committed_def by auto
  from placed_model_not_evicted [OF run_placed_sys this(1-3) _ this(4,5) empty run] show ?thesis by simp
qed

theorem pass_sends_what_is_due_witness:
  "\<exists>acts. sy_decided (demo_run 5) = acts \<and>
     drift (rec_of sys_placed) node_a [] [] \<subseteq> set acts \<and> prewarm_x \<in> set acts"
proof -
  have on: "pass_sys_step (demo_run 1) (demo_run 2)" "pass_sys_step (demo_run 2) (demo_run 3)"
    "pass_sys_step (demo_run 3) (demo_run 4)" "pass_sys_step (demo_run 4) (demo_run 5)"
    using demo_moves by (simp_all add: pass_sys_step_def sys_step.reconciler) (simp_all add: demo_run_def)
  then have run: "pass_sys_step\<^sup>*\<^sup>* (demo_run 1) (demo_run 5)"
    by (meson rtranclp.rtrancl_into_rtrancl rtranclp.rtrancl_refl)
  have tick: "demo_run 1 = sys_placed\<lparr>sy_pass := start_pass [''a/g''] 0 (rec_of sys_placed) (sy_reg sys_placed)\<rparr>"
    using demo_pass_steps(1) by (simp add: demo_run_def demo_state)
  have s0: "sy_pass sys_placed = Idle" "sy_unsent sys_placed = []"
    "enumerates [''a/g''] (nodes (sy_reg sys_placed))" "sy_pass (demo_run 5) = Idle"
    using reg_a_keys by (simp_all add: demo_state demo_run_def)
  have node: "node_a \<in> healthy_nodes (sy_reg sys_placed)" "\<not> is_stale (rec_of sys_placed) 0 node_a"
    "([], []) \<in> units_of node_a" "rec_of (demo_run 5) = rec_of sys_placed" "sy_decided sys_placed = []"
    using demo_pass_steps(1)
    by (auto simp: healthy_nodes_def nodes_reg_a demo_state node_a_def is_stale_def units_of_def
        node_of_heartbeat_def demo_hb_def demo_run_def start_pass_def StaleNodes_def map_filter_def
        split: if_splits)
  from pass_sends_what_is_due [OF run_placed_sys s0(1-3) tick run s0(4)] obtain acts where
    acts: "sy_decided (demo_run 5) = sy_decided sys_placed @ acts"
    "\<forall>n \<in> healthy_nodes (sy_reg sys_placed). \<not> is_stale (rec_of sys_placed) 0 n \<longrightarrow>
       (\<forall>(sid, loaded) \<in> units_of n.
         drift (rec_of sys_placed) n sid loaded \<inter> drift (rec_of (demo_run 5)) n sid loaded \<subseteq> set acts)"
    by blast
  have "drift (rec_of sys_placed) node_a [] [] \<subseteq> set acts" using acts(2) node by fastforce
  with acts(1) node(5) show ?thesis by (auto simp: demo_run_def)
qed

section \<open>Decisions and the slices of a pass\<close>

text \<open>
  C27. A decision is well-formed for its node: it carries a slice exactly when the node is
  MIG-enabled, and then it is a healthy slice the node reports, or \<open>full\<close> where it reports none.
  Either way the key it is committed under is the key of one of the units of that node that a
  pass of the reconciler diffs: no decision names a place the reconciler never looks at.
\<close>

theorem decision_names_reconciled_unit:
  assumes "slice_sorter srt" and "enumerates ks (nodes r)" and "Schedule srt ks r req = Inr d"
  shows "\<exists>n \<in> healthy_nodes r. d_NodeID d = NodeID n \<and> d_GPUID d = GPUID n \<and> d_MIGEnabled d = MIGEnabled n \<and>
    (if \<not> MIGEnabled n then d_SliceID d = []
     else if MIGSlices n = [] then d_SliceID d = ''full''
     else \<exists>s \<in> set (MIGSlices n). s_Healthy s \<and> d_SliceID d = s_SliceID s) \<and>
    (\<exists>(sid, loaded) \<in> units_of n.
       sliceKey (d_NodeID d) (d_GPUID d) (d_SliceID d) = sliceKey (NodeID n) (GPUID n) sid)"
proof -
  from assms obtain n s where ns: "best_placement r req n s" "decides d n s" by (rule Schedule_Inr)
  then have n: "n \<in> healthy_nodes r" and s: "s \<in> slices_of n"
    by (simp_all add: best_placement_def placements_def)
  have "if \<not> MIGEnabled n then d_SliceID d = [] else if MIGSlices n = [] then d_SliceID d = ''full''
      else \<exists>s \<in> set (MIGSlices n). s_Healthy s \<and> d_SliceID d = s_SliceID s"
    using ns(2) s by (auto simp: decides_def slices_of_def SyntheticFullSlice_def split: if_splits)
  moreover have "\<exists>(sid, loaded) \<in> units_of n.
      sliceKey (d_NodeID d) (d_GPUID d) (d_SliceID d) = sliceKey (NodeID n) (GPUID n) sid"
  proof (cases "MIGEnabled n \<and> MIGSlices n \<noteq> []")
    case True
    with s have "(s_SliceID s, s_LoadedModels s) \<in> units_of n" by (auto simp: slices_of_def units_of_def)
    with True ns(2) show ?thesis by (intro bexI) (auto simp: decides_def)
  next
    case False
    then have "([], LoadedModels n) \<in> units_of n" by (auto simp: units_of_def)
    moreover have "d_SliceID d \<in> {[], ''full''}"
      using False ns(2) s by (auto simp: decides_def slices_of_def SyntheticFullSlice_def)
    ultimately show ?thesis using ns(2) by (intro bexI) (auto simp: decides_def sliceKey_def Let_def)
  qed
  ultimately show ?thesis using n ns(2) unfolding decides_def by blast
qed

theorem decision_names_reconciled_unit_witness:
  "\<exists>n \<in> healthy_nodes demo_reg. NodeID n = ''a'' \<and> \<not> MIGEnabled n \<and>
     (\<exists>(sid, loaded) \<in> units_of n. sliceKey ''a'' ''g'' [] = sliceKey ''a'' (GPUID n) sid)"
proof -
  have d: "d_NodeID demo_decision = ''a''" "d_GPUID demo_decision = ''g''"
    "d_SliceID demo_decision = []" "d_MIGEnabled demo_decision = False"
    by (simp_all add: demo_decision_def)
  from decision_names_reconciled_unit [OF go_insertion.slice_sorter_axioms demo_enumerates(1)
      demo_schedule(1), unfolded d]
  show ?thesis by (elim bexE conjE, intro bexI conjI) (assumption | simp)+
qed

end
