(* ===== verification/Drain_Progress.thy ===== *)
theory Drain_Progress
  imports Pass_Properties
begin

text \<open>
  A pass of the drain loop in the middle of everything else: it ends, and within the moves that the
  length of the queue at its tick allows, whatever is admitted meanwhile.
\<close>

section \<open>The moves of a pass\<close>

text \<open>
  The drain loop is in a pass unless it is parked at its \<open>select\<close>. What it has left: four moves for
  each attempt, to take a request, look at its flag, call \<open>Schedule\<close> and act on the outcome, and one to stop.
\<close>

definition draining :: "system \<Rightarrow> bool" where
  "draining s \<longleftrightarrow> g_drain (sy_gateway s) \<noteq> Parked"

definition drain_move :: "system \<Rightarrow> system \<Rightarrow> bool" where
  "drain_move s t \<longleftrightarrow> draining s \<and> (\<exists>g. gw_step (sy_seen s) (sy_gateway s) g \<and>
     g_drain g \<noteq> g_drain (sy_gateway s) \<and> t = s\<lparr>sy_gateway := g\<rparr>)"

fun drain_work :: "drain_pc \<Rightarrow> nat" where
  "drain_work Parked = 0"
| "drain_work (Loop n) = 4 * n + 1"
| "drain_work (Took n p c) = 4 * n + 4"
| "drain_work (Trying n p c) = 4 * n + 3"
| "drain_work (Retrying n p c) = 4 * n + 2"
| "drain_work (Sending n p d) = 4 * n + 2"

abbreviation work_left :: "system \<Rightarrow> nat" where
  "work_left s \<equiv> drain_work (g_drain (sy_gateway s))"

text \<open>A handler does not move the loop; the loop uses up its work.\<close>

lemma gw_step_drain:
  assumes "gw_step R g g'" and "g_drain g \<noteq> Parked" and "g_drain g' \<noteq> g_drain g"
  shows "drain_work (g_drain g') < drain_work (g_drain g)"
  using assms
  by cases (auto simp: HandleSchedule_start_def HandleSchedule_result_def HandleSchedule_timeout_def
      respond_def Let_def give_back_frame
      split: sum.splits queue_error.splits option.splits prod.splits if_splits)

lemma drain_move_less: "drain_move s t \<Longrightarrow> work_left t < work_left s"
  using gw_step_drain by (auto simp: drain_move_def draining_def)

lemma other_steps_keep_drain:
  assumes "sys_step s t" and "draining s" and "\<not> drain_move s t"
  shows "g_drain (sy_gateway t) = g_drain (sy_gateway s)"
  using assms(1)
proof (cases rule: sys_step_cases)
  case (admission g)
  with assms(2,3) show ?thesis by (auto simp: drain_move_def)
qed simp_all

section \<open>A pass is never stuck\<close>

definition drain_inv :: "system \<Rightarrow> bool" where
  "drain_inv s \<longleftrightarrow> sys_inv s \<and> sy_reg s \<in> sy_seen s \<and> finite (dom (nodes (sy_reg s)))"

lemma drain_inv_step:
  assumes "drain_inv s" and "sys_step s t"
  shows "drain_inv t"
proof -
  have "sy_reg t \<in> sy_seen t"
    using assms(2) by (cases rule: sys_step_cases) (use assms(1) in \<open>simp_all add: drain_inv_def\<close>)
  with assms show ?thesis
    using sys_inv_step finite_registry_step unfolding drain_inv_def by blast
qed

text \<open>
  \<open>Schedule\<close> returns one way or the other, and a result can be sent at once: the channel of a request
  that the loop holds has room for it.
\<close>

lemma drain_enabled:
  assumes inv: "drain_inv s" and "draining s"
  shows "\<exists>t. drain_move s t"
proof -
  let ?R = "sy_seen s" and ?g = "sy_gateway s"
  have gw: "gw_inv ?R ?g"
    using inv reachable_gw_inv by (auto simp: drain_inv_def sys_inv_def gateway_reached_def)
  from inv obtain ks where ks: "enumerates ks (nodes (sy_reg s))"
    unfolding drain_inv_def enumerates_def by (metis finite_distinct_list)
  have outcome: "outcome_of ?R req (Schedule insertion_sort ks (sy_reg s) req)" for req
    using inv ks go_insertion.slice_sorter_axioms unfolding outcome_of_def drain_inv_def by blast
  have "\<exists>g. gw_step ?R ?g g \<and> g_drain g \<noteq> g_drain ?g"
  proof (cases "g_drain ?g")
    case Parked
    with assms(2) show ?thesis by (simp add: draining_def)
  next
    case (Loop n)
    show ?thesis
    proof (cases n)
      case 0
      with Loop gw_step.finish [of ?g ?R] show ?thesis by fastforce
    next
      case (Suc m)
      obtain x q where nx: "Next (g_queue ?g) = (x, q)" by fastforce
      show ?thesis
      proof (cases x)
        case None
        with Loop Suc nx gw_step.none_left [of ?g m q ?R] show ?thesis by fastforce
      next
        case (Some y)
        obtain p c where "y = (p, c)" by fastforce
        with Some Loop Suc nx gw_step.take_next [of ?g m p c q ?R] show ?thesis by fastforce
      qed
    qed
  next
    case (Took n p c)
    then show ?thesis
      using gw_step.skip [of ?g n p c ?R] gw_step.attempt [of ?g n p c ?R]
      by (cases "cancelled (g_pending ?g p)") fastforce+
  next
    case (Trying n p c)
    then show ?thesis
      using outcome [of "p_req (g_pending ?g p)"] gw_step.miss [of ?g n p c ?R] gw_step.hit [of ?g n p c ?R]
      by (cases "Schedule insertion_sort ks (sy_reg s) (p_req (g_pending ?g p))") fastforce+
  next
    case (Retrying n p c)
    with gw_step.retry [of ?g n p c ?R] show ?thesis by fastforce
  next
    case (Sending n p d)
    then have "inflight ?g p" by (simp add: inflight_def)
    from send_result_eq [OF gw this] obtain g' where g': "send_result p d ?g = Some g'" by blast
    with Sending gw_step.send [of ?g n p d g' ?R] show ?thesis by fastforce
  qed
  with assms(2) show ?thesis unfolding drain_move_def by blast
qed

interpretation drain: progress_system sys_step drain_move draining drain_inv work_left "{(m, n). m < n}"
proof unfold_locales
  show "wf {(m :: nat, n). m < n}" by (rule wf_less)
qed (auto intro: drain_inv_step drain_enabled drain_move_less simp: other_steps_keep_drain)

section \<open>How long a pass takes\<close>

text \<open>While a pass goes on, its moves and the work it has left add up to what it had.\<close>

lemma moves_used:
  assumes run: "is_run sys_step f" and "i \<le> k" and "\<forall>j. i \<le> j \<and> j < k \<longrightarrow> draining (f j)"
  shows "card {j. i \<le> j \<and> j < k \<and> drain_move (f j) (f (Suc j))} + work_left (f k) \<le> work_left (f i)"
  using assms(2,3)
proof (induction k rule: dec_induct)
  case (step k)
  let ?M = "\<lambda>k. {j. i \<le> j \<and> j < k \<and> drain_move (f j) (f (Suc j))}"
  have IH: "card (?M k) + work_left (f k) \<le> work_left (f i)" using step by simp
  have busy: "draining (f k)" using step by simp
  have go: "sys_step (f k) (f (Suc k))" using run by (simp add: is_run_def)
  show ?case
  proof (cases "drain_move (f k) (f (Suc k))")
    case True
    with step(1) have "?M (Suc k) = insert k (?M k)" by (auto simp: less_Suc_eq)
    then have "card (?M (Suc k)) = Suc (card (?M k))" by simp
    with IH drain_move_less [OF True] show ?thesis by simp
  next
    case False
    then have "?M (Suc k) = ?M k" by (auto simp: less_Suc_eq)
    with IH other_steps_keep_drain [OF go busy False] show ?thesis by simp
  qed
qed simp

text \<open>
  C33. A pass of the drain loop ends, in the middle of everything else: on every run that does not neglect
  an enabled move of it for ever, the loop comes back to its \<open>select\<close>, where it sees a cancelled
  context. It does so within four moves for each attempt it has left and one more, and the attempts are
  the requests queued at its tick: neither requests that are admitted meanwhile nor those it puts back
  itself prolong it. Its sends, which block on a full channel, always go through.
\<close>

theorem drain_pass_terminates:
  assumes "sys_step\<^sup>*\<^sup>* (main_init mem) (f 0)" and run: "is_run sys_step f" and fair: "fair drain_move f"
  shows "\<exists>j \<ge> i. g_drain (sy_gateway (f j)) = Parked \<and>
    card {k. i \<le> k \<and> k < j \<and> drain_move (f k) (f (Suc k))} \<le> work_left (f i)"
proof -
  have "drain_inv s" if "sys_step\<^sup>*\<^sup>* (main_init mem) s" for s
    using that
  proof (induction rule: rtranclp_induct)
    case base
    have "sys_inv (main_init mem)" using sys_runs.reachable_inv [of "main_init mem"] by blast
    then show ?case by (simp add: drain_inv_def main_init_def NewNodeRegistry_def)
  qed (rule drain_inv_step)
  from drain.finishes [OF run this [OF assms(1)] fair, of i] have ends: "\<exists>j \<ge> i. \<not> draining (f j)" .
  define j where "j = (LEAST j. i \<le> j \<and> \<not> draining (f j))"
  have j: "i \<le> j" "\<not> draining (f j)"
    using LeastI_ex [of "\<lambda>j. i \<le> j \<and> \<not> draining (f j)"] ends by (auto simp: j_def)
  have "\<forall>k. i \<le> k \<and> k < j \<longrightarrow> draining (f k)" using not_less_Least by (auto simp: j_def)
  from moves_used [OF run j(1) this] j show ?thesis by (auto simp: draining_def)
qed

section \<open>A concrete pass\<close>

text \<open>A request is parked, a pass tries it in vain and puts it back; then nothing happens any more.\<close>

definition parked_50 :: "nat list \<Rightarrow> nat \<Rightarrow> nat Queue" where
  "parked_50 ps cur = \<lparr>buckets = (\<lambda>_. [])(High := ps), capacity = 50, cursor = cur\<rparr>"

definition drain_gw :: "nat \<Rightarrow> gateway" where
  "drain_gw i =
     (if i = 0 then gw_at (parked_50 [] 0) [] Parked
      else if i = 1 then gw_at (parked_50 [1] 0) [1] Parked
      else if i = 2 then gw_at (parked_50 [1] 0) [1] (Loop 1)
      else if i = 3 then gw_at (parked_50 [] 1) [1] (Took 0 1 High)
      else if i = 4 then gw_at (parked_50 [] 1) [1] (Trying 0 1 High)
      else if i = 5 then gw_at (parked_50 [] 1) [1] (Retrying 0 1 High)
      else if i = 6 then gw_at (parked_50 [1] 1) [1] (Loop 0)
      else gw_at (parked_50 [1] 1) [1] Parked)"

definition drain_run :: "nat \<Rightarrow> system" where
  "drain_run i = (main_init demo_mem)\<lparr>sy_gateway := drain_gw i\<rparr>"

lemma drain_run_0: "drain_run 0 = main_init demo_mem"
  by (auto simp: drain_run_def drain_gw_def main_init_def NewGateway_def gw_at_def parked_50_def NewQueue_def fun_eq_iff)

lemma drain_gw_step: "drain_gw (Suc i) = drain_gw i \<or> gw_step {NewNodeRegistry} (drain_gw i) (drain_gw (Suc i))"
proof -
  let ?R = "{NewNodeRegistry}" and ?g = "gw_at (parked_50 [] 1) [1]"
  consider "i = 0" | "i = 1" | "i = 2" | "i = 3" | "i = 4" | "i = 5" | "i = 6" | "7 \<le> i" by linarith
  then show ?thesis
  proof cases
    case 1
    have "gw_step ?R (drain_gw 0) (HandleSchedule_start insertion_sort [] NewNodeRegistry 1 demo_rq (drain_gw 0))"
      using go_insertion.slice_sorter_axioms no_nodes
      by (intro gw_step.request) (simp_all add: gw_at_def drain_gw_def)
    moreover have "HandleSchedule_start insertion_sort [] NewNodeRegistry 1 demo_rq (drain_gw 0) = drain_gw 1"
      using no_nodes(1)
      by (auto simp: HandleSchedule_start_def demo_rq_def gw_at_def parked_50_def Admit_def Let_def
          classFor_def demo_req_def demo_mem_def drain_gw_def fun_eq_iff)
    ultimately show ?thesis using 1 by simp
  next
    case 2
    with gw_step.tick [of "gw_at (parked_50 [1] 0) [1] Parked" ?R] show ?thesis
      by (simp add: drain_gw_def gw_at_def Len_def parked_50_def)
  next
    case 3
    have "Next (parked_50 [1] 0) = (Some (1, High), parked_50 [] 1)"
      using scan_hit [of "parked_50 [1] 0" 1 "[]" 9] by (simp add: Next_def parked_50_def weightSequence_def)
    with 3 gw_step.take_next [of "gw_at (parked_50 [1] 0) [1] (Loop 1)" 0 1 High "parked_50 [] 1" ?R] show ?thesis
      by (simp add: drain_gw_def gw_at_def)
  next
    case 4
    with gw_step.attempt [of "?g (Took 0 1 High)" 0 1 High ?R] show ?thesis
      by (simp add: drain_gw_def gw_at_def demo_mem_def)
  next
    case 5
    have "outcome_of ?R demo_req (Inl NoHealthyNodes)"
      using no_nodes go_insertion.slice_sorter_axioms unfolding outcome_of_def by blast
    with 5 gw_step.miss [of "?g (Trying 0 1 High)" 0 1 High ?R NoHealthyNodes] show ?thesis
      by (simp add: drain_gw_def gw_at_def demo_mem_def)
  next
    case 6
    with gw_step.retry [of "?g (Retrying 0 1 High)" 0 1 High ?R] show ?thesis
      by (simp add: drain_gw_def gw_at_def give_back_def Admit_def parked_50_def Let_def)
  next
    case 7
    with gw_step.finish [of "gw_at (parked_50 [1] 1) [1] (Loop 0)" ?R] show ?thesis
      by (simp add: drain_gw_def gw_at_def)
  next
    case 8
    then show ?thesis by (simp add: drain_gw_def)
  qed
qed

lemma drain_run_is_run: "is_run sys_step drain_run"
  unfolding is_run_def
proof
  fix i :: nat
  show "sys_step (drain_run i) (drain_run (Suc i))"
    using drain_gw_step [of i]
  proof
    assume "drain_gw (Suc i) = drain_gw i"
    with sys_stutter show ?thesis by (simp add: drain_run_def)
  next
    assume "gw_step {NewNodeRegistry} (drain_gw i) (drain_gw (Suc i))"
    then have "gw_step (sy_seen (drain_run i)) (sy_gateway (drain_run i)) (drain_gw (Suc i))"
      by (simp add: drain_run_def main_init_def)
    from sys_step.admission [OF this] show ?thesis by (simp add: drain_run_def)
  qed
qed

lemma drain_run_rests: "7 \<le> k \<Longrightarrow> \<not> draining (drain_run k)"
  by (simp add: draining_def drain_run_def drain_gw_def gw_at_def)

lemma drain_run_fair: "fair drain_move drain_run"
  unfolding fair_def
proof (intro allI impI)
  fix i :: nat
  assume "\<forall>j \<ge> i. \<exists>t. drain_move (drain_run j) t"
  then have "draining (drain_run (max i 7))" by (auto simp: drain_move_def)
  with drain_run_rests [of "max i 7"] show "\<exists>j \<ge> i. drain_move (drain_run j) (drain_run (Suc j))" by simp
qed

theorem drain_pass_terminates_witness:
  "g_drain (sy_gateway (drain_run 2)) = Loop 1 \<and> (\<exists>j \<ge> 2. g_drain (sy_gateway (drain_run j)) = Parked \<and>
     card {k. 2 \<le> k \<and> k < j \<and> drain_move (drain_run k) (drain_run (Suc k))} \<le> 5)"
proof -
  have "sys_step\<^sup>*\<^sup>* (main_init demo_mem) (drain_run 0)" by (simp add: drain_run_0)
  from drain_pass_terminates [OF this drain_run_is_run drain_run_fair, of 2] show ?thesis
    by (simp add: drain_run_def drain_gw_def gw_at_def)
qed

end
