(* ===== verification/System_History.thy ===== *)
theory System_History
  imports Pass_Properties
begin

text \<open>
  What the scheduler knows, traced back to what the agents reported: the registry is the last
  report of every GPU, placements and commands rest on reports that were acknowledged, and every
  acknowledged report is taken up.
\<close>

section \<open>The registry and the reports\<close>

definition hb_key :: "HeartbeatMsg \<Rightarrow> string" where
  "hb_key hb = node_key (hb_NodeID hb) (hb_GPUID hb)"

text \<open>The last report for a key among those applied, and a registry that holds exactly these.\<close>

definition last_report :: "string \<Rightarrow> (time \<times> HeartbeatMsg) list \<Rightarrow> (time \<times> HeartbeatMsg) option" where
  "last_report k xs = find (\<lambda>(t, hb). hb_key hb = k) (rev xs)"

definition reflects :: "NodeRegistry \<Rightarrow> (time \<times> HeartbeatMsg) list \<Rightarrow> bool" where
  "reflects r xs \<longleftrightarrow> (\<forall>k. map_option (\<lambda>n. n\<lparr>Healthy := False\<rparr>) (nodes r k) =
     map_option (\<lambda>(t, hb). node_of_heartbeat t hb) (last_report k xs))"

lemma last_report_append [simp]:
  "last_report k (xs @ [(t, hb)]) = (if hb_key hb = k then Some (t, hb) else last_report k xs)"
  by (simp add: last_report_def)

lemma last_report_Some:
  assumes "last_report k xs = Some (t, hb)"
  shows "(t, hb) \<in> set xs" "hb_key hb = k"
  using assms by (auto simp: last_report_def find_Some_iff)
    (metis in_set_conv_nth length_rev nth_mem set_rev)

lemma reflects_New: "reflects NewNodeRegistry []"
  by (simp add: reflects_def last_report_def NewNodeRegistry_def)

lemma reflects_applyHeartbeat: "reflects r xs \<Longrightarrow> reflects (applyHeartbeat t hb r) (xs @ [(t, hb)])"
  by (auto simp: reflects_def applyHeartbeat_def nodes_Upsert hb_key_def key_of_def node_of_heartbeat_def)

lemma reflects_MarkUnhealthy: "reflects r xs \<Longrightarrow> reflects (MarkUnhealthy nid gid r) xs"
  by (auto simp: reflects_def nodes_MarkUnhealthy split: option.splits)
    (metis option.simps(9))+

lemma reflects_pass_step:
  assumes "pass_step pick ks r reg c = (reg', c', acts)" and "reflects reg xs"
  shows "reflects reg' xs"
  using assms by (induction pick ks r reg c rule: pass_step.induct)
    (auto intro: reflects_MarkUnhealthy split: if_splits option.splits)

lemma reflects_node:
  assumes "reflects r xs" and "nodes r k = Some n"
  obtains t hb where "last_report k xs = Some (t, hb)" "n\<lparr>Healthy := False\<rparr> = node_of_heartbeat t hb"
    "n = (node_of_heartbeat t hb)\<lparr>Healthy := Healthy n\<rparr>"
proof -
  from assms have "map_option (\<lambda>(t, hb). node_of_heartbeat t hb) (last_report k xs) = Some (n\<lparr>Healthy := False\<rparr>)"
    by (simp add: reflects_def [THEN iffD1, rule_format, symmetric])
  then obtain t hb where *: "last_report k xs = Some (t, hb)" "n\<lparr>Healthy := False\<rparr> = node_of_heartbeat t hb"
    by (auto split: prod.splits)
  have "n = n\<lparr>Healthy := False, Healthy := Healthy n\<rparr>" by simp
  then have "n = (node_of_heartbeat t hb)\<lparr>Healthy := Healthy n\<rparr>" by (simp only: *(2))
  with * show ?thesis by (rule that)
qed

text \<open>
  The invariant of the whole system: the registry reflects the heartbeats applied, every registry
  there has been reflects those applied up to some moment, and what was acknowledged is what was
  applied, in order, and what waits in the channel.
\<close>

definition history_inv :: "system \<Rightarrow> bool" where
  "history_inv s \<longleftrightarrow> reflects (sy_reg s) (sy_applied s) \<and>
     (\<forall>r \<in> sy_seen s. \<exists>xs ys. sy_applied s = xs @ ys \<and> reflects r xs) \<and>
     sy_accepted s = map snd (sy_applied s) @ ch_buf (sy_heartbeats s)"

lemma history_frame:
  assumes "history_inv s" and "sy_reg s' = sy_reg s" "sy_seen s' = sy_seen s"
    "sy_applied s' = sy_applied s" "sy_accepted s' = sy_accepted s" "sy_heartbeats s' = sy_heartbeats s"
  shows "history_inv s'"
  using assms by (simp add: history_inv_def)

lemma handleHeartbeat_accepts:
  "handleHeartbeat rq ch = (rsp, ch') \<Longrightarrow> ch_buf ch' = ch_buf ch @ acknowledged rq rsp"
  by (auto simp: handleHeartbeat_def acknowledged_def http_error_def try_send_Some
      split: if_splits sum.splits option.splits)

lemma history_inv_step:
  assumes inv: "history_inv s" and "sys_step s s'"
  shows "history_inv s'"
  using assms(2)
proof (cases rule: sys_step_cases)
  case (heartbeat rq lines rsp ch)
  with inv handleHeartbeat_accepts [OF heartbeat(2)] show ?thesis by (simp add: history_inv_def)
next
  case (apply_heartbeat hb ch now)
  have "reflects (sy_reg s') (sy_applied s')"
    using inv apply_heartbeat(1) by (simp add: history_inv_def reflects_applyHeartbeat)
  moreover have "\<exists>xs ys. sy_applied s' = xs @ ys \<and> reflects r xs" if "r \<in> sy_seen s'" for r
  proof (cases "r \<in> sy_seen s")
    case True
    with inv obtain xs ys where "sy_applied s = xs @ ys" "reflects r xs" unfolding history_inv_def by blast
    then have "sy_applied s' = xs @ (ys @ [(now, hb)]) \<and> reflects r xs" using apply_heartbeat(1) by simp
    then show ?thesis by blast
  next
    case False
    with that apply_heartbeat(1) have "r = sy_reg s'" by simp
    with \<open>reflects (sy_reg s') (sy_applied s')\<close> have "sy_applied s' = sy_applied s' @ [] \<and> reflects r (sy_applied s')"
      by simp
    then show ?thesis by blast
  qed
  moreover have "ch_buf (sy_heartbeats s) = hb # ch_buf ch"
    using apply_heartbeat(4) by (auto simp: recv_def split: list.splits)
  ultimately show ?thesis using inv apply_heartbeat(1) by (simp add: history_inv_def)
next
  case (advance pick ks reg c acts)
  then have "reflects reg (sy_applied s)" using inv reflects_pass_step by (auto simp: history_inv_def)
  then have "sy_applied s = sy_applied s @ [] \<and> reflects reg (sy_applied s)" by simp
  then have "\<exists>xs ys. sy_applied s = xs @ ys \<and> reflects reg xs" by blast
  with inv advance(1) \<open>reflects reg (sy_applied s)\<close> show ?thesis by (simp add: history_inv_def)
qed (rule history_frame [OF inv]; simp)+

lemma history_inv_init: "history_inv (main_init mem)"
  by (simp add: history_inv_def main_init_def reflects_New make_chan_def)

interpretation history: invariant_system "\<lambda>s. \<exists>mem. s = main_init mem" sys_step history_inv
  by unfold_locales (auto simp: history_inv_init intro: history_inv_step)

lemma reachable_history: "sys_step\<^sup>*\<^sup>* (main_init mem) s \<Longrightarrow> history_inv s"
  using history.reachable_inv by blast

lemma last_report_split:
  assumes "last_report k xs = Some (t, hb)"
  shows "\<exists>before after. xs = before @ (t, hb) # after \<and> hb_key hb = k \<and> (\<forall>(t', hb') \<in> set after. hb_key hb' \<noteq> k)"
  using assms
proof (induction xs rule: rev_induct)
  case (snoc x xs)
  show ?case
  proof (cases "hb_key (snd x) = k")
    case True
    with snoc.prems have "x = (t, hb)" by (cases x) simp
    with True show ?thesis by (intro exI [of _ xs] exI [of _ "[]"]) simp
  next
    case False
    with snoc obtain before after where "xs = before @ (t, hb) # after" "hb_key hb = k"
      "\<forall>(t', hb') \<in> set after. hb_key hb' \<noteq> k" by (cases x) auto
    with False show ?thesis by (intro exI [of _ before] exI [of _ "after @ [x]"]) auto
  qed
qed (simp add: last_report_def)

lemma last_report_None: "last_report k xs = None \<longleftrightarrow> (\<forall>(t, hb) \<in> set xs. hb_key hb \<noteq> k)"
  by (auto simp: last_report_def find_None_iff)

text \<open>
  C7. The registry is the last report of every GPU: in every interleaving of the whole scheduler,
  the node filed under a key is, but for its health mark, the one of the last heartbeat applied for
  that key, with the time it was applied; there is none under a key that never reported. What was
  acknowledged with 204 is what was applied, in the same order, followed by what waits in the
  channel: no acknowledged heartbeat is lost, duplicated or overtaken.
\<close>

theorem registry_is_last_reports:
  assumes "sys_step\<^sup>*\<^sup>* (main_init mem) s"
  shows "sy_accepted s = map snd (sy_applied s) @ ch_buf (sy_heartbeats s) \<and>
    (case nodes (sy_reg s) k of
       None \<Rightarrow> (\<forall>(t, hb) \<in> set (sy_applied s). node_key (hb_NodeID hb) (hb_GPUID hb) \<noteq> k)
     | Some n \<Rightarrow> (\<exists>before t hb after. sy_applied s = before @ (t, hb) # after \<and>
         node_key (hb_NodeID hb) (hb_GPUID hb) = k \<and>
         (\<forall>(t', hb') \<in> set after. node_key (hb_NodeID hb') (hb_GPUID hb') \<noteq> k) \<and>
         n = (node_of_heartbeat t hb)\<lparr>Healthy := Healthy n\<rparr>))"
proof -
  from reachable_history [OF assms] have refl: "reflects (sy_reg s) (sy_applied s)"
    and acc: "sy_accepted s = map snd (sy_applied s) @ ch_buf (sy_heartbeats s)"
    by (simp_all add: history_inv_def)
  show ?thesis
  proof (cases "nodes (sy_reg s) k")
    case None
    with refl have "last_report k (sy_applied s) = None"
      by (simp add: reflects_def) (metis option.map_disc_iff)
    with None acc show ?thesis by (simp add: last_report_None hb_key_def)
  next
    case (Some n)
    with refl obtain t hb where "last_report k (sy_applied s) = Some (t, hb)"
      "n = (node_of_heartbeat t hb)\<lparr>Healthy := Healthy n\<rparr>" by (rule reflects_node)
    with last_report_split Some acc show ?thesis unfolding hb_key_def by fastforce
  qed
qed

section \<open>Decisions and commands rest on reports\<close>

text \<open>A placement in a registry that reflects reports, read off the report.\<close>

definition offers :: "HeartbeatMsg \<Rightarrow> string \<Rightarrow> i64 \<Rightarrow> bool" where
  "offers hb sid needed \<longleftrightarrow>
     (if hb_MIGEnabled hb \<and> hb_MIGSlices hb \<noteq> []
      then \<exists>sl \<in> set (hb_MIGSlices hb). s_Healthy sl \<and> s_SliceID sl = sid \<and> sint needed \<le> sint (s_FreeVRAM sl)
      else sid = (if hb_MIGEnabled hb then ''full'' else []) \<and>
        sint needed \<le> sint (hb_TotalVRAMMiB hb - hb_UsedVRAMMiB hb))"

lemma placement_reported:
  assumes "reflects r xs" and "(n, sl) \<in> placements r needed" and "decides d n sl"
  shows "\<exists>t hb. last_report (node_key (d_NodeID d) (d_GPUID d)) xs = Some (t, hb) \<and>
    hb_NodeID hb = d_NodeID d \<and> hb_GPUID hb = d_GPUID d \<and> offers hb (d_SliceID d) needed"
proof -
  from assms(2) obtain k where k: "nodes r k = Some n"
    by (auto simp: placements_def healthy_nodes_def ran_def)
  from reflects_node [OF assms(1) k] obtain t hb where
    t: "last_report k xs = Some (t, hb)" and n: "n = (node_of_heartbeat t hb)\<lparr>Healthy := Healthy n\<rparr>"
    by blast
  from n have f: "NodeID n = hb_NodeID hb" "GPUID n = hb_GPUID hb" "MIGEnabled n = hb_MIGEnabled hb"
    "MIGSlices n = hb_MIGSlices hb" "TotalVRAMMiB n = hb_TotalVRAMMiB hb" "UsedVRAMMiB n = hb_UsedVRAMMiB hb"
    by (simp_all add: node_of_heartbeat_def) (metis GPUNode.select_convs GPUNode.update_convs)+
  have "k = node_key (d_NodeID d) (d_GPUID d)"
    using last_report_Some(2) [OF t] assms(3) f by (simp add: hb_key_def decides_def)
  moreover have "offers hb (d_SliceID d) needed"
    using assms(2,3) f
    by (auto simp: offers_def placements_def decides_def slices_of_def SyntheticFullSlice_def s_FreeVRAM_def
        split: if_splits)
  ultimately show ?thesis using t assms(3) f by (auto simp: decides_def)
qed

text \<open>
  C4. A client is placed on what an agent reported: every decision answered with 200, in every
  interleaving, names a GPU whose last acknowledged heartbeat, at some moment of the run, offers
  the place. On a node that reports slices it is a healthy slice of that report with room for
  the request, otherwise the whole GPU with room for it.
\<close>

theorem decisions_follow_heartbeats:
  assumes "sys_step\<^sup>*\<^sup>* (main_init mem) s"
    and "g_handlers (sy_gateway s) i = Some \<lparr>h_request = rq, h_state = Replied rsp\<rparr>"
    and "rs_body rsp = DecisionJSON d"
  shows "\<exists>req seen rest t hb. rq_body rq = Inr req \<and> sy_accepted s = map snd seen @ rest \<and>
    last_report (node_key (d_NodeID d) (d_GPUID d)) seen = Some (t, hb) \<and>
    hb_NodeID hb = d_NodeID d \<and> hb_GPUID hb = d_GPUID d \<and> offers hb (d_SliceID d) (VRAMNeededMiB req)"
proof -
  have "gateway_reached (sy_seen s) (sy_gateway s)"
    using sys_runs.reachable_inv [OF _ assms(1)] by (auto simp: sys_inv_def)
  then obtain gm where "(gw_step (sy_seen s))\<^sup>*\<^sup>* (NewGateway NewReconciler (NewQueue 50) gm) (sy_gateway s)"
    unfolding gateway_reached_def by blast
  from gw_invD(6) [OF reachable_gw_inv [OF this] assms(2)]
  have "reply_ok (sy_seen s) rq rsp" by (simp add: handler_ok_def)
  with assms(3) obtain req where req: "rq_body rq = Inr req" "outcome_of (sy_seen s) req (Inr d)"
    by (auto simp: reply_ok_def)
  from outcome_Inr [OF req(2)] obtain r n sl where
    r: "r \<in> sy_seen s" "(n, sl) \<in> placements r (VRAMNeededMiB req)" "decides d n sl" by blast
  from reachable_history [OF assms(1)] r(1) obtain xs ys where
    xs: "sy_applied s = xs @ ys" "reflects r xs" and
    acc: "sy_accepted s = map snd (sy_applied s) @ ch_buf (sy_heartbeats s)"
    unfolding history_inv_def by blast
  from placement_reported [OF xs(2) r(2,3)] req(1) acc xs(1) show ?thesis
    by (intro exI [of _ req] exI [of _ xs] exI [of _ "map snd ys @ ch_buf (sy_heartbeats s)"]) auto
qed

lemma post_address:
  assumes "sys_step\<^sup>*\<^sup>* (main_init mem) s" and "handleAction (sy_reg s) a = (line, Some p)"
  shows "\<exists>t hb. last_report (node_key (a_NodeID a) (a_GPUID a)) (sy_applied s) = Some (t, hb) \<and>
    hb_AgentAddr hb \<noteq> [] \<and> po_url p = hb_AgentAddr hb @ ''/command'' \<and>
    ac_ModelName (po_body p) = a_ModelName a \<and> ac_SliceID (po_body p) = a_SliceID a"
proof -
  from assms(2) obtain n where n: "nodes (sy_reg s) (node_key (a_NodeID a) (a_GPUID a)) = Some n"
    and p: "AgentAddr n \<noteq> []" "po_url p = AgentAddr n @ ''/command''"
      "ac_ModelName (po_body p) = a_ModelName a" "ac_SliceID (po_body p) = a_SliceID a"
    by (auto simp: handleAction_def dispatchToAgent_def Get_def Let_def
        split: ActionType.splits option.splits if_splits)
  from reachable_history [OF assms(1)] have "reflects (sy_reg s) (sy_applied s)" by (simp add: history_inv_def)
  from reflects_node [OF this n] obtain t hb where
    t: "last_report (node_key (a_NodeID a) (a_GPUID a)) (sy_applied s) = Some (t, hb)"
    and "n\<lparr>Healthy := False\<rparr> = node_of_heartbeat t hb" by blast
  then have "AgentAddr (n\<lparr>Healthy := False\<rparr>) = hb_AgentAddr hb" by (simp add: node_of_heartbeat_def)
  with t p show ?thesis by simp
qed

text \<open>
  C18. A command goes to the agent that reported last: whenever a step of the system sends a
  request to an agent, its URL is the \<open>/command\<close> path of the address in the last heartbeat
  applied for the GPU of the action, which is not empty.
\<close>

theorem commands_go_to_last_reporter:
  assumes "sys_step\<^sup>*\<^sup>* (main_init mem) s" and "sys_step s s'"
    and "sy_posts s' = sy_posts s @ [(a, p)]"
  shows "\<exists>t hb. last_report (node_key (a_NodeID a) (a_GPUID a)) (sy_applied s) = Some (t, hb) \<and>
    hb_AgentAddr hb \<noteq> [] \<and> po_url p = hb_AgentAddr hb @ ''/command'' \<and>
    ac_ModelName (po_body p) = a_ModelName a \<and> ac_SliceID (po_body p) = a_SliceID a"
  using assms(2)
proof (cases rule: sys_step_cases)
  case (handle_action b ch line q)
  with assms(3) have "handleAction (sy_reg s) a = (line, Some p)" by (auto split: option.splits)
  then show ?thesis by (rule post_address [OF assms(1)])
qed (use assms(3) in auto)

section \<open>Acknowledged heartbeats are applied\<close>

definition apply_move :: "system \<Rightarrow> system \<Rightarrow> bool" where
  "apply_move s t \<longleftrightarrow> reconciler_step s t \<and> length (sy_applied s) < length (sy_applied t)"

lemma accepted_grows: "sys_step s t \<Longrightarrow> \<exists>new. sy_accepted t = sy_accepted s @ new"
  by (erule sys_step_cases) auto

lemma accepted_grows_steps: "sys_step\<^sup>*\<^sup>* s t \<Longrightarrow> \<exists>new. sy_accepted t = sy_accepted s @ new"
  by (induction rule: rtranclp_induct) (auto dest!: accepted_grows)

lemma applied_grows_steps: "sys_step\<^sup>*\<^sup>* s t \<Longrightarrow> set (sy_applied s) \<subseteq> set (sy_applied t)"
proof (induction rule: rtranclp_induct)
  case (step t u)
  from step(2) have "set (sy_applied t) \<subseteq> set (sy_applied u)" by (cases rule: sys_step_cases) auto
  with step show ?case by blast
qed simp

interpretation intake: server_system "\<lambda>s. \<exists>mem. s = main_init mem" sys_step history_inv apply_move
  "\<lambda>s. \<not> in_pass s" "\<lambda>s. length (sy_applied s)" "\<lambda>s. length (sy_accepted s)"
proof unfold_locales
  show "length (sy_applied s) \<le> length (sy_applied t)" if "sys_step s t" for s t
    using that by (cases rule: sys_step_cases) auto
  show "length (sy_accepted s) \<le> length (sy_accepted t)" if "sys_step s t" for s t
    using accepted_grows [OF that] by auto
  show "\<exists>t. apply_move s t"
    if inv: "history_inv s" and idle: "\<not> in_pass s" and "length (sy_applied s) < length (sy_accepted s)" for s
  proof -
    from that obtain hb rest where "ch_buf (sy_heartbeats s) = hb # rest"
      by (cases "ch_buf (sy_heartbeats s)") (auto simp: history_inv_def)
    then have "recv (sy_heartbeats s) = Some (hb, (sy_heartbeats s)\<lparr>ch_buf := rest\<rparr>)" by (simp add: recv_def)
    from reconciler_step.apply_heartbeat [OF _ _ this, of 0] idle show ?thesis
      unfolding apply_move_def in_pass_def by fastforce
  qed
qed (simp add: apply_move_def)

text \<open>
  C11. Every acknowledged heartbeat is applied: in every infinite run that neglects no enabled
  move of a pass for ever and in which the reconciler, between passes, takes up a heartbeat again
  and again when there is one again and again, all that was acknowledged at any moment is
  in the end applied, in the order it was acknowledged.
\<close>

theorem acknowledged_heartbeats_applied:
  assumes "sys_step\<^sup>*\<^sup>* (main_init mem) (f 0)" and "is_run sys_step f"
    and "fair pass_move f" and "strongly_fair apply_move f"
  shows "\<exists>j \<ge> i. \<exists>rest. map snd (sy_applied (f j)) = sy_accepted (f i) @ rest"
proof -
  from intake.catches_up [OF assms(2) reachable_history [OF assms(1)] assms(4) pass_idle_again [OF assms(1-3)]]
  obtain j where j: "i \<le> j" "length (sy_accepted (f i)) \<le> length (sy_applied (f j))" by blast
  obtain new where "sy_accepted (f j) = sy_accepted (f i) @ new"
    using accepted_grows_steps [OF run_steps [OF assms(2) j(1)]] by blast
  moreover have "sys_step\<^sup>*\<^sup>* (main_init mem) (f j)"
    using assms(1) run_steps [OF assms(2), of 0 j] by (meson le0 rtranclp_trans)
  then have "sy_accepted (f j) = map snd (sy_applied (f j)) @ ch_buf (sy_heartbeats (f j))"
    using reachable_history by (simp add: history_inv_def)
  ultimately have "map snd (sy_applied (f j)) @ ch_buf (sy_heartbeats (f j)) = sy_accepted (f i) @ new" by simp
  then have "take (length (sy_accepted (f i))) (map snd (sy_applied (f j))) = sy_accepted (f i)"
    using j(2) by (metis append_eq_conv_conj length_map take_append take_all_iff diff_is_0_eq' append_Nil2 take_0)
  then show ?thesis using j(1) by (metis append_take_drop_id)
qed

section \<open>Concrete runs\<close>

theorem registry_is_last_reports_witness:
  "\<exists>t hb. (t, hb) \<in> set (sy_applied sys_placed) \<and> node_key (hb_NodeID hb) (hb_GPUID hb) = ''a/g''"
proof -
  have "nodes (sy_reg sys_placed) ''a/g'' = Some node_a" by (simp add: sys_placed_def nodes_reg_a)
  with registry_is_last_reports [OF run_placed_sys, of "''a/g''"] show ?thesis by auto blast
qed

lemma schedule_reg_a:
  "Schedule insertion_sort [''a/g''] reg_a demo_req = Inr (demo_decision\<lparr>d_AffinityHit := False\<rparr>)"
  by code_simp

lemma gw_x_replied:
  "g_handlers gw_x 7 = Some \<lparr>h_request = demo_rq,
     h_state = Replied (writeDecision 200 (demo_decision\<lparr>d_AffinityHit := False\<rparr>))\<rparr>"
  by (simp add: gw_x_def HandleSchedule_start_def demo_rq_def schedule_reg_a respond_def)

theorem decisions_follow_heartbeats_witness:
  "\<exists>seen rest t hb. [demo_hb []] = map snd seen @ rest \<and> last_report (node_key ''a'' ''g'') seen = Some (t, hb) \<and>
     offers hb [] 100"
proof -
  have "g_handlers (sy_gateway sys_placed) 7 = Some \<lparr>h_request = demo_rq,
      h_state = Replied (writeDecision 200 (demo_decision\<lparr>d_AffinityHit := False\<rparr>))\<rparr>"
    using gw_x_replied by (simp add: sys_placed_def)
  from decisions_follow_heartbeats [OF run_placed_sys this, of "demo_decision\<lparr>d_AffinityHit := False\<rparr>"]
  obtain req seen rest t hb where "rq_body demo_rq = Inr req" "[demo_hb []] = map snd seen @ rest"
    "last_report (node_key ''a'' ''g'') seen = Some (t, hb)" "offers hb [] (VRAMNeededMiB req)"
    by (auto simp: writeDecision_def demo_decision_def sys_placed_def)
  then show ?thesis by (auto simp: demo_rq_def)
qed

theorem commands_go_to_last_reporter_witness:
  "\<exists>t hb. last_report (node_key ''a'' ''g'') (sy_applied (demo_run 5)) = Some (t, hb) \<and>
     po_url post_x = hb_AgentAddr hb @ ''/command''"
proof -
  have "sys_step\<^sup>*\<^sup>* (demo_run 0) (demo_run 5)" by (rule run_steps [OF demo_run_is_run]) simp
  with run_placed_sys have run: "sys_step\<^sup>*\<^sup>* (main_init demo_mem) (demo_run 5)"
    by (simp add: demo_run_def)
  have posts: "sy_posts (demo_run 6) = sy_posts (demo_run 5) @ [(prewarm_x, post_x)]"
    by (simp add: demo_run_def demo_state)
  from commands_go_to_last_reporter [OF run sys_step.dispatcher [OF demo_moves(6)] posts] show ?thesis
    by (auto simp: prewarm_x_def)
qed

text \<open>A heartbeat waits in the channel; it is applied and nothing happens afterwards.\<close>

definition intake_run :: "nat \<Rightarrow> system" where
  "intake_run i = (if i = 0 then sys_reported else sys_known)"

lemma intake_run_is_run: "is_run sys_step intake_run"
  using demo_intake(2) sys_stutter by (simp add: is_run_def intake_run_def)

lemma intake_run_fair: "fair pass_move intake_run" "strongly_fair apply_move intake_run"
proof -
  have "\<not> in_pass sys_known" by (simp add: in_pass_def sys_known_def demo_state)
  then have "\<not> pass_move (intake_run (Suc i)) t" for i t by (simp add: intake_run_def pass_move_def)
  then show "fair pass_move intake_run" unfolding fair_def by (meson Suc_n_not_le_n nat_le_linear le_SucI)
  have "recv (sy_heartbeats sys_known) = None" by (simp add: sys_known_def demo_state recv_def)
  then have "\<not> apply_move sys_known t" for t
    by (auto simp: apply_move_def elim!: reconciler_stepE)
  then have "\<not> (\<exists>j \<ge> 1. \<exists>t. apply_move (intake_run j) t)" by (auto simp: intake_run_def)
  then show "strongly_fair apply_move intake_run" unfolding strongly_fair_def by blast
qed

theorem acknowledged_heartbeats_applied_witness:
  "\<exists>j rest. map snd (sy_applied (intake_run j)) = demo_hb [] # rest"
proof -
  have "sys_step\<^sup>*\<^sup>* (main_init demo_mem) (intake_run 0)" using demo_intake(1) by (auto simp: intake_run_def)
  from acknowledged_heartbeats_applied [OF this intake_run_is_run intake_run_fair, of 0] show ?thesis
    by (auto simp: intake_run_def sys_reported_def)
qed

end
