(* ===== verification/Placements.thy ===== *)
theory Placements
  imports System_History "HOL-Library.Sublist"
begin

text \<open>
  What becomes of a placement: the actions a pass decides on reach the dispatcher once each and in
  order, and a model a client was told is placed is loaded by a command to the GPU's agent.
\<close>

section \<open>From a decision of a pass to the dispatcher\<close>

text \<open>
  What was decided is what the dispatcher took, what waits in the channel, and what is unsent;
  requests go out for actions it took.
\<close>

definition actions_inv :: "system \<Rightarrow> bool" where
  "actions_inv s \<longleftrightarrow> sy_decided s = sy_handled s @ ch_buf (sy_actions s) @ sy_unsent s \<and>
     subseq (map fst (sy_posts s)) (sy_handled s)"

lemma recv_buf: "recv ch = Some (x, ch') \<Longrightarrow> ch_buf ch = x # ch_buf ch'"
  by (auto simp: recv_def split: list.splits)

lemma actions_inv_step:
  assumes inv: "actions_inv s" and "sys_step s s'"
  shows "actions_inv s'"
  using assms(2)
proof (cases rule: sys_step_cases)
  case (send_action a rest ch)
  with inv show ?thesis by (auto simp: actions_inv_def try_send_Some)
next
  case (handle_action a ch line p)
  have "subseq (map fst (sy_posts s')) (sy_handled s')"
    using inv handle_action(1) by (auto simp: actions_inv_def split: option.split)
  moreover have "sy_decided s' = sy_handled s' @ ch_buf (sy_actions s') @ sy_unsent s'"
    using inv handle_action(1) recv_buf [OF handle_action(2)] by (simp add: actions_inv_def)
  ultimately show ?thesis by (simp add: actions_inv_def)
next
  case (advance pick ks reg c acts)
  with inv show ?thesis by (simp add: actions_inv_def)
qed (use inv in \<open>simp_all add: actions_inv_def\<close>)

lemma actions_inv_init: "actions_inv (main_init mem)"
  by (simp add: actions_inv_def main_init_def make_chan_def)

interpretation actions: invariant_system "\<lambda>s. \<exists>mem. s = main_init mem" sys_step actions_inv
  by unfold_locales (auto simp: actions_inv_init intro: actions_inv_step)

lemma reachable_actions: "sys_step\<^sup>*\<^sup>* (main_init mem) s \<Longrightarrow> actions_inv s"
  using actions.reachable_inv by blast

text \<open>
  C17. Actions are dispatched once each and in order: in every interleaving the actions the passes
  decided on are those the dispatcher took, followed by those in the channel and those still to be
  sent; and the requests sent to agents are for actions it took, at most one for each, in the same
  order. A blocked reconciler loses no action and a dispatcher repeats none.
\<close>

theorem actions_dispatched_in_order:
  assumes "sys_step\<^sup>*\<^sup>* (main_init mem) s"
  shows "sy_decided s = sy_handled s @ ch_buf (sy_actions s) @ sy_unsent s \<and>
    subseq (map fst (sy_posts s)) (sy_handled s) \<and> length (ch_buf (sy_actions s)) \<le> 64"
proof -
  have "channels_ok s" using sys_channels.reachable_inv [OF _ assms] by blast
  then have "length (ch_buf (sy_actions s)) \<le> 64" by (simp add: channels_ok_def ch_ok_def)
  with reachable_actions [OF assms] show ?thesis by (simp add: actions_inv_def)
qed

definition handle_move :: "system \<Rightarrow> system \<Rightarrow> bool" where
  "handle_move s t \<longleftrightarrow> dispatcher_step s t \<and> length (sy_handled s) < length (sy_handled t)"

lemma decided_grows: "sys_step s t \<Longrightarrow> \<exists>new. sy_decided t = sy_decided s @ new"
  by (erule sys_step_cases) auto

lemma decided_grows_steps: "sys_step\<^sup>*\<^sup>* s t \<Longrightarrow> \<exists>new. sy_decided t = sy_decided s @ new"
  by (induction rule: rtranclp_induct) (auto dest!: decided_grows)

lemma handled_step:
  assumes "sys_step s t"
  obtains "sy_handled t = sy_handled s"
  | a line p where "sy_handled t = sy_handled s @ [a]" "handleAction (sy_reg s) a = (line, p)"
      "sy_posts t = sy_posts s @ (case p of None \<Rightarrow> [] | Some p \<Rightarrow> [(a, p)])"
      "sy_reg t = sy_reg s" "sy_applied t = sy_applied s"
  using assms by (cases rule: sys_step_cases) auto

interpretation dispatching: server_system "\<lambda>s. \<exists>mem. s = main_init mem" sys_step actions_inv handle_move
  "\<lambda>s. \<not> in_pass s" "\<lambda>s. length (sy_handled s)" "\<lambda>s. length (sy_decided s)"
proof unfold_locales
  show "length (sy_handled s) \<le> length (sy_handled t)" if "sys_step s t" for s t
    using that by (cases rule: handled_step) auto
  show "length (sy_decided s) \<le> length (sy_decided t)" if "sys_step s t" for s t
    using decided_grows [OF that] by auto
  show "\<exists>t. handle_move s t"
    if inv: "actions_inv s" and idle: "\<not> in_pass s" and "length (sy_handled s) < length (sy_decided s)" for s
  proof -
    from that obtain a rest where "ch_buf (sy_actions s) = a # rest"
      by (cases "ch_buf (sy_actions s)") (auto simp: actions_inv_def in_pass_def)
    then have "recv (sy_actions s) = Some (a, (sy_actions s)\<lparr>ch_buf := rest\<rparr>)" by (simp add: recv_def)
    from dispatcher_step.handle_action [OF this prod.collapse [symmetric]] show ?thesis
      unfolding handle_move_def by fastforce
  qed
qed (simp add: handle_move_def)

text \<open>An action decided after some moment is taken by the dispatcher after it.\<close>

lemma decided_is_handled:
  assumes reach: "sys_step\<^sup>*\<^sup>* (main_init mem) (f 0)" and run: "is_run sys_step f"
    and fair: "fair pass_move f" "strongly_fair handle_move f"
    and decided: "sy_decided (f l) = sy_decided (f j) @ acts" "a \<in> set acts"
  obtains k line p where "j \<le> k" "handleAction (sy_reg (f k)) a = (line, p)"
    "sy_posts (f (Suc k)) = sy_posts (f k) @ (case p of None \<Rightarrow> [] | Some p \<Rightarrow> [(a, p)])"
proof -
  have at: "sys_step\<^sup>*\<^sup>* (main_init mem) (f k)" for k
    using rtranclp_trans [OF reach run_steps [OF run le0]] .
  note inv = reachable_actions [OF at]
  from decided(2) obtain ys zs where acts: "acts = ys @ a # zs" by (meson split_list)
  let ?n = "length (sy_decided (f j) @ ys)"
  obtain l' where l': "l \<le> l'" "length (sy_decided (f l)) \<le> length (sy_handled (f l'))"
    using dispatching.catches_up [OF run reachable_actions [OF reach] fair(2) pass_idle_again [OF reach run fair(1)]]
    by blast
  then have "?n < length (sy_handled (f l'))" using decided(1) acts by simp
  then have ex: "\<exists>k. ?n < length (sy_handled (f k))" by blast
  define k where "k = (LEAST k. ?n < length (sy_handled (f k)))"
  have k: "?n < length (sy_handled (f k))" using LeastI_ex [OF ex] by (simp add: k_def)
  have before: "length (sy_handled (f k')) \<le> ?n" if "k' < k" for k'
    using not_less_Least [OF that [unfolded k_def]] by simp
  have "length (sy_handled (f j)) \<le> length (sy_decided (f j))" using inv [of j] by (simp add: actions_inv_def)
  then have "\<not> k \<le> j"
    using k dispatching.served_mono_steps [OF run_steps [OF run, of k j]] by fastforce
  then obtain k' where k': "k = Suc k'" "j \<le> k'" by (cases k) auto
  have step: "sys_step (f k') (f k)" using run k'(1) by (simp add: is_run_def)
  have short: "length (sy_handled (f k')) \<le> ?n" using before k'(1) by simp
  from step show thesis
  proof (cases rule: handled_step)
    case 1
    with k short show ?thesis by simp
  next
    case (2 b line p)
    then have "length (sy_handled (f k')) = ?n" using k short by simp
    then have b: "sy_handled (f k) ! ?n = b" using 2(1) by (metis nth_append_length)
    have "sy_decided (f k) ! ?n = b"
      using inv [of k] k b by (simp add: actions_inv_def nth_append)
    moreover have "sy_decided (f k) ! ?n = a"
    proof -
      have la: "sy_decided (f l) ! ?n = a" "?n < length (sy_decided (f l))" using decided(1) acts by (simp_all add: nth_append)
      have "?n < length (sy_decided (f k))" using inv [of k] k by (simp add: actions_inv_def)
      moreover consider "l \<le> k" | "k \<le> l" by linarith
      then have "(\<exists>new. sy_decided (f k) = sy_decided (f l) @ new) \<or> (\<exists>new. sy_decided (f l) = sy_decided (f k) @ new)"
        using decided_grows_steps [OF run_steps [OF run]] by cases blast+
      ultimately show ?thesis using la by (auto simp: nth_append)
    qed
    ultimately have "b = a" by simp
    with 2(2,3) have "handleAction (sy_reg (f k')) a = (line, p)"
      "sy_posts (f (Suc k')) = sy_posts (f k') @ (case p of None \<Rightarrow> [] | Some p \<Rightarrow> [(a, p)])"
      unfolding k'(1) by blast+
    with k'(2) show ?thesis by (rule that)
  qed
qed

section \<open>A placement is carried out\<close>

text \<open>
  A pass starts while a GPU is healthy and its last report fresh, and sees one of the GPU's units
  with the models it reported for it; in particular without some model.
\<close>

definition pass_looks :: "string \<Rightarrow> string \<Rightarrow> string \<Rightarrow> GPUNode \<Rightarrow> string list \<Rightarrow> system \<Rightarrow> system \<Rightarrow> bool" where
  "pass_looks nid gid sid n loaded s t \<longleftrightarrow> sy_pass s = Idle \<and> sy_unsent s = [] \<and>
     (\<exists>ks now. enumerates ks (nodes (sy_reg s)) \<and>
       t = s\<lparr>sy_pass := start_pass ks now (rec_of s) (sy_reg s)\<rparr> \<and>
       n \<in> healthy_nodes (sy_reg s) \<and> NodeID n = nid \<and> GPUID n = gid \<and>
       \<not> is_stale (rec_of s) now n \<and> (sid, loaded) \<in> units_of n)"

definition pass_misses :: "string \<Rightarrow> string \<Rightarrow> string \<Rightarrow> string \<Rightarrow> system \<Rightarrow> system \<Rightarrow> bool" where
  "pass_misses nid gid sid m s t \<longleftrightarrow> (\<exists>n loaded. pass_looks nid gid sid n loaded s t \<and> m \<notin> set loaded)"

lemma committed_mono: "sys_step\<^sup>*\<^sup>* s t \<Longrightarrow> committed (sy_gateway s) k \<subseteq> committed (sy_gateway t) k"
proof (induction rule: rtranclp_induct)
  case (step t u)
  from step(2) have "committed (sy_gateway t) k \<subseteq> committed (sy_gateway u) k"
    by (cases rule: sys_step_cases) (auto dest: committed_mono_step)
  with step show ?case by blast
qed simp

text \<open>A model that was placed is desired.\<close>

lemma committed_desired:
  assumes "sys_step\<^sup>*\<^sup>* (main_init mem) s" and "m \<in> committed (sy_gateway s) k"
  shows "\<exists>D. desired (rec_of s) k = Some D \<and> m \<in> D"
proof -
  have "gateway_reached (sy_seen s) (sy_gateway s)"
    using sys_runs.reachable_inv [OF _ assms(1)] by (auto simp: sys_inv_def)
  with assms(2) show ?thesis
    by (auto simp: desired_is_committed [symmetric] desired_models_def split: option.splits)
qed

lemma missing_drift:
  assumes "sys_step\<^sup>*\<^sup>* (main_init mem) s" and "m \<in> committed (sy_gateway s) (sliceKey (NodeID n) (GPUID n) sid)"
    and "m \<notin> set loaded"
  shows "action ActionPrewarm n sid m \<in> drift (rec_of s) n sid loaded"
  using committed_desired [OF assms(1,2)] assms(3) by (auto simp: drift_def)

text \<open>The steps of a run from the start of a pass to its end.\<close>

lemma pass_run_end:
  assumes run: "is_run sys_step f" and on: "sy_pass (f (Suc j)) \<noteq> Idle" and idle: "\<exists>l \<ge> Suc j. \<not> in_pass (f l)"
  obtains l where "Suc j < l" "pass_sys_step\<^sup>*\<^sup>* (f (Suc j)) (f l)" "sy_pass (f l) = Idle"
proof -
  define l where "l = (LEAST l. Suc j \<le> l \<and> sy_pass (f l) = Idle)"
  have ex: "\<exists>l. Suc j \<le> l \<and> sy_pass (f l) = Idle" using idle by (auto simp: in_pass_def)
  have l: "Suc j \<le> l" "sy_pass (f l) = Idle" using LeastI_ex [OF ex] by (simp_all add: l_def)
  have busy: "sy_pass (f i) \<noteq> Idle" if "Suc j \<le> i" "i < l" for i
    using not_less_Least [of i "\<lambda>l. Suc j \<le> l \<and> sy_pass (f l) = Idle"] that by (auto simp: l_def)
  have "pass_sys_step\<^sup>*\<^sup>* (f (Suc j)) (f i)" if "Suc j \<le> i" "i \<le> l" for i
    using that
  proof (induction i rule: dec_induct)
    case (step i)
    then have "pass_sys_step (f i) (f (Suc i))"
      using run busy [of i] by (simp add: is_run_def pass_sys_step_def)
    with step show ?case by (meson Suc_leD rtranclp.rtrancl_into_rtrancl)
  qed simp
  from this [OF l(1)] have "pass_sys_step\<^sup>*\<^sup>* (f (Suc j)) (f l)" by simp
  moreover have "l \<noteq> Suc j" using on l(2) by auto
  then have "Suc j < l" using l(1) by simp
  ultimately show thesis using l(2) that by blast
qed

text \<open>The registry knows a GPU by its last report, and goes on knowing it.\<close>

lemma healthy_reported:
  assumes "sys_step\<^sup>*\<^sup>* (main_init mem) s" and "n \<in> healthy_nodes (sy_reg s)"
  obtains t hb where "last_report (node_key (NodeID n) (GPUID n)) (sy_applied s) = Some (t, hb)"
    "n = (node_of_heartbeat t hb)\<lparr>Healthy := True\<rparr>"
proof -
  from assms(2) obtain k where k: "nodes (sy_reg s) k = Some n" and healthy: "Healthy n"
    by (auto simp: healthy_nodes_def ran_def)
  have "registry_ok (sy_reg s)" using sys_runs.reachable_inv [OF _ assms(1)] by (auto simp: sys_inv_def)
  with k have "nodes (sy_reg s) (node_key (NodeID n) (GPUID n)) = Some n" using registry_okD by (fastforce simp: key_of_def)
  moreover have "reflects (sy_reg s) (sy_applied s)" using reachable_history [OF assms(1)] by (simp add: history_inv_def)
  ultimately show thesis using that healthy by (metis reflects_node)
qed

lemma last_report_stays:
  assumes "sys_step\<^sup>*\<^sup>* s t" and "last_report k (sy_applied s) \<noteq> None"
  shows "last_report k (sy_applied t) \<noteq> None"
proof -
  from assms(2) obtain u hb where "last_report k (sy_applied s) = Some (u, hb)" by auto
  from last_report_Some [OF this] applied_grows_steps [OF assms(1)] show ?thesis by (auto simp: last_report_None)
qed

lemma known_address:
  assumes "sys_step\<^sup>*\<^sup>* (main_init mem) s"
    and hb: "last_report (node_key (a_NodeID a) (a_GPUID a)) (sy_applied s) = Some (t, hb)" "hb_AgentAddr hb \<noteq> []"
    and "a_Type a = ActionPrewarm \<or> a_Type a = ActionEvict"
  shows "\<exists>line p. handleAction (sy_reg s) a = (line, Some p)"
proof -
  have "reflects (sy_reg s) (sy_applied s)" using reachable_history [OF assms(1)] by (simp add: history_inv_def)
  then have "map_option (\<lambda>n. n\<lparr>Healthy := False\<rparr>) (nodes (sy_reg s) (node_key (a_NodeID a) (a_GPUID a))) =
      Some (node_of_heartbeat t hb)" unfolding reflects_def by (simp add: hb(1))
  then obtain n where n: "nodes (sy_reg s) (node_key (a_NodeID a) (a_GPUID a)) = Some n"
    "n\<lparr>Healthy := False\<rparr> = node_of_heartbeat t hb" by auto
  then have "AgentAddr (n\<lparr>Healthy := False\<rparr>) = hb_AgentAddr hb" by (simp add: node_of_heartbeat_def)
  with n(1) hb(2) assms(4) show ?thesis by (auto simp: handleAction_def dispatchToAgent_def Get_def)
qed

text \<open>
  A correction that is due from the start of a pass on is sent, to the address in the last report of
  the GPU.
\<close>

lemma due_is_sent:
  assumes reach: "sys_step\<^sup>*\<^sup>* (main_init mem) (f 0)" and run: "is_run sys_step f"
    and fair: "fair pass_move f" "strongly_fair handle_move f"
    and looks: "pass_looks nid gid sid n loaded (f j) (f (Suc j))"
    and due: "\<And>k. j \<le> k \<Longrightarrow> a \<in> drift (rec_of (f k)) n sid loaded"
    and addr: "\<And>k t hb. j \<le> k \<Longrightarrow> last_report (node_key nid gid) (sy_applied (f k)) = Some (t, hb) \<Longrightarrow> hb_AgentAddr hb \<noteq> []"
  shows "\<exists>k \<ge> j. \<exists>p t hb. sy_posts (f (Suc k)) = sy_posts (f k) @ [(a, p)] \<and> post_ok a p \<and>
    last_report (node_key nid gid) (sy_applied (f k)) = Some (t, hb) \<and> po_url p = hb_AgentAddr hb @ ''/command''"
proof -
  have at: "sys_step\<^sup>*\<^sup>* (main_init mem) (f k)" for k
    using rtranclp_trans [OF reach run_steps [OF run le0]] .
  from looks obtain ks now where idle: "sy_pass (f j) = Idle" "sy_unsent (f j) = []"
    and ks: "enumerates ks (nodes (sy_reg (f j)))"
      "f (Suc j) = (f j)\<lparr>sy_pass := start_pass ks now (rec_of (f j)) (sy_reg (f j))\<rparr>"
    and n: "n \<in> healthy_nodes (sy_reg (f j))" "NodeID n = nid" "GPUID n = gid" "\<not> is_stale (rec_of (f j)) now n"
      "(sid, loaded) \<in> units_of n"
    unfolding pass_looks_def by blast
  have "sy_pass (f (Suc j)) \<noteq> Idle" by (simp add: ks(2) start_pass_def)
  from pass_run_end [OF run this pass_idle_again [OF reach run fair(1)]] obtain l where
    l: "Suc j < l" "pass_sys_step\<^sup>*\<^sup>* (f (Suc j)) (f l)" "sy_pass (f l) = Idle" .
  from pass_outcome [OF at idle ks(1,2) l(2,3)] obtain acts where
    acts: "sy_decided (f l) = sy_decided (f j) @ acts" and
    sent: "\<forall>n \<in> healthy_nodes (sy_reg (f j)). \<not> is_stale (rec_of (f j)) now n \<longrightarrow> (\<forall>(sid, loaded) \<in> units_of n.
      drift (rec_of (f j)) n sid loaded \<inter> drift (rec_of (f l)) n sid loaded \<subseteq> set acts)" by blast
  have "a \<in> drift (rec_of (f j)) n sid loaded \<inter> drift (rec_of (f l)) n sid loaded"
    using due l(1) by simp
  then have "a \<in> set acts" using sent n(1,4,5) by blast
  from decided_is_handled [OF reach run fair acts this] obtain k line p where
    k: "j \<le> k" "handleAction (sy_reg (f k)) a = (line, p)"
      "sy_posts (f (Suc k)) = sy_posts (f k) @ (case p of None \<Rightarrow> [] | Some p \<Rightarrow> [(a, p)])" .
  have a: "a_NodeID a = nid" "a_GPUID a = gid" "a_Type a = ActionPrewarm \<or> a_Type a = ActionEvict"
    using due [OF le_refl] n(2,3) by (auto simp: drift_def split: option.splits)
  have "last_report (node_key nid gid) (sy_applied (f j)) \<noteq> None"
    by (rule healthy_reported [OF at n(1), unfolded n(2,3)]) simp
  then obtain t hb where hb: "last_report (node_key nid gid) (sy_applied (f k)) = Some (t, hb)"
    using last_report_stays [OF run_steps [OF run k(1)]] by (metis option.exhaust prod.exhaust)
  with known_address [OF at, of a k] addr [OF k(1) hb] a k(2) obtain p' where p: "p = Some p'" by auto
  from post_address [OF at k(2) [unfolded p], unfolded a(1,2) hb] have "po_url p' = hb_AgentAddr hb @ ''/command''" by auto
  moreover have "post_ok a p'" using k(2) p handleAction_post by simp
  ultimately show ?thesis using k(1,3) hb p
    by (intro exI [of _ k] conjI exI [of _ p'] exI [of _ t] exI [of _ hb]) simp_all
qed

text \<open>
  C8. A placement is carried out: once a client was answered 200 with a decision, and a pass then starts
  that sees the GPU healthy and fresh but without the model, in every infinite run that is fair to
  the moves of a pass and strongly fair to the dispatcher, a PREWARM of the model for that place is
  sent after that moment, to the address in the last heartbeat of the GPU, whatever arrives meanwhile
  and however full the channels get.
\<close>

theorem placements_are_carried_out:
  assumes reach: "sys_step\<^sup>*\<^sup>* (main_init mem) (f 0)" and run: "is_run sys_step f"
    and fair: "fair pass_move f" "strongly_fair handle_move f"
    and reply: "g_handlers (sy_gateway (f i)) h = Some \<lparr>h_request = rq, h_state = Replied rsp\<rparr>"
      "rs_body rsp = DecisionJSON d" "rq_body rq = Inr req"
      "sliceKey nid gid sid = sliceKey (d_NodeID d) (d_GPUID d) (d_SliceID d)"
    and misses: "i \<le> j" "pass_misses nid gid sid (ModelName req) (f j) (f (Suc j))"
    and addr: "\<forall>k. \<forall>(t, hb) \<in> set (sy_applied (f k)).
      node_key (hb_NodeID hb) (hb_GPUID hb) = node_key nid gid \<longrightarrow> hb_AgentAddr hb \<noteq> []"
  shows "\<exists>k \<ge> j. \<exists>a p t hb. sy_posts (f (Suc k)) = sy_posts (f k) @ [(a, p)] \<and>
    last_report (node_key nid gid) (sy_applied (f k)) = Some (t, hb) \<and>
    po_url p = hb_AgentAddr hb @ ''/command'' \<and>
    po_body p = \<lparr>ac_Action = ''PREWARM'', ac_ModelName = ModelName req, ac_Quantization = [], ac_SliceID = sid\<rparr>"
proof -
  have at: "sys_step\<^sup>*\<^sup>* (main_init mem) (f k)" for k
    using rtranclp_trans [OF reach run_steps [OF run le0]] .
  let ?m = "ModelName req"
  from misses(2) obtain n loaded where looks: "pass_looks nid gid sid n loaded (f j) (f (Suc j))"
    and m: "?m \<notin> set loaded" unfolding pass_misses_def by blast
  then have n: "NodeID n = nid" "GPUID n = gid" by (auto simp: pass_looks_def)
  let ?a = "action ActionPrewarm n sid ?m"
  have "?m \<in> committed (sy_gateway (f i)) (sliceKey nid gid sid)"
    unfolding committed_def reply(4) using reply(1-3) by blast
  then have "?m \<in> committed (sy_gateway (f k)) (sliceKey (NodeID n) (GPUID n) sid)" if "i \<le> k" for k
    using committed_mono [OF run_steps [OF run that]] n by blast
  then have due: "?a \<in> drift (rec_of (f k)) n sid loaded" if "j \<le> k" for k
    using that misses(1) by (intro missing_drift [OF at _ m]) simp
  have addr': "hb_AgentAddr hb \<noteq> []" if "last_report (node_key nid gid) (sy_applied (f k)) = Some (t, hb)" for k t hb
    using addr last_report_Some [OF that] unfolding hb_key_def by fastforce
  have "\<exists>k \<ge> j. \<exists>p t hb. sy_posts (f (Suc k)) = sy_posts (f k) @ [(?a, p)] \<and> post_ok ?a p \<and>
    last_report (node_key nid gid) (sy_applied (f k)) = Some (t, hb) \<and> po_url p = hb_AgentAddr hb @ ''/command''"
    by (rule due_is_sent [OF reach run fair looks due]) (assumption, rule addr')
  then obtain k p t hb where k: "j \<le> k" "sy_posts (f (Suc k)) = sy_posts (f k) @ [(?a, p)]" "post_ok ?a p"
    "last_report (node_key nid gid) (sy_applied (f k)) = Some (t, hb)" "po_url p = hb_AgentAddr hb @ ''/command''" by blast
  from k(3) have "po_body p = \<lparr>ac_Action = ''PREWARM'', ac_ModelName = ?m, ac_Quantization = [], ac_SliceID = sid\<rparr>"
    by (auto simp: post_ok_def)
  with k show ?thesis by blast
qed

section \<open>A concrete run\<close>

lemma demo_reached: "sys_step\<^sup>*\<^sup>* (main_init demo_mem) (demo_run i)"
proof -
  have "sys_step\<^sup>*\<^sup>* (demo_run 0) (demo_run i)" by (rule run_steps [OF demo_run_is_run]) simp
  with run_placed_sys show ?thesis by (simp add: demo_run_def)
qed

theorem actions_dispatched_in_order_witness:
  "sy_decided (demo_run 4) = [prewarm_x] \<and> sy_handled (demo_run 4) @ ch_buf (sy_actions (demo_run 4)) = [prewarm_x]"
  using actions_dispatched_in_order [OF demo_reached [of 4]] by (simp add: demo_run_def demo_state)

lemma demo_handle_fair: "strongly_fair handle_move demo_run"
proof -
  have "recv (sy_actions (demo_run j)) = None" if "6 \<le> j" for j
    using that by (simp add: demo_run_def demo_state recv_def)
  then have "\<not> handle_move (demo_run j) t" if "6 \<le> j" for j t
    using that by (auto simp: handle_move_def elim!: dispatcher_stepE)
  then show ?thesis unfolding strongly_fair_def by blast
qed

lemma demo_misses: "pass_misses ''a'' ''g'' [] ''x'' (demo_run 0) (demo_run 1)"
proof -
  have "demo_run 1 = (demo_run 0)\<lparr>sy_pass := start_pass [''a/g''] 0 (rec_of (demo_run 0)) (sy_reg (demo_run 0))\<rparr>"
    using demo_pass_steps(1) by (simp add: demo_run_def demo_state)
  moreover have "enumerates [''a/g''] (nodes (sy_reg (demo_run 0)))"
    using reg_a_keys by (simp add: demo_run_def sys_placed_def)
  moreover have "node_a \<in> healthy_nodes (sy_reg (demo_run 0))" "\<not> is_stale (rec_of (demo_run 0)) 0 node_a"
    "([], []) \<in> units_of node_a" "NodeID node_a = ''a''" "GPUID node_a = ''g''"
    using demo_pass_steps(1)
    by (auto simp: demo_run_def demo_state healthy_nodes_def nodes_reg_a node_a_def is_stale_def units_of_def
        node_of_heartbeat_def demo_hb_def start_pass_def StaleNodes_def map_filter_def split: if_splits)
  moreover have "''x'' \<notin> set []" by simp
  moreover have "sy_pass (demo_run 0) = Idle" "sy_unsent (demo_run 0) = []" by (simp_all add: demo_run_def demo_state)
  ultimately show ?thesis
    unfolding pass_misses_def pass_looks_def
    by (intro exI [of _ node_a] exI [of _ "[] :: string list"] exI [of _ "[''a/g'']"] exI [of _ "0 :: int"] conjI)
qed

theorem placements_are_carried_out_witness:
  "\<exists>k a p. (a, p) \<in> set (sy_posts (demo_run (Suc k))) \<and> ac_Action (po_body p) = ''PREWARM''"
proof -
  have reply: "g_handlers (sy_gateway (demo_run 0)) 7 = Some \<lparr>h_request = demo_rq,
      h_state = Replied (writeDecision 200 (demo_decision\<lparr>d_AffinityHit := False\<rparr>))\<rparr>"
    using gw_x_replied by (simp add: demo_run_def sys_placed_def)
  have body: "rs_body (writeDecision 200 (demo_decision\<lparr>d_AffinityHit := False\<rparr>)) =
      DecisionJSON (demo_decision\<lparr>d_AffinityHit := False\<rparr>)" "rq_body demo_rq = Inr demo_req"
    "sliceKey ''a'' ''g'' [] = sliceKey (d_NodeID (demo_decision\<lparr>d_AffinityHit := False\<rparr>))
      (d_GPUID (demo_decision\<lparr>d_AffinityHit := False\<rparr>)) (d_SliceID (demo_decision\<lparr>d_AffinityHit := False\<rparr>))"
    by (simp_all add: writeDecision_def demo_rq_def demo_decision_def)
  have misses: "pass_misses ''a'' ''g'' [] (ModelName demo_req) (demo_run 0) (demo_run (Suc 0))"
    using demo_misses by simp
  have addr: "\<forall>k. \<forall>(t, hb) \<in> set (sy_applied (demo_run k)).
      node_key (hb_NodeID hb) (hb_GPUID hb) = node_key ''a'' ''g'' \<longrightarrow> hb_AgentAddr hb \<noteq> []"
    by (auto simp: demo_run_def demo_state demo_hb_def)
  from placements_are_carried_out [OF demo_reached demo_run_is_run demo_run_fair demo_handle_fair reply body le_refl misses addr]
  obtain k a p where "sy_posts (demo_run (Suc k)) = sy_posts (demo_run k) @ [(a, p)]" "ac_Action (po_body p) = ''PREWARM''"
    by auto
  then have "(a, p) \<in> set (sy_posts (demo_run (Suc k))) \<and> ac_Action (po_body p) = ''PREWARM''" by simp
  then show ?thesis by blast
qed

end
