(* ===== verification/Lifecycle.thy ===== *)
theory Lifecycle
  imports Pass_Properties
begin

text \<open>
  \<open>scheduler/main.go\<close>, \<open>main\<close> and \<open>serveHeartbeats\<close>: the process around the system, from the
  goroutines \<open>main\<close> starts to its return after a signal. Each loop looks at its context only in
  its \<open>select\<close>, so a goroutine returns only at rest; \<open>main\<close> waits for none of them.
\<close>

section \<open>The process\<close>

datatype goroutine = Main | RunReconciler | RunAnalyzer | HandleActions | DrainLoop | ServeHeartbeats

datatype phase = Spawned | Running | Returned

text \<open>The goroutine that calls \<open>Shutdown\<close>, which waits for the handlers to finish.\<close>

datatype shutdown = NotCalled | Closing | Closed

record process =
  ps_system :: system
  ps_phase :: "goroutine \<Rightarrow> phase"
  ps_cancelled :: bool
  ps_shutdown :: shutdown
  ps_exit :: "int option"
  ps_lines :: "string list"

definition process_init :: "(nat \<Rightarrow> pendingRequest) \<Rightarrow> process" where
  "process_init mem =
     \<lparr>ps_system = main_init mem, ps_phase = (\<lambda>_. Spawned), ps_cancelled = False,
      ps_shutdown = NotCalled, ps_exit = None, ps_lines = []\<rparr>"

fun start_line :: "goroutine \<Rightarrow> string list" where
  "start_line Main = [''[main] gpu-orchestrator scheduler running on :8080'']"
| "start_line RunReconciler = [''[reconciler] started'']"
| "start_line RunAnalyzer = [''[traffic-analyzer] started, window=5m, threshold=5rpm'']"
| "start_line ServeHeartbeats = [''[heartbeat] listening on :8080'']"
| "start_line _ = []"

fun return_line :: "goroutine \<Rightarrow> string list" where
  "return_line RunReconciler = [''[reconciler] context cancelled, shutting down'']"
| "return_line RunAnalyzer = [''[traffic-analyzer] shutting down'']"
| "return_line _ = []"

text \<open>Where a loop can see that its context is done: in its \<open>select\<close>, not in a pass.\<close>

fun at_select :: "goroutine \<Rightarrow> system \<Rightarrow> bool" where
  "at_select RunReconciler s \<longleftrightarrow> sy_pass s = Idle \<and> sy_unsent s = []"
| "at_select RunAnalyzer s \<longleftrightarrow> True"
| "at_select HandleActions s \<longleftrightarrow> True"
| "at_select DrainLoop s \<longleftrightarrow> g_drain (sy_gateway s) = Parked"
| "at_select _ s \<longleftrightarrow> False"

text \<open>
  Which steps of the system are whose. A step of the gateway is the drain loop's when it moves its
  program counter, and a handler's otherwise.
\<close>

inductive work :: "goroutine \<Rightarrow> system \<Rightarrow> system \<Rightarrow> bool" where
  reconciler: "reconciler_step s s' \<Longrightarrow> work RunReconciler s s'"
| dispatcher: "dispatcher_step s s' \<Longrightarrow> work HandleActions s s'"
| drain: "gw_step (sy_seen s) (sy_gateway s) g \<Longrightarrow> g_drain g \<noteq> g_drain (sy_gateway s) \<Longrightarrow>
    work DrainLoop s (s\<lparr>sy_gateway := g\<rparr>)"
| ingest: "recv (requests (sy_traffic s)) = Some (evt, ch) \<Longrightarrow>
    work RunAnalyzer s (s\<lparr>sy_traffic := recordEvent evt ((sy_traffic s)\<lparr>requests := ch\<rparr>)\<rparr>)"
| analysis: "enumerates order (events (sy_traffic s)) \<Longrightarrow> (\<And>m. fst (clk m) \<le> snd (clk m)) \<Longrightarrow>
    work RunAnalyzer s (s\<lparr>sy_traffic := analyze order now clk (sy_traffic s)\<rparr>)"

inductive client_step :: "system \<Rightarrow> system \<Rightarrow> bool" where
  heartbeat: "serveHeartbeat rq (sy_heartbeats s) = (lines, rsp, ch) \<Longrightarrow>
    client_step s (s\<lparr>sy_heartbeats := ch, sy_accepted := sy_accepted s @ acknowledged rq rsp,
      sy_log := sy_log s @ lines\<rparr>)"
| schedule: "gw_step (sy_seen s) (sy_gateway s) g \<Longrightarrow> g_drain g = g_drain (sy_gateway s) \<Longrightarrow>
    client_step s (s\<lparr>sy_gateway := g\<rparr>)"
| request: "client_step s (s\<lparr>sy_traffic := (sy_traffic s)
    \<lparr>requests := RecordRequest now m (requests (sy_traffic s))\<rparr>\<rparr>)"
| answered: "p \<in> set (sy_flights s) \<Longrightarrow>
    client_step s (s\<lparr>sy_flights := remove1 p (sy_flights s), sy_log := sy_log s @
      [dispatch_log (ac_Action (po_body p)) (ac_ModelName (po_body p)) (po_addr p) res]\<rparr>)"

text \<open>
  The process. \<open>Shutdown\<close> stops new connections but serves those it has, so handlers may run as
  long as the process does. A finished process stays as it is.
\<close>

inductive process_step :: "process \<Rightarrow> process \<Rightarrow> bool" where
  start: "ps_exit p = None \<Longrightarrow> ps_phase p g = Spawned \<Longrightarrow>
    process_step p (p\<lparr>ps_phase := (ps_phase p)(g := Running), ps_lines := ps_lines p @ start_line g\<rparr>)"
| run: "ps_exit p = None \<Longrightarrow> ps_phase p g = Running \<Longrightarrow> work g (ps_system p) s \<Longrightarrow>
    process_step p (p\<lparr>ps_system := s\<rparr>)"
| serve: "ps_exit p = None \<Longrightarrow> ps_phase p ServeHeartbeats \<noteq> Spawned \<Longrightarrow> client_step (ps_system p) s \<Longrightarrow>
    process_step p (p\<lparr>ps_system := s\<rparr>)"
| interrupt: "ps_exit p = None \<Longrightarrow> process_step p (p\<lparr>ps_cancelled := True\<rparr>)"
| leave: "ps_exit p = None \<Longrightarrow> ps_cancelled p \<Longrightarrow> ps_phase p g = Running \<Longrightarrow> at_select g (ps_system p) \<Longrightarrow>
    process_step p (p\<lparr>ps_phase := (ps_phase p)(g := Returned), ps_lines := ps_lines p @ return_line g\<rparr>)"
| shut_down: "ps_exit p = None \<Longrightarrow> ps_cancelled p \<Longrightarrow> ps_phase p ServeHeartbeats \<noteq> Spawned \<Longrightarrow>
    ps_shutdown p = NotCalled \<Longrightarrow> process_step p (p\<lparr>ps_shutdown := Closing\<rparr>)"
| handlers_done: "ps_exit p = None \<Longrightarrow> ps_shutdown p = Closing \<Longrightarrow>
    (\<And>i rq. \<not> waits (sy_gateway (ps_system p)) i rq) \<Longrightarrow>
    process_step p (p\<lparr>ps_shutdown := Closed, ps_lines := ps_lines p @
      (case err of None \<Rightarrow> [] | Some e \<Rightarrow> [''[heartbeat] shutdown error: '' @ e])\<rparr>)"
| server_closed: "ps_exit p = None \<Longrightarrow> ps_phase p ServeHeartbeats = Running \<Longrightarrow> ps_shutdown p \<noteq> NotCalled \<Longrightarrow>
    process_step p (p\<lparr>ps_phase := (ps_phase p)(ServeHeartbeats := Returned)\<rparr>)"
| listen_fails: "ps_exit p = None \<Longrightarrow> ps_phase p ServeHeartbeats = Running \<Longrightarrow>
    process_step p (p\<lparr>ps_exit := Some 1, ps_lines := ps_lines p @ [''[heartbeat] fatal: '' @ e]\<rparr>)"
| main_returns: "ps_exit p = None \<Longrightarrow> ps_cancelled p \<Longrightarrow> ps_phase p Main = Running \<Longrightarrow>
    process_step p (p\<lparr>ps_phase := (ps_phase p)(Main := Returned), ps_exit := Some 0,
      ps_lines := ps_lines p @ [''[main] shutdown complete'']\<rparr>)"
| halted: "ps_exit p \<noteq> None \<Longrightarrow> process_step p p"

inductive_cases process_stepE: "process_step p q"

section \<open>The process runs the system\<close>

lemma work_step: "work g s s' \<Longrightarrow> sys_step s s'"
  by (auto elim!: work.cases intro: sys_step.intros ta_step.intros)

lemma client_sys_step: "client_step s s' \<Longrightarrow> sys_step s s'"
  by (auto elim!: client_step.cases intro: sys_step.intros ta_step.intros)

lemma process_sys_step: "process_step p q \<Longrightarrow> ps_system q = ps_system p \<or> sys_step (ps_system p) (ps_system q)"
  by (elim process_stepE) (auto dest: work_step client_sys_step)

lemma process_steps_system:
  "process_step\<^sup>*\<^sup>* p q \<Longrightarrow> sys_step\<^sup>*\<^sup>* (ps_system p) (ps_system q)"
  by (induction rule: rtranclp_induct)
    (auto dest!: process_sys_step intro: rtranclp.rtrancl_into_rtrancl)

text \<open>
  What holds in between. A goroutine that returned did so at rest, and nobody else moves what was
  its own, so it stays at rest.
\<close>

definition process_inv :: "process \<Rightarrow> bool" where
  "process_inv p \<longleftrightarrow>
     (\<forall>g. ps_phase p g = Returned \<longrightarrow> ps_cancelled p) \<and>
     (ps_shutdown p \<noteq> NotCalled \<longrightarrow> ps_cancelled p) \<and>
     (ps_phase p RunReconciler = Returned \<longrightarrow> \<not> in_pass (ps_system p)) \<and>
     (ps_phase p DrainLoop = Returned \<longrightarrow> g_drain (sy_gateway (ps_system p)) = Parked) \<and>
     (ps_phase p Main = Returned \<longleftrightarrow> ps_exit p = Some 0) \<and>
     (ps_exit p = Some 0 \<longrightarrow> last (ps_lines p) = ''[main] shutdown complete'') \<and>
     ps_exit p \<in> {None, Some 0, Some 1}"

lemma work_keeps:
  assumes "work g s s'"
  shows "g \<noteq> RunReconciler \<Longrightarrow> in_pass s' = in_pass s"
    and "g \<noteq> DrainLoop \<Longrightarrow> g_drain (sy_gateway s') = g_drain (sy_gateway s)"
  using assms by (auto simp: in_pass_def elim!: work.cases dispatcher_stepE reconciler_stepE)

lemma client_keeps:
  "client_step s s' \<Longrightarrow> in_pass s' = in_pass s \<and> g_drain (sy_gateway s') = g_drain (sy_gateway s)"
  by (auto simp: in_pass_def elim!: client_step.cases)

lemma process_inv_step:
  assumes "process_inv p" and "process_step p q"
  shows "process_inv q"
  using assms(2)
proof cases
  case (start g)
  with assms(1) show ?thesis by (cases g; simp add: process_inv_def; blast)
next
  case (run g s)
  with work_keeps [OF run(4)] assms(1) show ?thesis by (cases g) (simp_all add: process_inv_def)
next
  case (serve s)
  with client_keeps [OF serve(4)] assms(1) show ?thesis by (simp add: process_inv_def)
next
  case (leave g)
  with assms(1) show ?thesis by (cases g) (simp_all add: process_inv_def in_pass_def)
next
  case main_returns
  with assms(1) show ?thesis by (simp add: process_inv_def)
qed (use assms(1) in \<open>simp_all add: process_inv_def\<close>)

interpretation lifecycle: invariant_system "\<lambda>p. \<exists>mem. p = process_init mem" process_step process_inv
proof unfold_locales
  show "process_inv p" if "\<exists>mem. p = process_init mem" for p
    using that by (auto simp: process_inv_def process_init_def)
qed (rule process_inv_step)

text \<open>
  The process around the system adds no behaviour to it: whatever signals arrive and however
  its goroutines start and return, the state its goroutines share is one the system of
  interleaved steps reaches, so all that was shown of that system holds in the running process.
\<close>

theorem process_refines_system:
  assumes "process_step\<^sup>*\<^sup>* (process_init mem) p"
  shows "sys_step\<^sup>*\<^sup>* (main_init mem) (ps_system p)"
  using process_steps_system [OF assms] by (simp add: process_init_def)

text \<open>
  Goroutines stop at rest. Until a signal no loop returns and \<open>Shutdown\<close> is not called; a
  reconciler that returned has no pass under way and nothing left to send, and a drain loop that
  returned holds no request; the process ends with 0 exactly when \<open>main\<close> returned, after a signal
  and with the line that says so, and otherwise only with 1, when the server cannot listen.
\<close>

theorem goroutines_stop_at_rest:
  assumes "process_step\<^sup>*\<^sup>* (process_init mem) p"
  shows "(\<not> ps_cancelled p \<longrightarrow> ps_shutdown p = NotCalled \<and> (\<forall>g. ps_phase p g \<noteq> Returned)) \<and>
    (ps_phase p RunReconciler = Returned \<longrightarrow> sy_pass (ps_system p) = Idle \<and> sy_unsent (ps_system p) = []) \<and>
    (ps_phase p DrainLoop = Returned \<longrightarrow> g_drain (sy_gateway (ps_system p)) = Parked) \<and>
    (ps_exit p = Some 0 \<longleftrightarrow> ps_phase p Main = Returned) \<and>
    (ps_exit p = Some 0 \<longrightarrow> ps_cancelled p \<and> last (ps_lines p) = ''[main] shutdown complete'') \<and>
    ps_exit p \<in> {None, Some 0, Some 1}"
proof -
  have "process_inv p" using lifecycle.reachable_inv [OF _ assms] by blast
  then show ?thesis unfolding process_inv_def in_pass_def by blast
qed

section \<open>Shutting down\<close>

lemma exited_stays: "process_step p q \<Longrightarrow> ps_exit p \<noteq> None \<Longrightarrow> q = p"
  by (elim process_stepE) auto

section \<open>A concrete run\<close>

text \<open>
  A request waits in the queue when the signal comes. \<open>Shutdown\<close> begins to wait for its handler,
  and \<open>main\<close> returns.
\<close>

definition gw_wait :: gateway where
  "gw_wait = HandleSchedule_start insertion_sort [] NewNodeRegistry 1 demo_rq
     (NewGateway NewReconciler (NewQueue 50) demo_mem)"

lemma gw_wait: "waits gw_wait 1 demo_rq" "g_drain gw_wait = Parked"
    "gw_step {NewNodeRegistry} (NewGateway NewReconciler (NewQueue 50) demo_mem) gw_wait"
proof -
  show "waits gw_wait 1 demo_rq" "g_drain gw_wait = Parked"
    using no_nodes(1)
    by (simp_all add: gw_wait_def HandleSchedule_start_def demo_rq_def NewGateway_def Admit_def Let_def
        classFor_def demo_req_def demo_mem_def NewQueue_def)
  show "gw_step {NewNodeRegistry} (NewGateway NewReconciler (NewQueue 50) demo_mem) gw_wait"
    unfolding gw_wait_def using go_insertion.slice_sorter_axioms no_nodes(2)
    by (intro gw_step.request) (simp_all add: NewGateway_def)
qed

definition cut_at :: "nat \<Rightarrow> process" where
  "cut_at i = \<lparr>ps_system = (main_init demo_mem)\<lparr>sy_gateway :=
       (if i < 3 then NewGateway NewReconciler (NewQueue 50) demo_mem else gw_wait)\<rparr>,
     ps_phase = (\<lambda>g. if g = Main then (if i = 0 then Spawned else if i < 6 then Running else Returned)
       else if g = ServeHeartbeats \<and> 2 \<le> i then Running else Spawned),
     ps_cancelled = (4 \<le> i), ps_shutdown = (if i < 5 then NotCalled else Closing),
     ps_exit = (if i < 6 then None else Some 0),
     ps_lines = (if 1 \<le> i then start_line Main else []) @ (if 2 \<le> i then start_line ServeHeartbeats else []) @
       (if 6 \<le> i then [''[main] shutdown complete''] else [])\<rparr>"

lemma cut_init: "cut_at 0 = process_init demo_mem"
  by (simp add: cut_at_def process_init_def main_init_def fun_eq_iff)

lemma cut_step: "process_step (cut_at i) (cut_at (Suc i))"
proof -
  consider "i = 0" | "i = 1" | "i = 2" | "i = 3" | "i = 4" | "i = 5" | "6 \<le> i" by linarith
  then show ?thesis
  proof cases
    case 1
    have "cut_at 1 = (cut_at 0)\<lparr>ps_phase := (ps_phase (cut_at 0))(Main := Running),
        ps_lines := ps_lines (cut_at 0) @ start_line Main\<rparr>" by (simp add: cut_at_def fun_eq_iff)
    with 1 process_step.start [of "cut_at 0" Main] show ?thesis by (simp add: cut_at_def)
  next
    case 2
    have "cut_at 2 = (cut_at 1)\<lparr>ps_phase := (ps_phase (cut_at 1))(ServeHeartbeats := Running),
        ps_lines := ps_lines (cut_at 1) @ start_line ServeHeartbeats\<rparr>" by (simp add: cut_at_def fun_eq_iff)
    with 2 process_step.start [of "cut_at 1" ServeHeartbeats] show ?thesis
      by (simp add: eval_nat_numeral) (simp add: cut_at_def)
  next
    case 3
    have "client_step (ps_system (cut_at 2)) (ps_system (cut_at 3))"
      using client_step.schedule [of "ps_system (cut_at 2)" gw_wait] gw_wait
      by (simp add: cut_at_def main_init_def NewGateway_def)
    moreover have "cut_at 3 = (cut_at 2)\<lparr>ps_system := ps_system (cut_at 3)\<rparr>" by (simp add: cut_at_def fun_eq_iff)
    ultimately show ?thesis using 3 process_step.serve [of "cut_at 2" "ps_system (cut_at 3)"]
      by (simp add: eval_nat_numeral) (simp add: cut_at_def)
  next
    case 4
    have "cut_at 4 = (cut_at 3)\<lparr>ps_cancelled := True\<rparr>" by (simp add: cut_at_def fun_eq_iff)
    with 4 process_step.interrupt [of "cut_at 3"] show ?thesis
      by (simp add: eval_nat_numeral) (simp add: cut_at_def)
  next
    case 5
    have "cut_at 5 = (cut_at 4)\<lparr>ps_shutdown := Closing\<rparr>" by (simp add: cut_at_def fun_eq_iff)
    with 5 process_step.shut_down [of "cut_at 4"] show ?thesis
      by (simp add: eval_nat_numeral) (simp add: cut_at_def)
  next
    case 6
    have "cut_at 6 = (cut_at 5)\<lparr>ps_phase := (ps_phase (cut_at 5))(Main := Returned), ps_exit := Some 0,
        ps_lines := ps_lines (cut_at 5) @ [''[main] shutdown complete'']\<rparr>" by (simp add: cut_at_def fun_eq_iff)
    with 6 process_step.main_returns [of "cut_at 5"] show ?thesis
      by (simp add: eval_nat_numeral) (simp add: cut_at_def)
  next
    case 7
    then have "cut_at (Suc i) = cut_at i" by (simp add: cut_at_def fun_eq_iff)
    with 7 process_step.halted [of "cut_at i"] show ?thesis by (simp add: cut_at_def)
  qed
qed

lemma cut_run: "is_run process_step cut_at" "process_step\<^sup>*\<^sup>* (process_init demo_mem) (cut_at i)"
proof -
  show run: "is_run process_step cut_at" using cut_step by (simp add: is_run_def)
  show "process_step\<^sup>*\<^sup>* (process_init demo_mem) (cut_at i)"
    using run_steps [OF run, of 0 i] by (simp add: cut_init)
qed

text \<open>
  Shutting down is not graceful: the process can end, with the line that shutdown is complete, while
  \<open>Shutdown\<close> waits for the handler of a client that has not been answered and now never is.
\<close>

lemma shutdown_cuts_clients:
  "\<exists>p. process_step\<^sup>*\<^sup>* (process_init demo_mem) p \<and> ps_exit p = Some 0 \<and> ps_shutdown p = Closing \<and>
     waits (sy_gateway (ps_system p)) 1 demo_rq \<and> (\<forall>q. process_step p q \<longrightarrow> q = p)"
proof -
  have "ps_exit (cut_at 6) = Some 0" "ps_shutdown (cut_at 6) = Closing"
    "waits (sy_gateway (ps_system (cut_at 6))) 1 demo_rq"
    using gw_wait(1) by (simp_all add: cut_at_def)
  moreover from this(1) have "\<forall>q. process_step (cut_at 6) q \<longrightarrow> q = cut_at 6" using exited_stays by auto
  ultimately show ?thesis using cut_run(2) [of 6] by blast
qed

theorem process_refines_system_witness:
  "sys_step\<^sup>*\<^sup>* (main_init demo_mem) ((main_init demo_mem)\<lparr>sy_gateway := gw_wait\<rparr>)"
  using process_refines_system [OF cut_run(2) [of 6]] by (simp add: cut_at_def)

theorem goroutines_stop_at_rest_witness:
  "ps_cancelled (cut_at 6) \<and> last (ps_lines (cut_at 6)) = ''[main] shutdown complete''"
  using goroutines_stop_at_rest [OF cut_run(2) [of 6]] by (simp add: cut_at_def)

end
