(* ===== verification/Wire.thy ===== *)
theory Wire
  imports Json Dispatch
begin

text \<open>
  The messages of the scheduler as bytes: the command of \<open>dispatchToAgent\<close> as \<open>json.Marshal\<close>
  encodes it, the decision of \<open>writeDecision\<close> as \<open>json.Encoder\<close> does, and the decoding of
  heartbeats, requests and answers by \<open>json.Decoder\<close> with the tags of the structs. The error
  texts of the decoder are not modelled. An object that names a field of list type twice is
  outside the model of the decoder, which would then reuse the elements of the first.
\<close>

section \<open>Decoding into a struct\<close>

text \<open>A key names a field when it is its tag, up to the case of the letters.\<close>

definition lower :: "char \<Rightarrow> char" where
  "lower c = (let n = of_char c :: nat in if 65 \<le> n \<and> n \<le> 90 then char_of (n + 32) else c)"

definition same_name :: "string \<Rightarrow> string \<Rightarrow> bool" where
  "same_name k tag \<longleftrightarrow> map lower k = map lower tag"

type_synonym 'r field_decoder = "string \<times> (json \<Rightarrow> 'r \<Rightarrow> 'r option)"

text \<open>
  The entries of the object one after the other; unknown keys are skipped, fields without an
  entry keep their value, and a value that does not fit its field is an error.
\<close>

fun decode_entries :: "'r field_decoder list \<Rightarrow> (string \<times> json) list \<Rightarrow> 'r \<Rightarrow> 'r option" where
  "decode_entries spec [] r = Some r"
| "decode_entries spec (kv # kvs) r =
     (case List.find (\<lambda>(tag, _). same_name (fst kv) tag) spec of
        None \<Rightarrow> decode_entries spec kvs r
      | Some (_, dec) \<Rightarrow>
          (case dec (snd kv) r of None \<Rightarrow> None | Some r' \<Rightarrow> decode_entries spec kvs r'))"

definition decode_struct :: "'r field_decoder list \<Rightarrow> json \<Rightarrow> 'r \<Rightarrow> 'r option" where
  "decode_struct spec j r =
     (case j of JNull \<Rightarrow> Some r | JObj kvs \<Rightarrow> decode_entries spec kvs r | _ \<Rightarrow> None)"

fun map_option_list :: "('a \<Rightarrow> 'b option) \<Rightarrow> 'a list \<Rightarrow> 'b list option" where
  "map_option_list f [] = Some []"
| "map_option_list f (x # xs) =
     (case f x of None \<Rightarrow> None
      | Some y \<Rightarrow> (case map_option_list f xs of None \<Rightarrow> None | Some ys \<Rightarrow> Some (y # ys)))"

lemma map_option_list_Some:
  "(\<And>x. x \<in> set xs \<Longrightarrow> f (g x) = Some (h x)) \<Longrightarrow> map_option_list f (map g xs) = Some (map h xs)"
  by (induction xs) auto

lemma map_option_list_None:
  "x \<in> set xs \<Longrightarrow> f x = None \<Longrightarrow> map_option_list f xs = None"
  by (induction xs) (auto split: option.splits)

text \<open>The kinds of fields. \<open>null\<close> leaves a scalar as it is and clears a slice or a map.\<close>

fun dec_string :: "((string \<Rightarrow> string) \<Rightarrow> 'r \<Rightarrow> 'r) \<Rightarrow> json \<Rightarrow> 'r \<Rightarrow> 'r option" where
  "dec_string upd JNull r = Some r"
| "dec_string upd (JStr s) r = Some (upd (\<lambda>_. s) r)"
| "dec_string upd _ r = None"

fun dec_bool :: "((bool \<Rightarrow> bool) \<Rightarrow> 'r \<Rightarrow> 'r) \<Rightarrow> json \<Rightarrow> 'r \<Rightarrow> 'r option" where
  "dec_bool upd JNull r = Some r"
| "dec_bool upd (JBool b) r = Some (upd (\<lambda>_. b) r)"
| "dec_bool upd _ r = None"

definition int64_range :: "int \<Rightarrow> bool" where
  "int64_range i \<longleftrightarrow> - (2 ^ 63) \<le> i \<and> i < 2 ^ 63"

fun dec_int64 :: "((i64 \<Rightarrow> i64) \<Rightarrow> 'r \<Rightarrow> 'r) \<Rightarrow> json \<Rightarrow> 'r \<Rightarrow> 'r option" where
  "dec_int64 upd JNull r = Some r"
| "dec_int64 upd (JInt i) r = (if int64_range i then Some (upd (\<lambda>_. word_of_int i) r) else None)"
| "dec_int64 upd _ r = None"

fun dec_int :: "((int \<Rightarrow> int) \<Rightarrow> 'r \<Rightarrow> 'r) \<Rightarrow> json \<Rightarrow> 'r \<Rightarrow> 'r option" where
  "dec_int upd JNull r = Some r"
| "dec_int upd (JInt i) r = (if int64_range i then Some (upd (\<lambda>_. i) r) else None)"
| "dec_int upd _ r = None"

fun elem_string :: "json \<Rightarrow> string option" where
  "elem_string JNull = Some []"
| "elem_string (JStr s) = Some s"
| "elem_string _ = None"

fun dec_strings :: "((string list \<Rightarrow> string list) \<Rightarrow> 'r \<Rightarrow> 'r) \<Rightarrow> json \<Rightarrow> 'r \<Rightarrow> 'r option" where
  "dec_strings upd JNull r = Some (upd (\<lambda>_. []) r)"
| "dec_strings upd (JArr xs) r =
     (case map_option_list elem_string xs of None \<Rightarrow> None | Some ss \<Rightarrow> Some (upd (\<lambda>_. ss) r))"
| "dec_strings upd _ r = None"

fun elem_int64 :: "string \<times> json \<Rightarrow> (string \<times> i64) option" where
  "elem_int64 (k, JNull) = Some (k, 0)"
| "elem_int64 (k, JInt i) = (if int64_range i then Some (k, word_of_int i) else None)"
| "elem_int64 _ = None"

fun dec_map :: "(((string \<rightharpoonup> i64) \<Rightarrow> (string \<rightharpoonup> i64)) \<Rightarrow> 'r \<Rightarrow> 'r) \<Rightarrow> json \<Rightarrow> 'r \<Rightarrow> 'r option" where
  "dec_map upd JNull r = Some (upd (\<lambda>_. Map.empty) r)"
| "dec_map upd (JObj kvs) r =
     (case map_option_list elem_int64 kvs of None \<Rightarrow> None
      | Some es \<Rightarrow> Some (upd (\<lambda>m. m ++ map_of (rev es)) r))"
| "dec_map upd _ r = None"

section \<open>Heartbeats\<close>

definition zero_slice :: MIGSlice where
  "zero_slice = \<lparr>s_SliceID = [], s_Profile = [], s_TotalVRAMMiB = 0, s_UsedVRAMMiB = 0,
     s_LoadedModels = [], s_Healthy = False\<rparr>"

definition slice_spec :: "MIGSlice field_decoder list" where
  "slice_spec =
     [(''slice_id'', dec_string s_SliceID_update),
      (''profile'', dec_string s_Profile_update),
      (''total_vram_mib'', dec_int64 s_TotalVRAMMiB_update),
      (''used_vram_mib'', dec_int64 s_UsedVRAMMiB_update),
      (''loaded_models'', dec_strings s_LoadedModels_update),
      (''healthy'', dec_bool s_Healthy_update)]"

fun dec_slices :: "((MIGSlice list \<Rightarrow> MIGSlice list) \<Rightarrow> 'r \<Rightarrow> 'r) \<Rightarrow> json \<Rightarrow> 'r \<Rightarrow> 'r option" where
  "dec_slices upd JNull r = Some (upd (\<lambda>_. []) r)"
| "dec_slices upd (JArr xs) r =
     (case map_option_list (\<lambda>x. decode_struct slice_spec x zero_slice) xs of
        None \<Rightarrow> None | Some ss \<Rightarrow> Some (upd (\<lambda>_. ss) r))"
| "dec_slices upd _ r = None"

definition zero_heartbeat :: HeartbeatMsg where
  "zero_heartbeat = \<lparr>hb_NodeID = [], hb_GPUID = [], hb_UsedVRAMMiB = 0, hb_TotalVRAMMiB = 0,
     hb_LoadedModels = [], hb_NVLinkEnabled = False, hb_MIGEnabled = False, hb_MIGSlices = [],
     hb_ModelWeightAffinity = Map.empty, hb_AgentAddr = []\<rparr>"

definition heartbeat_spec :: "HeartbeatMsg field_decoder list" where
  "heartbeat_spec =
     [(''node_id'', dec_string hb_NodeID_update),
      (''gpu_id'', dec_string hb_GPUID_update),
      (''used_vram_mib'', dec_int64 hb_UsedVRAMMiB_update),
      (''total_vram_mib'', dec_int64 hb_TotalVRAMMiB_update),
      (''loaded_models'', dec_strings hb_LoadedModels_update),
      (''nvlink_enabled'', dec_bool hb_NVLinkEnabled_update),
      (''mig_enabled'', dec_bool hb_MIGEnabled_update),
      (''mig_slices'', dec_slices hb_MIGSlices_update),
      (''model_weight_affinity'', dec_map hb_ModelWeightAffinity_update),
      (''agent_addr'', dec_string hb_AgentAddr_update)]"

text \<open>\<open>json.NewDecoder(body).Decode\<close> reads one value and leaves what follows it alone.\<close>

definition decode_body :: "'r field_decoder list \<Rightarrow> 'r \<Rightarrow> string \<Rightarrow> 'r option" where
  "decode_body spec zero body =
     (case parse body of None \<Rightarrow> None | Some (j, _) \<Rightarrow> decode_struct spec j zero)"

definition decode_heartbeat :: "string \<Rightarrow> HeartbeatMsg option" where
  "decode_heartbeat = decode_body heartbeat_spec zero_heartbeat"

section \<open>Requests and decisions\<close>

definition zero_request :: ScheduleRequest where
  "zero_request = \<lparr>ModelName = [], VRAMNeededMiB = 0, Priority = 0\<rparr>"

definition request_spec :: "ScheduleRequest field_decoder list" where
  "request_spec =
     [(''ModelName'', dec_string ModelName_update),
      (''VRAMNeededMiB'', dec_int64 VRAMNeededMiB_update),
      (''Priority'', dec_int Priority_update)]"

definition decode_request :: "string \<Rightarrow> ScheduleRequest option" where
  "decode_request = decode_body request_spec zero_request"

text \<open>\<open>json.NewEncoder(w).Encode\<close> ends the value with a line break.\<close>

definition encode_decision :: "ScheduleDecision \<Rightarrow> string" where
  "encode_decision d = render True (JObj
     [(''NodeID'', JStr (d_NodeID d)), (''GPUID'', JStr (d_GPUID d)), (''SliceID'', JStr (d_SliceID d)),
      (''MIGEnabled'', JBool (d_MIGEnabled d)), (''AffinityHit'', JBool (d_AffinityHit d))]) @ [CHR 0x0A]"

text \<open>A Go client that decodes into the struct it was encoded from.\<close>

definition decision_spec :: "ScheduleDecision field_decoder list" where
  "decision_spec =
     [(''NodeID'', dec_string d_NodeID_update),
      (''GPUID'', dec_string d_GPUID_update),
      (''SliceID'', dec_string d_SliceID_update),
      (''MIGEnabled'', dec_bool d_MIGEnabled_update),
      (''AffinityHit'', dec_bool d_AffinityHit_update)]"

definition zero_decision :: ScheduleDecision where
  "zero_decision = \<lparr>d_NodeID = [], d_GPUID = [], d_SliceID = [], d_MIGEnabled = False,
     d_AffinityHit = False\<rparr>"

text \<open>
  The texts of the errors of \<open>Schedule\<close>, and the bytes of a reply: \<open>http.Error\<close> ends its text with a
  line break as well.
\<close>

fun schedule_error_text :: "schedule_error \<Rightarrow> string" where
  "schedule_error_text NoHealthyNodes = ''no healthy GPU nodes in registry''"
| "schedule_error_text (NoSliceFits needed m) =
     ''no GPU slice has '' @ show_int (sint needed) @ '' MiB free VRAM for model '' @ m"
| "schedule_error_text (CouldNotSelect m) = ''scheduler could not select a slice for model '' @ m"

fun reply_text :: "reply_body \<Rightarrow> string" where
  "reply_text (Text s) = s @ [CHR 0x0A]"
| "reply_text (ErrText e) = schedule_error_text e @ [CHR 0x0A]"
| "reply_text (DecisionJSON d) = encode_decision d"

section \<open>Commands and answers\<close>

definition marshal_command :: "agentCommand \<Rightarrow> string" where
  "marshal_command cmd = render True (JObj (map (\<lambda>(k, s). (k, JStr s)) (command_fields cmd)))"

text \<open>The fields of the answer \<open>dispatchToAgent\<close> decodes.\<close>

record command_result =
  cr_Status :: string
  cr_Detail :: string

definition result_spec :: "command_result field_decoder list" where
  "result_spec = [(''status'', dec_string cr_Status_update), (''detail'', dec_string cr_Detail_update)]"

definition decode_result :: "string \<Rightarrow> (string \<times> string) option" where
  "decode_result body =
     (case decode_body result_spec \<lparr>cr_Status = [], cr_Detail = []\<rparr> body of
        None \<Rightarrow> None | Some r \<Rightarrow> Some (cr_Status r, cr_Detail r))"

section \<open>What is encoded is decoded\<close>

lemma decode_body_render:
  assumes "json_ascii j" and "stops rest"
  shows "decode_body spec zero (render html j @ rest) = decode_struct spec j zero"
  by (simp add: decode_body_def parse_render [OF assms])

definition decision_ascii :: "ScheduleDecision \<Rightarrow> bool" where
  "decision_ascii d \<longleftrightarrow> ascii (d_NodeID d) \<and> ascii (d_GPUID d) \<and> ascii (d_SliceID d)"

lemma decision_fields:
  "decode_struct decision_spec (JObj
     [(''NodeID'', JStr n), (''GPUID'', JStr g), (''SliceID'', JStr s),
      (''MIGEnabled'', JBool m), (''AffinityHit'', JBool a)]) zero_decision =
   Some \<lparr>d_NodeID = n, d_GPUID = g, d_SliceID = s, d_MIGEnabled = m, d_AffinityHit = a\<rparr>"
  by (simp add: decode_struct_def decision_spec_def same_name_def lower_def zero_decision_def)

text \<open>
  The decision a client is sent is the decision that was made: decoding the body of the reply into
  the struct it was encoded from gives the decision back, for all ASCII identifiers, including
  those with quotes, backslashes, control characters or HTML characters in them.
\<close>

theorem decision_roundtrip:
  assumes "decision_ascii d"
  shows "decode_body decision_spec zero_decision (encode_decision d) = Some d"
proof -
  let ?fields = "[(''NodeID'', JStr (d_NodeID d)), (''GPUID'', JStr (d_GPUID d)),
    (''SliceID'', JStr (d_SliceID d)), (''MIGEnabled'', JBool (d_MIGEnabled d)),
    (''AffinityHit'', JBool (d_AffinityHit d))]"
  have "json_ascii (JObj ?fields)" using assms by (simp add: decision_ascii_def ascii_def)
  moreover have "stops [CHR 0x0A]" by (simp add: stops_def)
  ultimately show ?thesis
    unfolding encode_decision_def by (simp add: decode_body_render decision_fields del: render.simps)
qed

theorem decision_roundtrip_witness:
  "decode_body decision_spec zero_decision (encode_decision
     \<lparr>d_NodeID = ''n<1>'', d_GPUID = [dq, bs], d_SliceID = ''0/0/0'', d_MIGEnabled = True, d_AffinityHit = False\<rparr>) =
   Some \<lparr>d_NodeID = ''n<1>'', d_GPUID = [dq, bs], d_SliceID = ''0/0/0'', d_MIGEnabled = True, d_AffinityHit = False\<rparr>"
  by (rule decision_roundtrip) (simp add: decision_ascii_def ascii_def dq_def bs_def)

text \<open>A request without a priority is a production request, and one without any field is accepted.\<close>

lemma empty_request: "decode_request ''{}'' = Some \<lparr>ModelName = [], VRAMNeededMiB = 0, Priority = P0Production\<rparr>"
  by code_simp

end
