(* ===== verification/Agent.thy ===== *)
theory Agent
  imports Wire
begin

text \<open>
  The scheduler's side of the contract with the agent, \<open>agent/src/main.rs\<close>: the payload of its
  heartbeats, its \<open>/command\<close> handler with the bookkeeping of \<open>mark_loaded\<close> and \<open>mark_evicted\<close>,
  and the loop between the two programs. The loader, a third program, is a parameter: what it
  answers to a load, an eviction and a checkpoint.
\<close>

section \<open>The state of the agent\<close>

text \<open>A Rust \<open>u64\<close> is an unsigned word.\<close>

type_synonym u64 = "64 word"

record agent_slice =
  as_slice_id :: string
  as_profile :: string
  as_total_vram_mib :: u64
  as_used_vram_mib :: u64
  as_loaded_models :: "string list"
  as_healthy :: bool

record HeartbeatPayload =
  hp_node_id :: string
  hp_gpu_id :: string
  hp_used_vram_mib :: u64
  hp_total_vram_mib :: u64
  hp_loaded_models :: "string list"
  hp_nvlink_enabled :: bool
  hp_mig_enabled :: bool
  hp_mig_slices :: "agent_slice list"
  hp_model_weight_affinity :: "string \<rightharpoonup> u64"
  hp_agent_addr :: string

record AgentCommand =
  cmd_action :: string
  cmd_model_name :: string
  cmd_quantization :: "string option"
  cmd_slice_id :: "string option"

section \<open>Heartbeats on the wire\<close>

text \<open>\<open>serde_json\<close> writes the fields in the order of the struct, the map in any order.\<close>

definition strings_json :: "string list \<Rightarrow> json" where
  "strings_json ss = JArr (map JStr ss)"

definition slice_json :: "agent_slice \<Rightarrow> json" where
  "slice_json s = JObj
     [(''slice_id'', JStr (as_slice_id s)), (''profile'', JStr (as_profile s)),
      (''total_vram_mib'', JInt (uint (as_total_vram_mib s))),
      (''used_vram_mib'', JInt (uint (as_used_vram_mib s))),
      (''loaded_models'', strings_json (as_loaded_models s)), (''healthy'', JBool (as_healthy s))]"

definition payload_json :: "string list \<Rightarrow> HeartbeatPayload \<Rightarrow> json" where
  "payload_json order p = JObj
     [(''node_id'', JStr (hp_node_id p)), (''gpu_id'', JStr (hp_gpu_id p)),
      (''used_vram_mib'', JInt (uint (hp_used_vram_mib p))),
      (''total_vram_mib'', JInt (uint (hp_total_vram_mib p))),
      (''loaded_models'', strings_json (hp_loaded_models p)),
      (''nvlink_enabled'', JBool (hp_nvlink_enabled p)),
      (''mig_enabled'', JBool (hp_mig_enabled p)),
      (''mig_slices'', JArr (map slice_json (hp_mig_slices p))),
      (''model_weight_affinity'', JObj (map (\<lambda>k. (k, JInt (uint (the (hp_model_weight_affinity p k))))) order)),
      (''agent_addr'', JStr (hp_agent_addr p))]"

text \<open>What the scheduler is to make of it: the same data, with signed sizes.\<close>

definition report_slice :: "agent_slice \<Rightarrow> MIGSlice" where
  "report_slice s = \<lparr>s_SliceID = as_slice_id s, s_Profile = as_profile s,
     s_TotalVRAMMiB = as_total_vram_mib s, s_UsedVRAMMiB = as_used_vram_mib s,
     s_LoadedModels = as_loaded_models s, s_Healthy = as_healthy s\<rparr>"

definition report :: "HeartbeatPayload \<Rightarrow> HeartbeatMsg" where
  "report p = \<lparr>hb_NodeID = hp_node_id p, hb_GPUID = hp_gpu_id p, hb_UsedVRAMMiB = hp_used_vram_mib p,
     hb_TotalVRAMMiB = hp_total_vram_mib p, hb_LoadedModels = hp_loaded_models p,
     hb_NVLinkEnabled = hp_nvlink_enabled p, hb_MIGEnabled = hp_mig_enabled p,
     hb_MIGSlices = map report_slice (hp_mig_slices p),
     hb_ModelWeightAffinity = hp_model_weight_affinity p, hb_AgentAddr = hp_agent_addr p\<rparr>"

definition u64_fits :: "u64 \<Rightarrow> bool" where
  "u64_fits w \<longleftrightarrow> uint w < 2 ^ 63"

definition slice_fits :: "agent_slice \<Rightarrow> bool" where
  "slice_fits s \<longleftrightarrow> u64_fits (as_total_vram_mib s) \<and> u64_fits (as_used_vram_mib s)"

definition payload_fits :: "HeartbeatPayload \<Rightarrow> bool" where
  "payload_fits p \<longleftrightarrow> u64_fits (hp_used_vram_mib p) \<and> u64_fits (hp_total_vram_mib p) \<and>
     (\<forall>s \<in> set (hp_mig_slices p). slice_fits s) \<and> (\<forall>w \<in> ran (hp_model_weight_affinity p). u64_fits w)"

definition slice_ascii :: "agent_slice \<Rightarrow> bool" where
  "slice_ascii s \<longleftrightarrow> ascii (as_slice_id s) \<and> ascii (as_profile s) \<and> (\<forall>m \<in> set (as_loaded_models s). ascii m)"

definition payload_ascii :: "HeartbeatPayload \<Rightarrow> bool" where
  "payload_ascii p \<longleftrightarrow> ascii (hp_node_id p) \<and> ascii (hp_gpu_id p) \<and> ascii (hp_agent_addr p) \<and>
     (\<forall>m \<in> set (hp_loaded_models p). ascii m) \<and> (\<forall>s \<in> set (hp_mig_slices p). slice_ascii s) \<and>
     (\<forall>m \<in> dom (hp_model_weight_affinity p). ascii m)"

lemma int64_range_uint: "int64_range (uint (w :: u64)) \<longleftrightarrow> u64_fits w"
proof -
  have "- (2 ^ 63) \<le> uint w" by (rule order_trans [OF _ uint_ge_0]) simp
  then show ?thesis by (simp add: int64_range_def u64_fits_def)
qed

lemma decode_strings: "map_option_list elem_string (map JStr ss) = Some ss"
  using map_option_list_Some [of ss elem_string JStr "\<lambda>s. s"] by simp

lemma decode_slice:
  "decode_struct slice_spec (slice_json s) zero_slice =
     (if slice_fits s then Some (report_slice s) else None)"
  by (simp add: decode_struct_def slice_spec_def slice_json_def strings_json_def same_name_def lower_def
      zero_slice_def int64_range_uint decode_strings slice_fits_def report_slice_def)

lemma decode_slices:
  "map_option_list (\<lambda>x. decode_struct slice_spec x zero_slice) (map slice_json ss) =
     (if \<forall>s \<in> set ss. slice_fits s then Some (map report_slice ss) else None)"
  by (induction ss) (auto simp: decode_slice)

lemma decode_affinity:
  "map_option_list elem_int64 (map (\<lambda>k. (k, JInt (uint (f k :: u64)))) ks) =
     (if \<forall>k \<in> set ks. u64_fits (f k) then Some (map (\<lambda>k. (k, f k)) ks) else None)"
  by (induction ks) (auto simp: int64_range_uint)

lemma map_of_enumerated:
  assumes "enumerates ks m"
  shows "map_of (rev (map (\<lambda>k. (k, the (m k))) ks)) = m"
proof -
  have "map_of (rev (map (\<lambda>k. (k, f k)) ks)) x = (if x \<in> set ks then Some (f x) else None)" for f x
    by (induction ks rule: rev_induct) auto
  from this [of "\<lambda>k. the (m k)"] show ?thesis
    using enumerates_set [OF assms] by (auto simp: fun_eq_iff)
qed

text \<open>
  C23. Heartbeats cross the wire unchanged: what the agent's serializer writes, in any order of the
  affinity map, the scheduler's decoder reads as the same message, field by field and slice by
  slice; it is refused as a bad request exactly when some size does not fit in 63 bits.
\<close>

theorem heartbeat_roundtrip:
  assumes "payload_ascii p" and "enumerates order (hp_model_weight_affinity p)"
  shows "decode_heartbeat (render False (payload_json order p)) =
    (if payload_fits p then Some (report p) else None)"
proof -
  let ?m = "hp_model_weight_affinity p"
  have "json_ascii (payload_json order p)"
    using assms by (auto simp: payload_json_def payload_ascii_def slice_json_def slice_ascii_def
        strings_json_def enumerates_set) (simp_all add: ascii_def)
  from decode_body_render [OF this, of "[]"] have
    "decode_heartbeat (render False (payload_json order p)) =
      decode_struct heartbeat_spec (payload_json order p) zero_heartbeat"
    by (simp add: decode_heartbeat_def stops_def)
  also have "\<dots> = (if payload_fits p then Some (report p) else None)"
  proof -
    have fits: "(\<forall>k \<in> set order. u64_fits (the (?m k))) \<longleftrightarrow> (\<forall>w \<in> ran ?m. u64_fits w)"
      using assms(2) by (auto simp: enumerates_def ran_def dom_def)
    show ?thesis
      unfolding decode_struct_def [of heartbeat_spec] using map_of_enumerated [OF assms(2)]
      by (simp add: heartbeat_spec_def payload_json_def strings_json_def same_name_def
          lower_def zero_heartbeat_def int64_range_uint decode_strings decode_slices decode_affinity
          payload_fits_def report_def fits [symmetric])
  qed
  finally show ?thesis .
qed

definition demo_payload :: HeartbeatPayload where
  "demo_payload = \<lparr>hp_node_id = ''node-001'', hp_gpu_id = ''gpu-0'', hp_used_vram_mib = 3800,
     hp_total_vram_mib = 61440, hp_loaded_models = [''phi''], hp_nvlink_enabled = False,
     hp_mig_enabled = True,
     hp_mig_slices = [\<lparr>as_slice_id = ''0/0/0'', as_profile = ''2g.20gb'', as_total_vram_mib = 20480,
       as_used_vram_mib = 3800, as_loaded_models = [''phi''], as_healthy = True\<rparr>],
     hp_model_weight_affinity = [''phi'' \<mapsto> 3800], hp_agent_addr = ''http://agent:9090''\<rparr>"

theorem heartbeat_roundtrip_witness:
  "decode_heartbeat (render False (payload_json [''phi''] demo_payload)) = Some (report demo_payload)"
proof -
  have "payload_ascii demo_payload" "payload_fits demo_payload"
    "enumerates [''phi''] (hp_model_weight_affinity demo_payload)"
    by (auto simp: demo_payload_def payload_ascii_def slice_ascii_def ascii_def payload_fits_def
        slice_fits_def u64_fits_def enumerates_def)
  then show ?thesis by (simp add: heartbeat_roundtrip)
qed

section \<open>Commands on the wire\<close>

text \<open>
  \<open>serde\<close> reads a struct from an object, in any order of its fields, or from an array of its
  fields in order. A field given twice and a required field that is missing are errors, unknown
  fields are skipped; the extractor of the handler wants nothing but white space after the value.
\<close>

definition field_values :: "string \<Rightarrow> (string \<times> json) list \<Rightarrow> json list" where
  "field_values name kvs = map snd (filter (\<lambda>kv. fst kv = name) kvs)"

fun required_string :: "json list \<Rightarrow> string option" where
  "required_string [JStr s] = Some s"
| "required_string _ = None"

fun optional_string :: "json list \<Rightarrow> string option option" where
  "optional_string [] = Some None"
| "optional_string [JNull] = Some None"
| "optional_string [JStr s] = Some (Some s)"
| "optional_string _ = None"

definition make_command :: "json list \<Rightarrow> json list \<Rightarrow> json list \<Rightarrow> json list \<Rightarrow> AgentCommand option" where
  "make_command a m q s =
     (case (required_string a, required_string m, optional_string q, optional_string s) of
        (Some a', Some m', Some q', Some s') \<Rightarrow>
          Some \<lparr>cmd_action = a', cmd_model_name = m', cmd_quantization = q', cmd_slice_id = s'\<rparr>
      | _ \<Rightarrow> None)"

fun command_of_json :: "json \<Rightarrow> AgentCommand option" where
  "command_of_json (JObj kvs) = make_command (field_values ''action'' kvs) (field_values ''model_name'' kvs)
     (field_values ''quantization'' kvs) (field_values ''slice_id'' kvs)"
| "command_of_json (JArr [a, m, q, s]) = make_command [a] [m] [q] [s]"
| "command_of_json _ = None"

definition read_command :: "string \<Rightarrow> AgentCommand option" where
  "read_command body =
     (case parse body of
        Some (j, rest) \<Rightarrow> if skip_ws rest = [] then command_of_json j else None
      | None \<Rightarrow> None)"

definition none_if_empty :: "string \<Rightarrow> string option" where
  "none_if_empty s = (if s = [] then None else Some s)"

text \<open>The command as the agent sees it.\<close>

definition agent_view :: "agentCommand \<Rightarrow> AgentCommand" where
  "agent_view c = \<lparr>cmd_action = ac_Action c, cmd_model_name = ac_ModelName c,
     cmd_quantization = none_if_empty (ac_Quantization c), cmd_slice_id = none_if_empty (ac_SliceID c)\<rparr>"

definition command_ascii :: "agentCommand \<Rightarrow> bool" where
  "command_ascii c \<longleftrightarrow> ascii (ac_Action c) \<and> ascii (ac_ModelName c) \<and> ascii (ac_Quantization c) \<and>
     ascii (ac_SliceID c)"

lemma agent_view_inj: "agent_view c = agent_view c' \<Longrightarrow> c = c'"
  by (auto simp: agent_view_def none_if_empty_def split: if_splits)

lemma read_marshal:
  assumes "command_ascii c"
  shows "read_command (marshal_command c) = Some (agent_view c)"
proof -
  let ?j = "JObj (map (\<lambda>(k, s). (k, JStr s)) (command_fields c))"
  have "json_ascii ?j" using assms by (auto simp: command_fields_def command_ascii_def) (simp_all add: ascii_def)
  from parse_render [OF this, of "[]" True] have "parse (marshal_command c) = Some (?j, [])"
    by (simp add: marshal_command_def stops_def)
  moreover have "command_of_json ?j = Some (agent_view c)"
    by (simp add: command_fields_def field_values_def make_command_def agent_view_def none_if_empty_def)
  ultimately show ?thesis by (simp add: read_command_def)
qed

lemma marshal_inj:
  assumes "command_ascii c" and "command_ascii c'" and "marshal_command c = marshal_command c'"
  shows "c = c'"
  using read_marshal [OF assms(1)] read_marshal [OF assms(2)] assms(3) agent_view_inj by simp

text \<open>
  C22. Commands cross the wire unchanged: what \<open>json.Marshal\<close> encodes the agent reads as the same action,
  model, quantization and slice, an empty quantization or slice as the absent one. So commands
  that differ have bodies that differ.
\<close>

theorem command_roundtrip:
  assumes "command_ascii c" and "command_ascii c'"
  shows "read_command (marshal_command c) = Some (agent_view c) \<and>
    (marshal_command c = marshal_command c' \<longleftrightarrow> c = c')"
  using read_marshal [OF assms(1)] marshal_inj [OF assms] by blast

theorem command_roundtrip_witness:
  "read_command (marshal_command (po_body post_x)) = Some (agent_view (po_body post_x)) \<and>
   marshal_command (po_body post_x) \<noteq> marshal_command ((po_body post_x)\<lparr>ac_SliceID := ''0/0/0''\<rparr>)"
proof -
  have "command_ascii (po_body post_x)" "command_ascii ((po_body post_x)\<lparr>ac_SliceID := ''0/0/0''\<rparr>)"
    by (simp_all add: command_ascii_def ascii_def post_x_def)
  from command_roundtrip [OF this] show ?thesis by (auto simp: post_x_def)
qed

section \<open>The command handler\<close>

record LoadResponse =
  lr_model_name :: string
  lr_vram_used_mib :: u64
  lr_load_duration_sec :: f64
  lr_affinity_cache_hit :: bool

datatype reply =
    LoadReply LoadResponse string
  | EvictReply string string
  | CheckpointReply string string string
  | ErrorReply string
  | UnknownReply string

fun find_slice :: "string \<Rightarrow> agent_slice list \<Rightarrow> agent_slice option" where
  "find_slice sid [] = None"
| "find_slice sid (s # ss) = (if as_slice_id s = sid then Some s else find_slice sid ss)"

text \<open>The first slice with the identifier, through a mutable reference.\<close>

fun update_slice :: "string \<Rightarrow> (agent_slice \<Rightarrow> agent_slice) \<Rightarrow> agent_slice list \<Rightarrow> agent_slice list" where
  "update_slice sid f [] = []"
| "update_slice sid f (s # ss) = (if as_slice_id s = sid then f s # ss else s # update_slice sid f ss)"

definition add_model :: "string \<Rightarrow> string list \<Rightarrow> string list" where
  "add_model m ms = (if m \<in> set ms then ms else ms @ [m])"

definition drop_model :: "string \<Rightarrow> string list \<Rightarrow> string list" where
  "drop_model m ms = filter (\<lambda>x. x \<noteq> m) ms"

definition mark_loaded :: "string option \<Rightarrow> string \<Rightarrow> HeartbeatPayload \<Rightarrow> HeartbeatPayload" where
  "mark_loaded slice_id m p =
     (case slice_id of
        Some sid \<Rightarrow> p\<lparr>hp_mig_slices :=
          update_slice sid (\<lambda>s. s\<lparr>as_loaded_models := add_model m (as_loaded_models s)\<rparr>) (hp_mig_slices p)\<rparr>
      | None \<Rightarrow> p\<lparr>hp_loaded_models := add_model m (hp_loaded_models p)\<rparr>)"

definition mark_evicted :: "string option \<Rightarrow> string \<Rightarrow> HeartbeatPayload \<Rightarrow> HeartbeatPayload" where
  "mark_evicted slice_id m p =
     (case slice_id of
        Some sid \<Rightarrow> p\<lparr>hp_mig_slices :=
          update_slice sid (\<lambda>s. s\<lparr>as_loaded_models := drop_model m (as_loaded_models s)\<rparr>) (hp_mig_slices p)\<rparr>
      | None \<Rightarrow> p\<lparr>hp_loaded_models := drop_model m (hp_loaded_models p)\<rparr>)"

definition resolve_slice_vram_cap :: "string \<Rightarrow> HeartbeatPayload \<Rightarrow> u64 option" where
  "resolve_slice_vram_cap sid p = map_option as_total_vram_mib (find_slice sid (hp_mig_slices p))"

text \<open>
  The loader's answers: to a load of a model with a quantization, on a slice with a cap; to an
  eviction, which names the model only; to a checkpoint.
\<close>

record loader =
  ld_load :: "string \<Rightarrow> string option \<Rightarrow> string option \<Rightarrow> u64 option \<Rightarrow> string + LoadResponse"
  ld_evict :: "string \<Rightarrow> string + unit"
  ld_checkpoint :: "string \<Rightarrow> string + string"

definition handle_command :: "loader \<Rightarrow> AgentCommand \<Rightarrow> HeartbeatPayload \<Rightarrow> HeartbeatPayload \<times> reply" where
  "handle_command ld cmd p =
     (let slice_info = (case cmd_slice_id cmd of None \<Rightarrow> ''full'' | Some sid \<Rightarrow> sid);
          cap = (case cmd_slice_id cmd of None \<Rightarrow> None | Some sid \<Rightarrow> resolve_slice_vram_cap sid p);
          m = cmd_model_name cmd
      in if cmd_action cmd = ''PREWARM'' then
           (case ld_load ld m (cmd_quantization cmd) (cmd_slice_id cmd) cap of
              Inr resp \<Rightarrow> (mark_loaded (cmd_slice_id cmd) (lr_model_name resp) p, LoadReply resp slice_info)
            | Inl e \<Rightarrow> (p, ErrorReply e))
         else if cmd_action cmd = ''EVICT'' then
           (case ld_evict ld m of
              Inr _ \<Rightarrow> (mark_evicted (cmd_slice_id cmd) m p, EvictReply m slice_info)
            | Inl e \<Rightarrow> (p, ErrorReply e))
         else if cmd_action cmd = ''CHECKPOINT'' then
           (case ld_checkpoint ld m of
              Inr path \<Rightarrow> (p, CheckpointReply m path slice_info)
            | Inl e \<Rightarrow> (p, ErrorReply e))
         else (p, UnknownReply (''unknown action: '' @ cmd_action cmd)))"

section \<open>Before a heartbeat\<close>

text \<open>
  What the heartbeat loop makes of the payload before it sends it. In production the loader's
  status, when there is one, replaces the models of the whole GPU; the slices stay as they are.
  The mock build drifts the sizes instead, and on a GPU without slices it replaces the models by
  the two of its fixture. The sizes it draws are arguments.
\<close>

record LoaderStatus =
  ls_loaded :: "string list"
  ls_vram_used_mib :: u64
  ls_vram_total_mib :: u64
  ls_vram_free_mib :: u64

definition learn_weights :: "string list \<Rightarrow> u64 \<Rightarrow> (string \<rightharpoonup> u64) \<Rightarrow> (string \<rightharpoonup> u64)" where
  "learn_weights ms v aff = fold (\<lambda>m a. a(m \<mapsto> v)) ms aff"

definition refresh :: "u64 \<Rightarrow> bool \<Rightarrow> LoaderStatus option \<Rightarrow> HeartbeatPayload \<Rightarrow> HeartbeatPayload" where
  "refresh hw_used hw_nvlink status p =
     (case status of
        None \<Rightarrow> p\<lparr>hp_used_vram_mib := hw_used, hp_nvlink_enabled := hw_nvlink\<rparr>
      | Some st \<Rightarrow> p\<lparr>hp_used_vram_mib := ls_vram_used_mib st, hp_nvlink_enabled := hw_nvlink,
          hp_loaded_models := ls_loaded st,
          hp_model_weight_affinity := learn_weights (ls_loaded st) (ls_vram_used_mib st) (hp_model_weight_affinity p)\<rparr>)"

definition PLAIN_MODELS :: "string list" where
  "PLAIN_MODELS = [''llama-3-70b'', ''codellama-13b'']"

definition mock_plain :: "u64 \<Rightarrow> u64 \<Rightarrow> HeartbeatPayload \<Rightarrow> HeartbeatPayload" where
  "mock_plain v1 v2 p = p\<lparr>hp_used_vram_mib := v1 + v2, hp_loaded_models := PLAIN_MODELS,
     hp_model_weight_affinity := (hp_model_weight_affinity p)(''llama-3-70b'' \<mapsto> v1, ''codellama-13b'' \<mapsto> v2)\<rparr>"

text \<open>The fixture of the MIG node: slice, model and footprint.\<close>

definition MIG_MODELS :: "(string \<times> string \<times> u64) list" where
  "MIG_MODELS = [(''0/0/0'', ''phi-3-mini'', 3800), (''1/0/0'', ''llama-3-8b'', 8192), (''2/0/0'', ''mistral-7b'', 7168)]"

text \<open>\<open>zip\<close> ends with the shorter list: a fourth slice would be lost. The values drawn are \<open>vs\<close>.\<close>

definition drift_mig_slices :: "u64 list \<Rightarrow> agent_slice list \<Rightarrow> agent_slice list" where
  "drift_mig_slices vs current =
     map (\<lambda>((_, v), s). s\<lparr>as_used_vram_mib := v\<rparr>) (zip (zip MIG_MODELS vs) current)"

definition mock_mig :: "u64 list \<Rightarrow> HeartbeatPayload \<Rightarrow> HeartbeatPayload" where
  "mock_mig vs p =
     (let ss = drift_mig_slices vs (hp_mig_slices p);
          updates = concat (map (\<lambda>s. map (\<lambda>m. (m, as_used_vram_mib s)) (as_loaded_models s)) ss)
      in p\<lparr>hp_mig_slices := ss, hp_used_vram_mib := sum_list (map as_used_vram_mib ss),
          hp_loaded_models := concat (map as_loaded_models ss),
          hp_model_weight_affinity := fold (\<lambda>(m, v) a. a(m \<mapsto> v)) updates (hp_model_weight_affinity p)\<rparr>)"

definition build_initial_state :: "bool \<Rightarrow> bool \<times> agent_slice list \<times> string list \<times> u64" where
  "build_initial_state mig_node =
     (if mig_node then
        (True, map (\<lambda>(sid, m, v). \<lparr>as_slice_id = sid, as_profile = ''2g.20gb'', as_total_vram_mib = 20480,
           as_used_vram_mib = v, as_loaded_models = [m], as_healthy = True\<rparr>) MIG_MODELS,
         map (\<lambda>(sid, m, v). m) MIG_MODELS, 61440)
      else (False, [], PLAIN_MODELS, 81920))"

definition initial_payload :: "string \<Rightarrow> string \<Rightarrow> string \<Rightarrow> bool \<Rightarrow> HeartbeatPayload" where
  "initial_payload node gpu addr mig_node =
     (let (mig, slices, models, tot) = build_initial_state mig_node
      in \<lparr>hp_node_id = node, hp_gpu_id = gpu, hp_used_vram_mib = 0, hp_total_vram_mib = tot,
          hp_loaded_models = models, hp_nvlink_enabled = False, hp_mig_enabled = mig,
          hp_mig_slices = slices,
          hp_model_weight_affinity = fold (\<lambda>m a. a(m \<mapsto> 0)) models Map.empty, hp_agent_addr = addr\<rparr>)"

section \<open>Answers\<close>

text \<open>
  The bodies of the answers that hold strings only; \<open>serde_json\<close> sorts the keys of an object. The
  answer to a load also has a duration, which is not an integer.
\<close>

definition answer_body :: "reply \<Rightarrow> string option" where
  "answer_body rp =
     (case rp of
        LoadReply resp slice_info \<Rightarrow> None
      | EvictReply m slice_info \<Rightarrow> Some (render False (JObj [(''action'', JStr ''EVICT''),
          (''model'', JStr m), (''slice_id'', JStr slice_info), (''status'', JStr ''ok'')]))
      | CheckpointReply m path slice_info \<Rightarrow> Some (render False (JObj [(''action'', JStr ''CHECKPOINT''),
          (''model'', JStr m), (''path'', JStr path), (''slice_id'', JStr slice_info), (''status'', JStr ''ok'')]))
      | ErrorReply e \<Rightarrow> Some (render False (JObj [(''detail'', JStr e), (''status'', JStr ''error'')]))
      | UnknownReply msg \<Rightarrow> Some (render False (JObj [(''message'', JStr msg), (''status'', JStr ''error'')])))"

lemma decode_result_render:
  "json_ascii j \<Longrightarrow> decode_result (render False j) =
     (case decode_struct result_spec j \<lparr>cr_Status = [], cr_Detail = []\<rparr> of
        None \<Rightarrow> None | Some r \<Rightarrow> Some (cr_Status r, cr_Detail r))"
  using decode_body_render [of j "[]" result_spec "\<lparr>cr_Status = [], cr_Detail = []\<rparr>" False]
  by (simp add: decode_result_def stops_def)

definition logged_answer :: "string \<Rightarrow> string \<Rightarrow> string \<Rightarrow> reply \<Rightarrow> string option" where
  "logged_answer verb model addr rp =
     map_option (\<lambda>b. dispatch_log verb model addr (Answered 200 ''200 OK'' (decode_result b))) (answer_body rp)"

text \<open>
  C28. The agent always answers 200, and the scheduler tells failures from successes by the body: when a
  loader call fails, its error text is what the dispatch goroutine logs as the reported error, and
  an eviction that succeeds is logged as ok. Of an action the agent does not know the error is
  logged without its text, which the agent puts in a field the scheduler does not read.
\<close>

theorem agent_errors_reported:
  assumes "ascii e" and "ascii m" and "ascii info"
  shows "logged_answer verb model addr (ErrorReply e) =
      Some (''[dispatch] '' @ verb @ '' '' @ model @ '' -> '' @ addr @ '' reported error: '' @ e) \<and>
    logged_answer verb model addr (EvictReply m info) =
      Some (''[dispatch] '' @ verb @ '' '' @ model @ '' -> '' @ addr @ '' ok'') \<and>
    logged_answer verb model addr (UnknownReply e) =
      Some (''[dispatch] '' @ verb @ '' '' @ model @ '' -> '' @ addr @ '' reported error: '')"
proof -
  have ascii: "ascii ''error''" "ascii ''ok''" "ascii ''EVICT''" "ascii ''action''" "ascii ''model''"
    "ascii ''slice_id''" "ascii ''status''" "ascii ''detail''" "ascii ''message''"
    by (simp_all add: ascii_def)
  note simps = logged_answer_def answer_body_def decode_result_render decode_struct_def result_spec_def
    same_name_def lower_def dispatch_log_def
  show ?thesis using assms ascii by (simp add: simps del: render.simps)
qed

theorem agent_errors_reported_witness:
  "logged_answer ''PREWARM'' ''x'' ''http://a'' (ErrorReply ''loader /load 500'') =
     Some ''[dispatch] PREWARM x -> http://a reported error: loader /load 500''"
proof -
  have "ascii ''loader /load 500''" "ascii ''x''" "ascii ''full''" by (simp_all add: ascii_def)
  from agent_errors_reported [OF this, of "''PREWARM''" "''x''" "''http://a''"] show ?thesis by simp
qed

end
