(* ===== verification/Closed_Loop.thy ===== *)
theory Closed_Loop
  imports Agent
begin

text \<open>
  Scheduler and agent together: a pass of \<open>reconcile\<close>, the commands it has sent to a GPU's agent,
  the agent's bookkeeping and its next heartbeat. The theory shows that the loop closes: one
  round of commands that the loader carries out makes the report agree with the desired state.
\<close>

section \<open>What the agent holds\<close>

text \<open>
  The models by place: on the slice with an identifier, or on the whole GPU, for which the
  identifier of a command is empty.
\<close>

definition held :: "HeartbeatPayload \<Rightarrow> string \<Rightarrow> string set option" where
  "held p sid = (if sid = [] then Some (set (hp_loaded_models p))
     else map_option (\<lambda>s. set (as_loaded_models s)) (find_slice sid (hp_mig_slices p)))"

lemma find_update_slice:
  assumes "\<And>s. as_slice_id (f s) = as_slice_id s"
  shows "find_slice sid (update_slice sid' f ss) =
    (if sid = sid' then map_option f (find_slice sid ss) else find_slice sid ss)"
  by (induction ss) (auto simp: assms)

lemma set_add_model [simp]: "set (add_model m ms) = insert m (set ms)"
  by (auto simp: add_model_def)

lemma set_drop_model [simp]: "set (drop_model m ms) = set ms - {m}"
  by (auto simp: drop_model_def)

lemma held_mark_loaded:
  "held (mark_loaded (none_if_empty sid) m p) k = (if k = sid then map_option (insert m) (held p k) else held p k)"
  by (auto simp: held_def mark_loaded_def none_if_empty_def find_update_slice map_option.compositionality
      comp_def split: option.splits)

lemma held_mark_evicted:
  "held (mark_evicted (none_if_empty sid) m p) k = (if k = sid then map_option (\<lambda>S. S - {m}) (held p k) else held p k)"
  by (auto simp: held_def mark_evicted_def none_if_empty_def find_update_slice map_option.compositionality
      comp_def split: option.splits)

text \<open>The shape of the payload: who the agent is, and which slices it has.\<close>

definition shape :: "HeartbeatPayload \<Rightarrow> string \<times> string \<times> string \<times> bool \<times> (string \<times> bool) list" where
  "shape p = (hp_node_id p, hp_gpu_id p, hp_agent_addr p, hp_mig_enabled p,
     map (\<lambda>s. (as_slice_id s, as_healthy s)) (hp_mig_slices p))"

lemma map_update_slice:
  assumes "\<And>s. g (f s) = g s"
  shows "map g (update_slice sid f ss) = map g ss"
  by (induction ss) (auto simp: assms)

lemma shape_handle_command: "shape (fst (handle_command ld cmd p)) = shape p"
  by (auto simp: shape_def handle_command_def mark_loaded_def mark_evicted_def Let_def map_update_slice
      split: option.splits sum.splits)

section \<open>A round of commands\<close>

text \<open>The loader does as it is told and names the model it was asked for.\<close>

definition willing :: "loader \<Rightarrow> bool" where
  "willing ld \<longleftrightarrow> (\<forall>m q s cap. \<exists>resp. ld_load ld m q s cap = Inr resp \<and> lr_model_name resp = m) \<and>
     (\<forall>m. \<exists>u. ld_evict ld m = Inr u)"

text \<open>The agent takes the bodies off the wire, one after the other; what it cannot read it refuses.\<close>

definition receive :: "loader \<Rightarrow> string \<Rightarrow> HeartbeatPayload \<Rightarrow> HeartbeatPayload" where
  "receive ld body p =
     (case read_command body of None \<Rightarrow> p | Some cmd \<Rightarrow> fst (handle_command ld cmd p))"

definition command :: "bool \<Rightarrow> string \<Rightarrow> string \<Rightarrow> agentCommand" where
  "command load sid m = \<lparr>ac_Action = (if load then ''PREWARM'' else ''EVICT''), ac_ModelName = m,
     ac_Quantization = [], ac_SliceID = sid\<rparr>"

lemma shape_receive: "shape (receive ld body p) = shape p"
  by (simp add: receive_def shape_handle_command split: option.split)

lemma held_receive:
  assumes "willing ld" and "ascii sid" and "ascii m"
  shows "held (receive ld (marshal_command (command load sid m)) p) k =
    (if k = sid then map_option (if load then insert m else (\<lambda>S. S - {m})) (held p k) else held p k)"
proof -
  have c: "command_ascii (command load sid m)"
    using assms by (simp add: command_ascii_def command_def ascii_def)
  obtain resp where "ld_load ld m None (none_if_empty sid)
      (case none_if_empty sid of None \<Rightarrow> None | Some sid \<Rightarrow> resolve_slice_vram_cap sid p) = Inr resp"
    "lr_model_name resp = m" using assms(1) unfolding willing_def by blast
  moreover obtain u where "ld_evict ld m = Inr u" using assms(1) unfolding willing_def by blast
  ultimately show ?thesis
    using read_marshal [OF c]
    by (simp add: receive_def agent_view_def command_def handle_command_def Let_def none_if_empty_def [of "[]"]
        held_mark_loaded held_mark_evicted)
qed

text \<open>
  Commands that never both load and evict the same model at the same place can come in any
  order, and more than once.
\<close>

lemma held_round:
  assumes "willing ld"
    and "\<forall>(load, sid, m) \<in> set cs. ascii sid \<and> ascii m"
    and "\<And>sid m. (True, sid, m) \<in> set cs \<Longrightarrow> (False, sid, m) \<notin> set cs"
  shows "held (fold (\<lambda>(load, sid, m). receive ld (marshal_command (command load sid m))) cs p) k =
    map_option (\<lambda>S. (S \<union> {m. (True, k, m) \<in> set cs}) - {m. (False, k, m) \<in> set cs}) (held p k)"
  using assms(2,3)
proof (induction cs arbitrary: p)
  case Nil
  show ?case by (cases "held p k") simp_all
next
  case (Cons c cs)
  obtain load sid m where c: "c = (load, sid, m)" by (cases c)
  have "ascii sid" "ascii m" using Cons.prems(1) c by auto
  note h = held_receive [OF assms(1) this, of load p k]
  have IH: "held (fold (\<lambda>(load, sid, m). receive ld (marshal_command (command load sid m))) cs q) k =
      map_option (\<lambda>S. (S \<union> {m. (True, k, m) \<in> set cs}) - {m. (False, k, m) \<in> set cs}) (held q k)" for q
    using Cons.prems by (intro Cons.IH) auto
  have no: "(True, sid, m) \<in> set (c # cs) \<Longrightarrow> (False, sid, m) \<notin> set (c # cs)" using Cons.prems(2) by blast
  show ?case
  proof (cases "held p k")
    case None
    with h IH c show ?thesis by auto
  next
    case (Some S)
    have "((if load then insert m else (\<lambda>S. S - {m})) S \<union> {m. (True, sid, m) \<in> set cs}) - {m. (False, sid, m) \<in> set cs} =
        (S \<union> {m. (True, sid, m) \<in> set (c # cs)}) - {m. (False, sid, m) \<in> set (c # cs)}"
      using no c by auto
    then show ?thesis using Some h IH c by auto
  qed
qed

section \<open>The loop closes\<close>

definition reported_node :: "time \<Rightarrow> HeartbeatPayload \<Rightarrow> GPUNode" where
  "reported_node t p = (node_of_heartbeat t (report p))\<lparr>Healthy := True\<rparr>"

text \<open>The slices of a MIG GPU have names, and no two the same.\<close>

definition payload_wf :: "HeartbeatPayload \<Rightarrow> bool" where
  "payload_wf p \<longleftrightarrow> hp_agent_addr p \<noteq> [] \<and> (hp_mig_enabled p \<longrightarrow>
     distinct (map as_slice_id (hp_mig_slices p)) \<and> [] \<notin> set (map as_slice_id (hp_mig_slices p)))"

lemma slice_ids_shape:
  assumes "shape p' = shape p"
  shows "map as_slice_id (hp_mig_slices p') = map as_slice_id (hp_mig_slices p)"
proof -
  let ?g = "\<lambda>s. (as_slice_id s, as_healthy s)"
  have "map fst (map ?g (hp_mig_slices p')) = map fst (map ?g (hp_mig_slices p))"
    using assms by (simp only: shape_def prod.inject)
  then show ?thesis by (simp add: comp_def)
qed

lemma payload_wf_shape:
  assumes "shape p' = shape p"
  shows "payload_wf p' = payload_wf p"
proof -
  have "hp_agent_addr p' = hp_agent_addr p" "hp_mig_enabled p' = hp_mig_enabled p"
    using assms by (simp_all only: shape_def prod.inject)
  then show ?thesis by (simp only: payload_wf_def slice_ids_shape [OF assms])
qed

lemma find_slice_distinct:
  "distinct (map as_slice_id ss) \<Longrightarrow> s \<in> set ss \<Longrightarrow> find_slice (as_slice_id s) ss = Some s"
  by (induction ss) auto

lemma report_slice_sel [simp]:
  "s_SliceID (report_slice s) = as_slice_id s" "s_LoadedModels (report_slice s) = as_loaded_models s"
  "s_Healthy (report_slice s) = as_healthy s"
  by (simp_all add: report_slice_def)

lemma units_reported:
  "units_of (reported_node t p) =
     (if hp_mig_enabled p \<and> hp_mig_slices p \<noteq> []
      then {(as_slice_id s, as_loaded_models s) | s. s \<in> set (hp_mig_slices p) \<and> as_healthy s}
      else {([], hp_loaded_models p)})"
proof -
  have "{(s_SliceID s, s_LoadedModels s) | s. s \<in> report_slice ` S \<and> s_Healthy s} =
      {(as_slice_id s, as_loaded_models s) | s. s \<in> S \<and> as_healthy s}" for S
    by (rule set_eqI, rule iffI) (auto, metis imageI report_slice_sel)
  then show ?thesis
    by (simp add: units_of_def reported_node_def node_of_heartbeat_def report_def)
qed

lemma unit_held:
  assumes "payload_wf p" and "(sid, loaded) \<in> units_of (reported_node t p)"
  shows "held p sid = Some (set loaded)"
proof (cases "hp_mig_enabled p \<and> hp_mig_slices p \<noteq> []")
  case True
  with assms(2) obtain s where s: "s \<in> set (hp_mig_slices p)" "sid = as_slice_id s" "loaded = as_loaded_models s"
    by (auto simp: units_reported)
  have wf: "distinct (map as_slice_id (hp_mig_slices p))" "[] \<notin> set (map as_slice_id (hp_mig_slices p))"
    using assms(1) True by (simp_all add: payload_wf_def)
  have "as_slice_id s \<noteq> []" using wf(2) s(1) by (metis imageI set_map)
  with find_slice_distinct [OF wf(1) s(1)] s show ?thesis by (simp add: held_def)
next
  case False
  with assms(2) have "(sid, loaded) = ([], hp_loaded_models p)" unfolding units_reported by (simp only: if_False) simp
  then show ?thesis by (simp add: held_def)
qed

lemma unit_shape:
  assumes "shape p' = shape p" and "(sid, loaded') \<in> units_of (reported_node t' p')"
  shows "\<exists>loaded. (sid, loaded) \<in> units_of (reported_node t p)"
proof -
  let ?g = "\<lambda>s. (as_slice_id s, as_healthy s)"
  have eq: "map ?g (hp_mig_slices p') = map ?g (hp_mig_slices p)" "hp_mig_enabled p' = hp_mig_enabled p"
    using assms(1) by (simp_all only: shape_def prod.inject)
  then have "length (hp_mig_slices p') = length (hp_mig_slices p)" by (metis length_map)
  then have empty: "hp_mig_slices p' = [] \<longleftrightarrow> hp_mig_slices p = []" by auto
  show ?thesis
  proof (cases "hp_mig_enabled p \<and> hp_mig_slices p \<noteq> []")
    case True
    with assms(2) eq(2) empty obtain s where s: "s \<in> set (hp_mig_slices p')" "as_healthy s" "sid = as_slice_id s"
      by (auto simp: units_reported)
    then have "?g s \<in> set (map ?g (hp_mig_slices p'))" by simp
    with s have "(sid, True) \<in> set (map ?g (hp_mig_slices p))" unfolding eq(1) by simp
    then obtain u where "u \<in> set (hp_mig_slices p)" "as_slice_id u = sid" "as_healthy u" by auto
    with True show ?thesis by (auto simp: units_reported)
  next
    case False
    with eq(2) empty have "\<not> (hp_mig_enabled p' \<and> hp_mig_slices p' \<noteq> [])" by simp
    with assms(2) have "sid = []" unfolding units_reported by (simp only: if_False) simp
    with False show ?thesis unfolding units_reported by (simp only: if_False) simp
  qed
qed

text \<open>The commands a pass sends to the agent of a GPU.\<close>

definition commands_for :: "NodeRegistry \<Rightarrow> string \<Rightarrow> string \<Rightarrow> ReconcileAction list \<Rightarrow> agentCommand set" where
  "commands_for reg nid gid acts = {po_body p | a line p. a \<in> set acts \<and>
     a_NodeID a = nid \<and> a_GPUID a = gid \<and> handleAction reg a = (line, Some p)}"

lemma healthy_found:
  "registry_ok reg \<Longrightarrow> n \<in> healthy_nodes reg \<Longrightarrow> Get reg (NodeID n) (GPUID n) = Some n"
  using registry_okD by (fastforce simp: healthy_nodes_def ran_def Get_def key_of_def)

text \<open>A fresh node gets the actions of its own drift.\<close>

lemma fresh_node_actions:
  assumes "registry_ok reg" "pick_ok pick" "enumerates ks (nodes reg)" "enumerates ks' (nodes reg)"
    and run: "reconcile pick ks ks' now r reg = (reg', acts)"
    and n: "n \<in> healthy_nodes reg" "\<not> is_stale r now n"
  shows "{a \<in> set acts. a_NodeID a = NodeID n \<and> a_GPUID a = GPUID n} = node_drift r n"
proof -
  let ?mine = "\<lambda>a. a_NodeID a = NodeID n \<and> a_GPUID a = GPUID n"
  have same: "n' = n" if "n' \<in> healthy_nodes reg" "NodeID n' = NodeID n" "GPUID n' = GPUID n" for n'
  proof -
    have "Get reg (NodeID n) (GPUID n) = Some n'"
      using healthy_found [OF assms(1) that(1)] by (simp only: that(2,3))
    with healthy_found [OF assms(1) n(1)] show ?thesis by simp
  qed
  have ids: "a_NodeID a = NodeID n' \<and> a_GPUID a = GPUID n'" if "a \<in> node_drift r n'" for a n'
    using that by (auto simp: node_drift_def drift_def split: option.splits)
  note acts = reconcile_spec(1) [OF assms(1-5)]
  have "node_drift r n \<subseteq> set acts" using n unfolding acts by blast
  moreover have "a \<in> node_drift r n" if a: "a \<in> set acts" "?mine a" for a
  proof -
    from a(1) consider n' where "n' \<in> healthy_nodes reg" "is_stale r now n'" "a = action ActionMarkDead n' [] []"
      | n' where "n' \<in> healthy_nodes reg" "a \<in> node_drift r n'" unfolding acts by blast
    then show ?thesis
    proof cases
      case 1
      with a(2) same [of n'] n(2) show ?thesis by simp
    next
      case 2
      with a(2) ids [OF 2(2)] same [of n'] show ?thesis by simp
    qed
  qed
  ultimately show ?thesis using ids by blast
qed

lemma reported_in_registry:
  assumes "registry_ok reg0" and "now \<le> t + staleTimeout r"
  shows "registry_ok (applyHeartbeat t (report p) reg0)"
    and "reported_node t p \<in> healthy_nodes (applyHeartbeat t (report p) reg0)"
    and "\<not> is_stale r now (reported_node t p)"
  using assms
  by (auto simp: applyHeartbeat_def registry_ok_Upsert reported_node_def healthy_nodes_def nodes_Upsert
      is_stale_def node_of_heartbeat_def ran_def)

definition drift_commands :: "Reconciler \<Rightarrow> GPUNode \<Rightarrow> (bool \<times> string \<times> string) set" where
  "drift_commands r n = {(load, sid, m). \<lparr>a_Type = (if load then ActionPrewarm else ActionEvict),
     a_NodeID = NodeID n, a_GPUID = GPUID n, a_SliceID = sid, a_ModelName = m\<rparr> \<in> node_drift r n}"

abbreviation drift_command :: "bool \<times> string \<times> string \<Rightarrow> agentCommand" where
  "drift_command c \<equiv> (case c of (load, sid, m) \<Rightarrow> command load sid m)"

lemma commands_for_drift:
  assumes "Get reg (NodeID n) (GPUID n) = Some n'" and "AgentAddr n' \<noteq> []"
    and "{a \<in> set acts. a_NodeID a = NodeID n \<and> a_GPUID a = GPUID n} = node_drift r n"
  shows "commands_for reg (NodeID n) (GPUID n) acts = drift_command ` drift_commands r n"
proof -
  have "commands_for reg (NodeID n) (GPUID n) acts =
      {po_body p | a line p. a \<in> node_drift r n \<and> handleAction reg a = (line, Some p)}"
    unfolding commands_for_def assms(3) [symmetric] by blast
  also have "\<dots> = drift_command ` drift_commands r n"
  proof -
    have shape: "\<exists>load sid m. a = \<lparr>a_Type = (if load then ActionPrewarm else ActionEvict),
        a_NodeID = NodeID n, a_GPUID = GPUID n, a_SliceID = sid, a_ModelName = m\<rparr>"
      if "a \<in> node_drift r n" for a
    proof -
      from that consider sid m where "a = action ActionPrewarm n sid m" | sid m where "a = action ActionEvict n sid m"
        by (auto simp: node_drift_def drift_def split: option.splits)
      then show ?thesis
      proof cases
        case 1
        then show ?thesis by (intro exI [of _ True] exI [of _ sid] exI [of _ m]) simp
      next
        case 2
        then show ?thesis by (intro exI [of _ False] exI [of _ sid] exI [of _ m]) simp
      qed
    qed
    have post: "(\<exists>line. handleAction reg \<lparr>a_Type = (if load then ActionPrewarm else ActionEvict),
        a_NodeID = NodeID n, a_GPUID = GPUID n, a_SliceID = sid, a_ModelName = m\<rparr> = (line, Some q)) \<longleftrightarrow>
        q = \<lparr>po_addr = AgentAddr n', po_url = AgentAddr n' @ ''/command'', po_body = command load sid m\<rparr>"
      for load sid m q
      using assms(1,2) by (cases load) (auto simp: handleAction_def dispatchToAgent_def command_def)
    show ?thesis
    proof (intro set_eqI iffI)
      fix c assume "c \<in> {po_body p | a line p. a \<in> node_drift r n \<and> handleAction reg a = (line, Some p)}"
      then obtain a line p where a: "a \<in> node_drift r n" "handleAction reg a = (line, Some p)" "c = po_body p"
        by blast
      from shape [OF a(1)] obtain load sid m where l: "a = \<lparr>a_Type = (if load then ActionPrewarm else ActionEvict),
        a_NodeID = NodeID n, a_GPUID = GPUID n, a_SliceID = sid, a_ModelName = m\<rparr>" by blast
      from a(2) l post [of load sid m p] have "c = command load sid m" using a(3) by auto
      moreover have "(load, sid, m) \<in> drift_commands r n" using a(1) l by (simp add: drift_commands_def)
      ultimately show "c \<in> drift_command ` drift_commands r n" by force
    next
      fix c assume "c \<in> drift_command ` drift_commands r n"
      then obtain load sid m where l: "(load, sid, m) \<in> drift_commands r n" "c = command load sid m" by auto
      let ?a = "\<lparr>a_Type = (if load then ActionPrewarm else ActionEvict),
        a_NodeID = NodeID n, a_GPUID = GPUID n, a_SliceID = sid, a_ModelName = m\<rparr>"
      let ?q = "\<lparr>po_addr = AgentAddr n', po_url = AgentAddr n' @ ''/command'', po_body = command load sid m\<rparr>"
      have "?a \<in> node_drift r n" using l(1) by (simp add: drift_commands_def)
      moreover obtain line where "handleAction reg ?a = (line, Some ?q)" using post [of load sid m ?q] by blast
      moreover have "c = po_body ?q" by (simp add: l(2))
      ultimately show "c \<in> {po_body p | a line p. a \<in> node_drift r n \<and> handleAction reg a = (line, Some p)}"
        by blast
    qed
  qed
  finally show ?thesis .
qed

text \<open>The commands in some order, from the set of their bodies.\<close>

lemma bodies_as_commands:
  assumes "set bodies = (\<lambda>c. marshal_command (drift_command c)) ` C"
    and ascii: "\<forall>(load, sid, m) \<in> C. ascii sid \<and> ascii m"
  shows "\<exists>cs. set cs = C \<and> fold (receive ld) bodies p =
    fold (\<lambda>(load, sid, m). receive ld (marshal_command (command load sid m))) cs p"
proof -
  let ?g = "\<lambda>c. marshal_command (drift_command c)"
  have cmd: "command_ascii (drift_command c)" if "c \<in> C" for c
    using ascii that by (cases c) (auto simp: command_ascii_def command_def ascii_def)
  have inj: "inj_on ?g C"
  proof (rule inj_onI)
    fix c c' assume "c \<in> C" "c' \<in> C" "?g c = ?g c'"
    with marshal_inj cmd have "drift_command c = drift_command c'" by blast
    then show "c = c'" by (cases c, cases c') (auto simp: command_def split: if_splits)
  qed
  let ?cs = "map (inv_into C ?g) bodies"
  have cs: "set ?cs = C"
    using assms(1) by (simp add: image_image inv_into_f_f [OF inj] cong: image_cong)
  have "map ?g ?cs = bodies"
    unfolding map_map comp_def
  proof (rule map_idI)
    fix b assume "b \<in> set bodies"
    then show "?g (inv_into C ?g b) = b" using assms(1) by (intro f_inv_into_f) simp
  qed
  then have "fold (receive ld) bodies p = fold (receive ld) (map ?g ?cs) p" by simp
  then have run: "fold (receive ld) bodies p = fold (\<lambda>c. receive ld (?g c)) ?cs p"
    by (simp only: fold_map comp_def)
  have "(\<lambda>c. receive ld (?g c)) = (\<lambda>(load, sid, m). receive ld (marshal_command (command load sid m)))"
    by auto
  from cs run [unfolded this] show ?thesis by blast
qed

definition desired_ascii :: "Reconciler \<Rightarrow> bool" where
  "desired_ascii r \<longleftrightarrow> (\<forall>k D. desired r k = Some D \<longrightarrow> (\<forall>m \<in> D. ascii m))"

lemma ascii_Nil [simp]: "ascii []"
  by (simp add: ascii_def)

lemma drift_member:
  "\<lparr>a_Type = (if load then ActionPrewarm else ActionEvict), a_NodeID = NodeID n, a_GPUID = GPUID n,
     a_SliceID = sid, a_ModelName = m\<rparr> \<in> drift r n sid' loaded \<longleftrightarrow> sid' = sid \<and>
   (\<exists>D. desired r (sliceKey (NodeID n) (GPUID n) sid) = Some D \<and>
     (if load then m \<in> D \<and> m \<notin> set loaded else m \<in> set loaded \<and> m \<notin> D))"
  by (cases load) (auto simp: drift_def split: option.splits)

lemma drift_commands_iff:
  "(load, sid, m) \<in> drift_commands r (reported_node t p) \<longleftrightarrow>
     (\<exists>loaded D. (sid, loaded) \<in> units_of (reported_node t p) \<and>
       desired r (sliceKey (hp_node_id p) (hp_gpu_id p) sid) = Some D \<and>
       (if load then m \<in> D \<and> m \<notin> set loaded else m \<in> set loaded \<and> m \<notin> D))"
proof -
  have ids: "NodeID (reported_node t p) = hp_node_id p" "GPUID (reported_node t p) = hp_gpu_id p"
    by (simp_all add: reported_node_def node_of_heartbeat_def report_def)
  let ?n = "reported_node t p"
  let ?a = "\<lparr>a_Type = (if load then ActionPrewarm else ActionEvict), a_NodeID = NodeID ?n, a_GPUID = GPUID ?n,
    a_SliceID = sid, a_ModelName = m\<rparr>"
  have "(load, sid, m) \<in> drift_commands r ?n \<longleftrightarrow> (\<exists>(s, l) \<in> units_of ?n. ?a \<in> drift r ?n s l)"
    unfolding drift_commands_def mem_Collect_eq prod.case node_drift_def by blast
  also have "\<dots> \<longleftrightarrow> (\<exists>s l. (s, l) \<in> units_of ?n \<and> ?a \<in> drift r ?n s l)" by blast
  finally show ?thesis unfolding drift_member unfolding ids by blast
qed

lemma drift_commands_units:
  assumes "payload_wf p" and "(sid, loaded) \<in> units_of (reported_node t p)"
    and D: "desired r (sliceKey (hp_node_id p) (hp_gpu_id p) sid) = Some D"
  shows "(load, sid, m) \<in> drift_commands r (reported_node t p) \<longleftrightarrow>
    (if load then m \<in> D \<and> m \<notin> set loaded else m \<in> set loaded \<and> m \<notin> D)"
proof -
  have uniq: "set l = set loaded" if "(sid, l) \<in> units_of (reported_node t p)" for l
    using unit_held [OF assms(1) that] unit_held [OF assms(1,2)] by simp
  show ?thesis
    unfolding drift_commands_iff using assms(2) D uniq by (metis option.inject)
qed

lemma drift_commands_ascii:
  assumes "payload_ascii p" and "desired_ascii r"
  shows "\<forall>(load, sid, m) \<in> drift_commands r (reported_node t p). ascii sid \<and> ascii m"
proof -
  have u: "ascii sid \<and> (\<forall>m \<in> set loaded. ascii m)" if "(sid, loaded) \<in> units_of (reported_node t p)" for sid loaded
    using that assms(1) unfolding units_reported
    by (auto simp: payload_ascii_def slice_ascii_def split: if_splits)
  have "ascii sid \<and> ascii m" if "(load, sid, m) \<in> drift_commands r (reported_node t p)" for load sid m
  proof -
    from that obtain loaded D where "(sid, loaded) \<in> units_of (reported_node t p)"
      "desired r (sliceKey (hp_node_id p) (hp_gpu_id p) sid) = Some D"
      "if load then m \<in> D \<and> m \<notin> set loaded else m \<in> set loaded \<and> m \<notin> D"
      unfolding drift_commands_iff by blast
    with u [OF this(1)] assms(2) show ?thesis by (cases load) (auto simp: desired_ascii_def)
  qed
  then show ?thesis by auto
qed

lemma drift_commands_disjoint:
  assumes "payload_wf p" and T: "(True, sid, m) \<in> drift_commands r (reported_node t p)"
  shows "(False, sid, m) \<notin> drift_commands r (reported_node t p)"
proof -
  from T obtain loaded D where "(sid, loaded) \<in> units_of (reported_node t p)"
    "desired r (sliceKey (hp_node_id p) (hp_gpu_id p) sid) = Some D"
    unfolding drift_commands_iff by blast
  from drift_commands_units [OF assms(1) this] T show ?thesis by auto
qed

text \<open>
  After the round the report has no drift, even if the heartbeat loop then touches the payload,
  as long as it leaves the models of the units alone.
\<close>

lemma round_leaves_no_drift:
  assumes "payload_wf p" "payload_ascii p" "desired_ascii r" "willing ld"
    and "set bodies = (\<lambda>c. marshal_command (drift_command c)) ` drift_commands r (reported_node t p)"
    and q: "shape q = shape (fold (receive ld) bodies p)"
      "\<forall>(sid, l) \<in> units_of (reported_node t' q). held q sid = held (fold (receive ld) bodies p) sid"
  shows "node_drift r (reported_node t' q) = {}"
proof -
  let ?C = "drift_commands r (reported_node t p)"
  let ?p = "fold (receive ld) bodies p"
  obtain cs where cs: "set cs = ?C"
    "?p = fold (\<lambda>(load, sid, m). receive ld (marshal_command (command load sid m))) cs p"
    using bodies_as_commands [OF assms(5) drift_commands_ascii [OF assms(2,3)]] by blast
  have held: "held ?p k = map_option (\<lambda>S. (S \<union> {m. (True, k, m) \<in> ?C}) - {m. (False, k, m) \<in> ?C}) (held p k)" for k
    unfolding cs(2) cs(1) [symmetric]
    by (rule held_round [OF assms(4)])
      (use cs(1) drift_commands_ascii [OF assms(2,3)] drift_commands_disjoint [OF assms(1)] in auto)
  have shape: "shape q = shape p" unfolding q(1)
    by (rule fold_invariant [where P = "\<lambda>q. shape q = shape p" and Q = "\<lambda>_. True"])
      (simp_all add: shape_receive)
  note wf = payload_wf_shape [OF shape] assms(1)
  have ids: "NodeID (reported_node t' q) = hp_node_id p" "GPUID (reported_node t' q) = hp_gpu_id p"
    using shape by (simp_all add: reported_node_def node_of_heartbeat_def report_def shape_def)
  have "drift r (reported_node t' q) sid loaded' = {}"
    if u: "(sid, loaded') \<in> units_of (reported_node t' q)" for sid loaded'
  proof (cases "desired r (sliceKey (hp_node_id p) (hp_gpu_id p) sid)")
    case None
    then show ?thesis by (simp add: drift_def ids)
  next
    case (Some D)
    obtain loaded where l: "(sid, loaded) \<in> units_of (reported_node t p)"
      using unit_shape [OF shape u] by blast
    have "held q sid = Some (set loaded')" using unit_held [OF _ u] wf by simp
    with q(2) u have "held ?p sid = Some (set loaded')" by fastforce
    moreover have "held p sid = Some (set loaded)" using unit_held [OF wf(2) l] .
    ultimately have "set loaded' = (set loaded \<union> {m. (True, sid, m) \<in> ?C}) - {m. (False, sid, m) \<in> ?C}"
      using held [of sid] by simp
    also have "\<dots> = D" using drift_commands_units [OF wf(2) l Some] by auto
    finally show ?thesis using Some by (simp add: drift_def ids)
  qed
  then show ?thesis by (auto simp: node_drift_def)
qed

text \<open>
  The loader's status is honest when it lists the models the agent has booked on the whole GPU.
  Nothing is asked of it for a GPU with slices.
\<close>

definition honest :: "LoaderStatus option \<Rightarrow> HeartbeatPayload \<Rightarrow> bool" where
  "honest status p \<longleftrightarrow> hp_mig_enabled p \<and> hp_mig_slices p \<noteq> [] \<or>
     (case status of None \<Rightarrow> True | Some st \<Rightarrow> set (ls_loaded st) = set (hp_loaded_models p))"

lemma shape_refresh: "shape (refresh u v status p) = shape p"
  by (simp add: shape_def refresh_def split: option.split)

lemma refresh_held:
  assumes "payload_wf p" "honest status p"
    and "(sid, l) \<in> units_of (reported_node t (refresh u v status p))"
  shows "held (refresh u v status p) sid = held p sid"
proof (cases "hp_mig_enabled p \<and> hp_mig_slices p \<noteq> []")
  case True
  have same: "hp_mig_slices (refresh u v status p) = hp_mig_slices p"
    "hp_mig_enabled (refresh u v status p) = hp_mig_enabled p"
    by (simp_all add: refresh_def split: option.split)
  with True assms(3) obtain s where "s \<in> set (hp_mig_slices p)" "sid = as_slice_id s"
    by (auto simp: units_reported)
  with assms(1) True have "sid \<noteq> []" unfolding payload_wf_def by (metis imageI set_map)
  then show ?thesis by (simp add: held_def same)
next
  case False
  with assms(2) show ?thesis by (auto simp: held_def honest_def refresh_def split: option.splits)
qed

text \<open>The bodies a pass has sent to the agent of a GPU that just reported.\<close>

lemma round_bodies:
  assumes "payload_wf p" and before: "registry_ok reg0" "reg = applyHeartbeat t (report p) reg0" "now \<le> t + staleTimeout r"
    and pass1: "pick_ok pick" "enumerates ks (nodes reg)" "enumerates ks' (nodes reg)"
      "reconcile pick ks ks' now r reg = (reg', acts)"
  shows "marshal_command ` commands_for reg' (hp_node_id p) (hp_gpu_id p) acts =
    (\<lambda>c. marshal_command (drift_command c)) ` drift_commands r (reported_node t p)"
proof -
  let ?n = "reported_node t p"
  have ids: "NodeID ?n = hp_node_id p" "GPUID ?n = hp_gpu_id p" "AgentAddr ?n = hp_agent_addr p"
    by (simp_all add: reported_node_def node_of_heartbeat_def report_def)
  note r1 = reported_in_registry [OF before(1,3), of p, folded before(2)]
  note s1 = reconcile_spec [OF r1(1) pass1]
  have "?n \<in> healthy_nodes reg'" using s1(2) r1(2,3) by simp
  from healthy_found [OF s1(3) this] have found: "Get reg' (NodeID ?n) (GPUID ?n) = Some ?n" .
  have "AgentAddr ?n \<noteq> []" using assms(1) by (simp add: ids payload_wf_def)
  from commands_for_drift [OF found this fresh_node_actions [OF r1(1) pass1 r1(2,3)]]
  show ?thesis by (simp add: ids image_image)
qed

lemma shape_round: "shape (fold (receive ld) bodies p) = shape p"
  by (rule fold_invariant [where P = "\<lambda>q. shape q = shape p" and Q = "\<lambda>_. True"])
    (simp_all add: shape_receive)

text \<open>A pass that finds no drift on a fresh node sends it nothing.\<close>

lemma quiet_pass:
  assumes "shape q = shape p" and quiet: "node_drift r (reported_node t' q) = {}"
    and after: "registry_ok reg1" "reg2 = applyHeartbeat t' (report q) reg1" "now' \<le> t' + staleTimeout r"
    and pass2: "pick_ok pick'" "enumerates ls (nodes reg2)" "enumerates ls' (nodes reg2)"
      "reconcile pick' ls ls' now' r reg2 = (reg3, acts')"
  shows "\<forall>a \<in> set acts'. \<not> (a_NodeID a = hp_node_id p \<and> a_GPUID a = hp_gpu_id p)"
proof -
  have ids: "NodeID (reported_node t' q) = hp_node_id p" "GPUID (reported_node t' q) = hp_gpu_id p"
    using assms(1) by (simp_all add: reported_node_def node_of_heartbeat_def report_def shape_def)
  note r2 = reported_in_registry [OF after(1,3), of q, folded after(2)]
  from fresh_node_actions [OF r2(1) pass2 r2(2,3)] quiet
  have "{a \<in> set acts'. a_NodeID a = hp_node_id p \<and> a_GPUID a = hp_gpu_id p} = {}" by (simp add: ids)
  then show ?thesis by blast
qed

text \<open>
  C5. The loop closes: a heartbeat is applied, a pass of the reconciler runs while it is fresh, the agent
  gets the bodies of all commands of that pass for its GPU, in any order and some more than once,
  and its loader carries them out and reports its status honestly; then any pass while the agent's next heartbeat is fresh sends
  that GPU nothing. One round brings the GPU from whatever it has loaded to the desired models.
\<close>

theorem one_round_converges:
  assumes payload: "payload_wf p" "payload_ascii p" and des: "desired_ascii r" and ld: "willing ld"
    and before: "registry_ok reg0" "reg = applyHeartbeat t (report p) reg0" "now \<le> t + staleTimeout r"
    and pass1: "pick_ok pick" "enumerates ks (nodes reg)" "enumerates ks' (nodes reg)"
      "reconcile pick ks ks' now r reg = (reg', acts)"
    and bodies: "set bodies = marshal_command ` commands_for reg' (hp_node_id p) (hp_gpu_id p) acts"
    and p': "p' = fold (receive ld) bodies p" "honest status p'"
    and after: "registry_ok reg1" "reg2 = applyHeartbeat t' (report (refresh u v status p')) reg1"
      "now' \<le> t' + staleTimeout r"
    and pass2: "pick_ok pick'" "enumerates ls (nodes reg2)" "enumerates ls' (nodes reg2)"
      "reconcile pick' ls ls' now' r reg2 = (reg3, acts')"
  shows "\<forall>a \<in> set acts'. \<not> (a_NodeID a = hp_node_id p \<and> a_GPUID a = hp_gpu_id p)"
proof -
  let ?q = "refresh u v status p'"
  note round = round_leaves_no_drift [OF payload des ld bodies [unfolded round_bodies [OF payload(1) before pass1]],
      folded p'(1)]
  have shape: "shape p' = shape p" unfolding p'(1) by (rule shape_round)
  then have "payload_wf p'" using payload_wf_shape payload(1) by blast
  with refresh_held [OF _ p'(2)] have "node_drift r (reported_node t' ?q) = {}"
    by (intro round) (auto simp: shape_refresh)
  moreover have "shape ?q = shape p" using shape by (simp add: shape_refresh)
  ultimately show ?thesis using quiet_pass [OF _ _ after pass2] by blast
qed

section \<open>A concrete round\<close>

definition demo_loader :: loader where
  "demo_loader = \<lparr>ld_load = (\<lambda>m q s cap. Inr \<lparr>lr_model_name = m, lr_vram_used_mib = 8192,
       lr_load_duration_sec = Fin 1, lr_affinity_cache_hit = False\<rparr>),
     ld_evict = (\<lambda>m. Inr ()), ld_checkpoint = (\<lambda>m. Inl ''no directory'')\<rparr>"

definition demo_wish :: Reconciler where
  "demo_wish = AddDesired ''node-001'' ''gpu-0'' ''0/0/0'' ''llama'' NewReconciler"

definition demo_reported :: "HeartbeatPayload \<Rightarrow> NodeRegistry" where
  "demo_reported p = applyHeartbeat 0 (report p) NewNodeRegistry"

definition demo_pass :: "HeartbeatPayload \<Rightarrow> NodeRegistry \<times> ReconcileAction list" where
  "demo_pass p = reconcile in_order [''node-001/gpu-0''] [''node-001/gpu-0''] 0 demo_wish (demo_reported p)"

lemma demo_reported_keys:
  "hp_node_id p = ''node-001'' \<Longrightarrow> hp_gpu_id p = ''gpu-0'' \<Longrightarrow>
     enumerates [''node-001/gpu-0''] (nodes (demo_reported p))"
  by (simp add: enumerates_def demo_reported_def applyHeartbeat_def nodes_Upsert key_of_def node_key_def
      node_of_heartbeat_def report_def slash_def NewNodeRegistry_def)

lemma some_bodies: "\<exists>bodies. set bodies = marshal_command ` commands_for r n g acts"
proof -
  have "commands_for r n g acts \<subseteq> (\<lambda>a. po_body (the (snd (handleAction r a)))) ` set acts"
    unfolding commands_for_def by force
  then have "finite (marshal_command ` commands_for r n g acts)"
    by (meson List.finite_set finite_imageI finite_subset)
  then show ?thesis by (metis finite_list)
qed

lemma demo_ok: "payload_wf demo_payload" "payload_ascii demo_payload" "desired_ascii demo_wish" "willing demo_loader"
    "0 \<le> 0 + staleTimeout demo_wish"
  by (auto simp: payload_wf_def demo_payload_def payload_ascii_def slice_ascii_def ascii_def desired_ascii_def
      demo_wish_def desired_AddDesired willing_def demo_loader_def NewReconciler_def Second_def split: if_splits)
    (auto simp: desired_def NewReconciler_def)

theorem one_round_converges_witness:
  "snd (demo_pass demo_payload) \<noteq> [] \<and>
   (\<exists>bodies p'. set bodies = marshal_command ` commands_for (fst (demo_pass demo_payload)) ''node-001'' ''gpu-0''
        (snd (demo_pass demo_payload)) \<and> p' = fold (receive demo_loader) bodies demo_payload \<and>
      (\<forall>a \<in> set (snd (demo_pass (refresh 0 False None p'))). \<not> (a_NodeID a = ''node-001'' \<and> a_GPUID a = ''gpu-0'')))"
proof
  show "snd (demo_pass demo_payload) \<noteq> []" by code_simp
next
  let ?C = "commands_for (fst (demo_pass demo_payload)) ''node-001'' ''gpu-0'' (snd (demo_pass demo_payload))"
  obtain bodies where bodies: "set bodies = marshal_command ` ?C" using some_bodies by blast
  let ?p = "fold (receive demo_loader) bodies demo_payload"
  let ?q = "refresh 0 False None ?p"
  have ids: "hp_node_id demo_payload = ''node-001''" "hp_gpu_id demo_payload = ''gpu-0''"
    by (simp_all add: demo_payload_def)
  then have ids': "hp_node_id ?q = ''node-001''" "hp_gpu_id ?q = ''gpu-0''"
    using shape_round [of demo_loader bodies demo_payload] shape_refresh [of 0 False None ?p]
    by (simp_all add: shape_def)
  have honest: "honest None ?p" by (simp add: honest_def)
  note pass = in_order_ok demo_reported_keys [OF ids] demo_reported_keys [OF ids]
    prod.collapse [symmetric, of "reconcile in_order [''node-001/gpu-0''] [''node-001/gpu-0''] 0 demo_wish (demo_reported demo_payload)"]
  note pass' = in_order_ok demo_reported_keys [OF ids'] demo_reported_keys [OF ids']
    prod.collapse [symmetric, of "reconcile in_order [''node-001/gpu-0''] [''node-001/gpu-0''] 0 demo_wish (demo_reported ?q)"]
  have "\<forall>a \<in> set (snd (demo_pass ?q)). \<not> (a_NodeID a = ''node-001'' \<and> a_GPUID a = ''gpu-0'')"
    using one_round_converges [where bodies = bodies, OF demo_ok(1-4) registry_ok_New demo_reported_def demo_ok(5) pass _ refl honest
        registry_ok_New demo_reported_def demo_ok(5) pass'] bodies
    unfolding ids by (simp add: demo_pass_def)
  with bodies show "\<exists>bodies p'. set bodies = marshal_command ` ?C \<and> p' = fold (receive demo_loader) bodies demo_payload \<and>
      (\<forall>a \<in> set (snd (demo_pass (refresh 0 False None p'))). \<not> (a_NodeID a = ''node-001'' \<and> a_GPUID a = ''gpu-0''))"
    by blast
qed

section \<open>The mock agents\<close>

text \<open>
  The mock build of a MIG node starts with a payload of the form the loop asks for, and its
  heartbeats keep every slice and what is booked on it, as long as there are no more slices than
  in the fixture.
\<close>

lemma initial_payload_wf: "addr \<noteq> [] \<Longrightarrow> payload_wf (initial_payload node gpu addr mig)"
  by (simp add: payload_wf_def initial_payload_def build_initial_state_def MIG_MODELS_def)

lemma drift_mig_slices_Nil [simp]: "drift_mig_slices vs [] = []"
  by (simp add: drift_mig_slices_def)

lemma mock_mig_keeps_slices:
  assumes "length (hp_mig_slices p) \<le> 3" and "length vs = 3"
  shows "map (\<lambda>s. (as_slice_id s, as_healthy s, as_loaded_models s)) (hp_mig_slices (mock_mig vs p)) =
      map (\<lambda>s. (as_slice_id s, as_healthy s, as_loaded_models s)) (hp_mig_slices p)"
proof -
  have keep: "map (\<lambda>s. (as_slice_id s, as_healthy s, as_loaded_models s))
      (map (\<lambda>((_, v), s). s\<lparr>as_used_vram_mib := v\<rparr>) (zip vws ss)) =
    map (\<lambda>s. (as_slice_id s, as_healthy s, as_loaded_models s)) ss"
    if "length ss \<le> length vws" for ss and vws :: "((string \<times> string \<times> u64) \<times> u64) list"
    using that by (induction vws ss rule: list_induct2') auto
  have "length (hp_mig_slices p) \<le> length (zip MIG_MODELS vs)"
    using assms by (simp add: MIG_MODELS_def)
  from keep [OF this] show ?thesis by (simp add: mock_mig_def Let_def drift_mig_slices_def)
qed

text \<open>
  On a whole GPU the mock build forgets what it booked: whatever commands it executed, on a GPU without slices the
  heartbeat loop reports the two models of its fixture, so a desired state other than those two
  is never reached and the same commands are sent after every heartbeat.
\<close>

lemma mock_plain_never_converges:
  assumes "\<not> hp_mig_enabled p" and "desired r (sliceKey (hp_node_id p) (hp_gpu_id p) []) = Some D"
    and "D \<noteq> set PLAIN_MODELS"
  shows "node_drift r (reported_node t (mock_plain v1 v2 p)) \<noteq> {}"
proof -
  let ?n = "reported_node t (mock_plain v1 v2 p)"
  have ids: "NodeID ?n = hp_node_id p" "GPUID ?n = hp_gpu_id p"
    by (simp_all add: reported_node_def node_of_heartbeat_def report_def mock_plain_def)
  have "([], PLAIN_MODELS) \<in> units_of ?n" using assms(1) by (simp add: units_reported mock_plain_def)
  moreover have "drift r ?n [] PLAIN_MODELS \<noteq> {}" using assms(2,3) by (auto simp: drift_def ids)
  ultimately show ?thesis unfolding node_drift_def by blast
qed

end
