(* ===== verification/Checkpoint.thy ===== *)
theory Checkpoint
  imports Float64
begin

text \<open>
  The loader's restart manifests, \<open>agent/loader/checkpoint.py\<close>: the directory of
  \<open>CheckpointManager\<close>, and \<open>save\<close> with every state a crash may leave it in. A manifest that was
  written is read back as it was: \<open>json.dump\<close> and \<open>json.load\<close> agree on strings, integers, floats
  and \<open>None\<close>.
\<close>

section \<open>Manifests and their directory\<close>

record RestartManifest =
  m_model_name :: string
  m_repo_id :: string
  m_quantization :: "string option"
  m_slice_id :: "string option"
  m_gpu_memory_utilization :: f64
  m_max_model_len :: "int option"
  m_dtype :: string
  m_saved_at :: f64

text \<open>
  The base directory maps the names of its subdirectories to what \<open>manifest.json\<close> in them is:
  there is none, it was opened and not all of it written, or it is complete. The base directory
  itself may be gone.
\<close>

datatype contents = NoFile | Torn | Written RestartManifest

type_synonym disk = "(string \<rightharpoonup> contents) option"

definition manifest_name :: "string \<Rightarrow> string" where
  "manifest_name name = concat (map (\<lambda>c.
     if c = CHR ''/'' then ''--'' else if c = CHR '':'' then ''_'' else [c]) name)"

text \<open>A path \<open>base_dir / name\<close> leads to a subdirectory, to the base directory, or out of it.\<close>

datatype path = Child string | Base | Parent

definition path_of :: "string \<Rightarrow> path" where
  "path_of name = (let n = manifest_name name in
     if n = [] \<or> n = ''.'' then Base else if n = ''..'' then Parent else Child n)"

fun exists :: "path \<Rightarrow> disk \<Rightarrow> bool" where
  "exists (Child n) (Some fs) \<longleftrightarrow> fs n \<noteq> None"
| "exists Base d \<longleftrightarrow> d \<noteq> None"
| "exists Parent d \<longleftrightarrow> True"
| "exists (Child n) None \<longleftrightarrow> False"

definition put :: "string \<Rightarrow> contents \<Rightarrow> disk \<Rightarrow> disk" where
  "put n c = map_option (\<lambda>fs. fs(n \<mapsto> c))"

definition remove_dir :: "string \<Rightarrow> disk \<Rightarrow> disk" where
  "remove_dir n = map_option (\<lambda>fs. fs(n := None))"

text \<open>\<open>shutil.rmtree\<close>, with the states in between: the file goes first, then its directory.\<close>

fun rmtree :: "path \<Rightarrow> disk \<Rightarrow> disk list" where
  "rmtree (Child n) d = [put n NoFile d, remove_dir n d]"
| "rmtree _ d = [None]"

section \<open>The operations\<close>

text \<open>
  \<open>save\<close> as the states it goes through, with the name \<open>mkdtemp\<close> finds. The renaming fails when the
  temporary directory went with the base directory.
\<close>

definition rename_dir :: "string \<Rightarrow> path \<Rightarrow> disk \<Rightarrow> disk option" where
  "rename_dir tmp target d =
     (case (d, target) of
        (Some fs, Child n) \<Rightarrow>
          (case fs tmp of
             None \<Rightarrow> None
           | Some c \<Rightarrow> Some (Some (fs(tmp := None, n \<mapsto> c))))
      | _ \<Rightarrow> None)"

definition save :: "string \<Rightarrow> RestartManifest \<Rightarrow> disk \<Rightarrow> disk list \<times> path option" where
  "save tmp m d =
     (let target = path_of (m_model_name m);
          d1 = put tmp NoFile d; d2 = put tmp Torn d; d3 = put tmp (Written m) d;
          cleared = (if exists target d3 then rmtree target d3 else []);
          d4 = last (d3 # cleared)
      in case rename_dir tmp target d4 of
           Some d5 \<Rightarrow> ([d, d1, d2, d3] @ cleared @ [d5], Some target)
         | None \<Rightarrow> ([d, d1, d2, d3] @ cleared @ [remove_dir tmp d4], None))"

definition saved :: "string \<Rightarrow> RestartManifest \<Rightarrow> disk \<Rightarrow> disk" where
  "saved tmp m d = last (fst (save tmp m d))"

datatype restored = Found RestartManifest | Missing | Undecodable

fun read_manifest :: "contents option \<Rightarrow> restored" where
  "read_manifest (Some (Written m)) = Found m"
| "read_manifest (Some Torn) = Undecodable"
| "read_manifest _ = Missing"

definition restore :: "string \<Rightarrow> disk \<Rightarrow> restored" where
  "restore name d =
     (case (path_of name, d) of
        (Child n, Some fs) \<Rightarrow> read_manifest (fs n)
      | _ \<Rightarrow> Missing)"

text \<open>The manifests of the directories in the order of their names; one that cannot be decoded raises.\<close>

definition list_manifests :: "string list \<Rightarrow> disk \<Rightarrow> RestartManifest list option" where
  "list_manifests names d =
     (let rs = map (\<lambda>n. read_manifest (case d of None \<Rightarrow> None | Some fs \<Rightarrow> fs n)) names in
      if Undecodable \<in> set rs then None
      else Some (concat (map (\<lambda>r. case r of Found m \<Rightarrow> [m] | _ \<Rightarrow> []) rs)))"

definition delete_manifest :: "string \<Rightarrow> disk \<Rightarrow> disk \<times> bool" where
  "delete_manifest name d =
     (let target = path_of name in
      if exists target d then (last (rmtree target d), True) else (d, False))"

section \<open>What a crash leaves\<close>

lemma path_of_Child: "path_of name = Child n \<Longrightarrow> n = manifest_name name"
  by (auto simp: path_of_def Let_def split: if_splits)

lemmas save_simps = save_def saved_def Let_def put_def remove_dir_def rename_dir_def restore_def

text \<open>
  C32. A reader never sees half a manifest: whatever the last step of \<open>save\<close> the disk got to before
  the process died, restoring the model finds what was there before, the new manifest, or none,
  and the manifests filed under other names are as they were. When \<open>save\<close> returns, the model's
  manifest is the one that was saved, and deleting it then leaves none.
\<close>

theorem manifest_survives_crash:
  assumes "path_of (m_model_name m) = Child n" and "fs tmp = None" and "tmp \<noteq> n"
  shows "restore (m_model_name m) (saved tmp m (Some fs)) = Found m \<and>
    fst (delete_manifest (m_model_name m) (saved tmp m (Some fs))) = Some (fs(n := None)) \<and>
    (\<forall>d \<in> set (fst (save tmp m (Some fs))).
      restore (m_model_name m) d \<in> {restore (m_model_name m) (Some fs), Found m, Missing} \<and>
      (\<forall>k. path_of k \<noteq> Child n \<longrightarrow> path_of k \<noteq> Child tmp \<longrightarrow> restore k d = restore k (Some fs)))"
  using assms by (auto simp: save_simps delete_manifest_def split: path.splits)

text \<open>A manifest that is replaced is gone for a moment; dying then loses the old one with the new.\<close>

lemma replacing_loses_manifest:
  assumes "path_of (m_model_name m) = Child n" and "fs n \<noteq> None" and "fs tmp = None" and "tmp \<noteq> n"
  shows "\<exists>d \<in> set (fst (save tmp m (Some fs))). restore (m_model_name m) d = Missing"
  using assms by (auto simp: save_simps)

text \<open>Listing does see the half-written file of a temporary directory that was left behind.\<close>

lemma listing_fails_after_crash:
  assumes "path_of (m_model_name m) = Child n" and "fs tmp = None" and "tmp \<in> set names"
  shows "\<exists>d \<in> set (fst (save tmp m (Some fs))). list_manifests names d = None"
proof -
  have "put tmp Torn (Some fs) \<in> set (fst (save tmp m (Some fs)))"
    by (simp add: save_def Let_def split: option.split)
  moreover have "list_manifests names (put tmp Torn (Some fs)) = None"
    using assms(3) by (force simp: list_manifests_def put_def Let_def)
  ultimately show ?thesis by blast
qed

text \<open>Names that differ only in how they write a separator share a manifest.\<close>

lemma manifest_name_collision:
  "manifest_name ''meta/llama'' = manifest_name ''meta--llama''" "manifest_name ''a:b'' = manifest_name ''a_b''"
  by code_simp+

text \<open>A model with the name \<open>..\<close> or an empty one takes all manifests with it, and the saving fails.\<close>

lemma dots_delete_everything:
  assumes "m_model_name m \<in> {[], ''.'', ''..''}" and "fs tmp = None"
  shows "saved tmp m (Some fs) = None \<and> snd (save tmp m (Some fs)) = None"
proof -
  have "path_of (m_model_name m) \<in> {Base, Parent}"
    using assms(1) by (auto simp: path_of_def manifest_name_def)
  then show ?thesis by (auto simp: save_simps)
qed

definition demo_manifest :: RestartManifest where
  "demo_manifest = \<lparr>m_model_name = ''meta/llama-3-8b'', m_repo_id = ''meta/llama-3-8b'', m_quantization = None,
     m_slice_id = Some ''0/0/0'', m_gpu_memory_utilization = Fin (9 / 40), m_max_model_len = None,
     m_dtype = ''bfloat16'', m_saved_at = Fin 0\<rparr>"

theorem manifest_survives_crash_witness:
  "restore ''meta/llama-3-8b'' (saved ''.tmp_ckpt_1'' demo_manifest (Some Map.empty)) = Found demo_manifest"
proof -
  have "path_of (m_model_name demo_manifest) = Child ''meta--llama-3-8b''" by code_simp
  from manifest_survives_crash [OF this, of Map.empty "''.tmp_ckpt_1''"] show ?thesis
    by (simp add: demo_manifest_def)
qed

end
