(* ===== verification/Loader.thy ===== *)
theory Loader
  imports Agent Checkpoint
begin

text \<open>
  The agent's loader, \<open>agent/loader/main.py\<close> and \<open>vllm_engine.py\<close>: the model store, the engines, and the
  handlers of \<open>/load\<close>, \<open>/evict\<close>, \<open>/checkpoint\<close> and \<open>/status\<close>. What PyTorch reports and what becomes of
  a vLLM engine that is started are arguments. A request to load waits for a lock in its middle, so
  other requests are served in between.
\<close>

section \<open>Engines\<close>

text \<open>The environment variables of the loader.\<close>

record settings =
  VLLM_MOCK :: bool
  VRAM_HEADROOM_MIB :: int
  DEFAULT_GPU_MEMORY_UTILIZATION :: f64
  DEFAULT_DTYPE :: string

record EngineHandle =
  e_model_name :: string
  e_repo_id :: string
  e_quantization :: "string option"
  e_gpu_memory_utilization :: f64
  e_max_model_len :: "int option"
  e_dtype :: string
  e_vram_used_mib :: int
  e_load_duration_sec :: f64

definition SUPPORTED_QUANTIZATIONS :: "string option list" where
  "SUPPORTED_QUANTIZATIONS = [None, Some ''awq'', Some ''gptq'', Some ''fp8'', Some ''squeezellm'']"

text \<open>The constructor; \<open>None\<close> where it raises \<open>EngineLoadError\<close>.\<close>

definition new_engine ::
  "string \<Rightarrow> string \<Rightarrow> string option \<Rightarrow> f64 \<Rightarrow> int option \<Rightarrow> string \<Rightarrow> EngineHandle option" where
  "new_engine model_name repo_id quantization util max_len dtype =
     (if quantization \<notin> set SUPPORTED_QUANTIZATIONS then None
      else Some \<lparr>e_model_name = model_name, e_repo_id = repo_id, e_quantization = quantization,
        e_gpu_memory_utilization = util, e_max_model_len = max_len, e_dtype = dtype,
        e_vram_used_mib = 0, e_load_duration_sec = Fin 0\<rparr>)"

text \<open>The footprints of the mock, looked up by the last part of the name without its separators.\<close>

definition MOCK_VRAM_TABLE_MIB :: "(string \<times> int) list" where
  "MOCK_VRAM_TABLE_MIB = [(''phi-3-mini'', 3800), (''llama-3-8b'', 8192), (''mistral-7b'', 7168),
     (''llama-3-70b'', 35840), (''codellama-13b'', 13312)]"

definition after_last_slash :: "string \<Rightarrow> string" where
  "after_last_slash s = rev (takeWhile (\<lambda>c. c \<noteq> CHR ''/'') (rev s))"

definition without :: "char list \<Rightarrow> string \<Rightarrow> string" where
  "without cs s = filter (\<lambda>c. c \<notin> set cs) s"

fun starts_with :: "string \<Rightarrow> string \<Rightarrow> bool" where
  "starts_with [] s \<longleftrightarrow> True"
| "starts_with (c # cs) [] \<longleftrightarrow> False"
| "starts_with (c # cs) (d # ds) \<longleftrightarrow> c = d \<and> starts_with cs ds"

fun contains :: "string \<Rightarrow> string \<Rightarrow> bool" where
  "contains sub [] \<longleftrightarrow> sub = []"
| "contains sub (c # cs) \<longleftrightarrow> starts_with sub (c # cs) \<or> contains sub cs"

definition mock_vram_for :: "string \<Rightarrow> int" where
  "mock_vram_for repo_id =
     (let key = without ''-_'' (map lower (after_last_slash repo_id)) in
      case find (\<lambda>(name, _). contains (without ''-'' name) key) MOCK_VRAM_TABLE_MIB of
        Some (_, vram) \<Rightarrow> vram
      | None \<Rightarrow> 6000)"

text \<open>
  Starting the engine. What becomes of the real one is given: a library that cannot be imported, an
  exception of vLLM, or the allocated memory before and after.
\<close>

datatype llm_start = NoLibrary | Raised string | Started int int

datatype load_failure = EngineLoadError string | ImportError

definition engine_load :: "settings \<Rightarrow> llm_start \<Rightarrow> f64 \<Rightarrow> EngineHandle \<Rightarrow> load_failure + EngineHandle" where
  "engine_load env llm secs e =
     (if VLLM_MOCK env
      then Inr (e\<lparr>e_vram_used_mib := mock_vram_for (e_repo_id e), e_load_duration_sec := secs\<rparr>)
      else case llm of
        NoLibrary \<Rightarrow> Inl ImportError
      | Raised msg \<Rightarrow> Inl (EngineLoadError msg)
      | Started before after \<Rightarrow>
          Inr (e\<lparr>e_vram_used_mib := max (after - before) 0, e_load_duration_sec := secs\<rparr>))"

section \<open>The model store\<close>

record Entry =
  en_model_name :: string
  en_engine :: EngineHandle
  en_slice_id :: "string option"

text \<open>A Python dictionary keeps the order of its keys, and the place of a key that is set again.\<close>

type_synonym store = "(string \<times> Entry) list"

fun store_add :: "Entry \<Rightarrow> store \<Rightarrow> store" where
  "store_add en [] = [(en_model_name en, en)]"
| "store_add en ((k, x) # kxs) =
     (if k = en_model_name en then (k, en) # kxs else (k, x) # store_add en kxs)"

definition store_get :: "store \<Rightarrow> string \<Rightarrow> Entry option" where
  "store_get = map_of"

definition store_remove :: "string \<Rightarrow> store \<Rightarrow> Entry option \<times> store" where
  "store_remove m st = (store_get st m, filter (\<lambda>(k, _). k \<noteq> m) st)"

definition store_names :: "store \<Rightarrow> string list" where
  "store_names st = map fst st"

definition total_vram_mib :: "store \<Rightarrow> int" where
  "total_vram_mib st = sum_list (map (\<lambda>(_, en). e_vram_used_mib (en_engine en)) st)"

definition vram_used_on_slice :: "string \<Rightarrow> store \<Rightarrow> int" where
  "vram_used_on_slice sid st =
     total_vram_mib (filter (\<lambda>(_, en). en_slice_id en = Some sid) st)"

lemma store_get_add: "store_get (store_add en st) k = (if k = en_model_name en then Some en else store_get st k)"
  by (induction st) (auto simp: store_get_def)

interpretation model_store: keyed_store en_model_name "\<lambda>en. en" store_add store_get
  by unfold_locales (rule store_get_add)

section \<open>The handlers\<close>

text \<open>
  An answer, an \<open>HTTPException\<close> with its status and what its detail says, or an exception nobody
  catches, which the server answers with 500.
\<close>

datatype detail = EngineError string
  | InsufficientVRAM string "string option" int int
  | NotLoaded string

datatype 'a answer = Reply 'a | HTTPError int detail | Unhandled

record LoadRequest =
  lq_model_name :: string
  lq_repo_id :: "string option"
  lq_quantization :: "string option"
  lq_max_model_len :: "int option"
  lq_dtype :: "string option"
  lq_slice_id :: "string option"
  lq_slice_vram_cap_mib :: "int option"

record load_answer =
  la_model_name :: string
  la_vram_used_mib :: int
  la_load_duration_sec :: f64
  la_quantization :: "string option"
  la_slice_id :: "string option"
  la_affinity_cache_hit :: bool

text \<open>What PyTorch reports: total and allocated memory in MiB, or that there is no such GPU.\<close>

type_synonym cuda = "(int \<times> int) option"

definition vram_total_free_mib :: "settings \<Rightarrow> cuda \<Rightarrow> store \<Rightarrow> int \<times> int" where
  "vram_total_free_mib env gpu st =
     (if VLLM_MOCK env then (81920, 81920 - total_vram_mib st)
      else case gpu of None \<Rightarrow> (0, 0) | Some (tot, used) \<Rightarrow> (tot, tot - used))"

text \<open>An \<open>x or y\<close> of strings takes \<open>y\<close> for an empty \<open>x\<close> as for none.\<close>

definition or_else :: "string option \<Rightarrow> string \<Rightarrow> string" where
  "or_else x y = (case x of Some s \<Rightarrow> if s = [] then y else s | None \<Rightarrow> y)"

text \<open>The headroom check; \<open>None\<close> where it lets the load pass.\<close>

definition vram_headroom_error ::
  "settings \<Rightarrow> cuda \<Rightarrow> store \<Rightarrow> string \<Rightarrow> string option \<Rightarrow> int option \<Rightarrow> detail option" where
  "vram_headroom_error env gpu st model_name slice_id cap =
     (if VLLM_MOCK env then None
      else case gpu of
        None \<Rightarrow> None
      | Some _ \<Rightarrow>
          (let (free, ctxt) = (case (slice_id, cap) of
                 (Some sid, Some c) \<Rightarrow> (c - vram_used_on_slice sid st, Some sid)
               | _ \<Rightarrow> (snd (vram_total_free_mib env gpu st), None))
           in if free < VRAM_HEADROOM_MIB env
              then Some (InsufficientVRAM model_name ctxt free (VRAM_HEADROOM_MIB env))
              else None))"

definition f64_max :: "f64 \<Rightarrow> f64 \<Rightarrow> f64" where
  "f64_max a b = (if f64_gt b a then b else a)"

definition f64_min :: "f64 \<Rightarrow> f64 \<Rightarrow> f64" where
  "f64_min a b = (if f64_gt a b then b else a)"

text \<open>
  Python divides integers to the nearest float and raises \<open>OverflowError\<close> when there is none,
  which is \<open>None\<close> here.
\<close>

definition resolve_gpu_memory_utilization ::
  "settings \<Rightarrow> cuda \<Rightarrow> store \<Rightarrow> string option \<Rightarrow> int option \<Rightarrow> f64 option" where
  "resolve_gpu_memory_utilization env gpu st slice_id cap =
     (case (slice_id, cap) of
        (Some _, Some c) \<Rightarrow>
          (let tot = fst (vram_total_free_mib env gpu st) in
           if tot \<le> 0 then Some (DEFAULT_GPU_MEMORY_UTILIZATION env)
           else case f64_round (of_int c / of_int tot) of
             Fin q \<Rightarrow> Some (f64_max (f64_round (1 / 20))
               (f64_min (f64_mult (Fin q) (f64_round (9 / 10))) (f64_round (19 / 20))))
           | _ \<Rightarrow> None)
      | _ \<Rightarrow> Some (DEFAULT_GPU_MEMORY_UTILIZATION env))"

text \<open>
  \<open>load_model\<close> up to the lock: it answers at once, or goes on with an engine to start and whether
  the weights were cached. \<open>cached\<close> says which weights are on disk.
\<close>

record pending_load =
  pl_request :: LoadRequest
  pl_engine :: EngineHandle
  pl_affinity :: bool

definition weights_cached_locally :: "settings \<Rightarrow> (string \<Rightarrow> bool) \<Rightarrow> string \<Rightarrow> bool" where
  "weights_cached_locally env cached repo_id = (\<not> VLLM_MOCK env \<and> cached repo_id)"

definition load_begin ::
  "settings \<Rightarrow> cuda \<Rightarrow> (string \<Rightarrow> bool) \<Rightarrow> LoadRequest \<Rightarrow> store \<Rightarrow> load_answer answer + pending_load" where
  "load_begin env gpu cached req st =
     (let m = lq_model_name req; sid = lq_slice_id req; cap = lq_slice_vram_cap_mib req in
      case store_get st m of
        Some en \<Rightarrow> Inl (Reply \<lparr>la_model_name = m, la_vram_used_mib = e_vram_used_mib (en_engine en),
          la_load_duration_sec = Fin 0, la_quantization = e_quantization (en_engine en),
          la_slice_id = en_slice_id en, la_affinity_cache_hit = True\<rparr>)
      | None \<Rightarrow>
          (let repo = or_else (lq_repo_id req) m in
           case vram_headroom_error env gpu st m sid cap of
             Some e \<Rightarrow> Inl (HTTPError 507 e)
           | None \<Rightarrow>
               (case resolve_gpu_memory_utilization env gpu st sid cap of
                  None \<Rightarrow> Inl Unhandled
                | Some util \<Rightarrow>
                    (case new_engine m repo (lq_quantization req) util (lq_max_model_len req)
                       (or_else (lq_dtype req) (DEFAULT_DTYPE env)) of
                       None \<Rightarrow> Inl Unhandled
                     | Some e \<Rightarrow> Inr \<lparr>pl_request = req, pl_engine = e,
                         pl_affinity = weights_cached_locally env cached repo\<rparr>))))"

text \<open>The rest of it, once the engine was started under the lock. The duration is rounded for the
  answer, by \<open>rounded\<close>.\<close>

definition load_finish ::
  "(f64 \<Rightarrow> f64) \<Rightarrow> pending_load \<Rightarrow> load_failure + EngineHandle \<Rightarrow> store \<Rightarrow> load_answer answer \<times> store" where
  "load_finish rounded p res st =
     (case res of
        Inl (EngineLoadError msg) \<Rightarrow> (HTTPError 500 (EngineError msg), st)
      | Inl ImportError \<Rightarrow> (Unhandled, st)
      | Inr e \<Rightarrow>
          (let req = pl_request p; m = lq_model_name req in
           (Reply \<lparr>la_model_name = m, la_vram_used_mib = e_vram_used_mib e,
              la_load_duration_sec = rounded (e_load_duration_sec e), la_quantization = lq_quantization req,
              la_slice_id = lq_slice_id req, la_affinity_cache_hit = pl_affinity p\<rparr>,
            store_add \<lparr>en_model_name = m, en_engine = e, en_slice_id = lq_slice_id req\<rparr> st)))"

text \<open>A load that nobody interferes with.\<close>

definition load_model ::
  "settings \<Rightarrow> cuda \<Rightarrow> (string \<Rightarrow> bool) \<Rightarrow> (f64 \<Rightarrow> f64) \<Rightarrow> llm_start \<Rightarrow> f64 \<Rightarrow> LoadRequest \<Rightarrow> store \<Rightarrow>
    load_answer answer \<times> store" where
  "load_model env gpu cached rounded llm secs req st =
     (case load_begin env gpu cached req st of
        Inl a \<Rightarrow> (a, st)
      | Inr p \<Rightarrow> load_finish rounded p (engine_load env llm secs (pl_engine p)) st)"

definition do_evict :: "string \<Rightarrow> store \<Rightarrow> int \<times> store" where
  "do_evict m st =
     (case store_remove m st of
        (None, st') \<Rightarrow> (0, st')
      | (Some en, st') \<Rightarrow> (e_vram_used_mib (en_engine en), st'))"

text \<open>The answer to an eviction: not loaded, or how much was freed.\<close>

definition evict_model :: "string \<Rightarrow> store \<Rightarrow> int option \<times> store" where
  "evict_model m st =
     (case store_get st m of
        None \<Rightarrow> (None, st)
      | Some _ \<Rightarrow> (let (freed, st') = do_evict m st in (Some freed, st')))"

text \<open>The shutdown of the application evicts what is loaded.\<close>

definition evict_all :: "store \<Rightarrow> store" where
  "evict_all st = fold (\<lambda>m s. snd (do_evict m s)) (store_names st) st"

definition manifest_of :: "Entry \<Rightarrow> f64 \<Rightarrow> RestartManifest" where
  "manifest_of en now = \<lparr>m_model_name = en_model_name en, m_repo_id = e_repo_id (en_engine en),
     m_quantization = e_quantization (en_engine en), m_slice_id = en_slice_id en,
     m_gpu_memory_utilization = e_gpu_memory_utilization (en_engine en),
     m_max_model_len = e_max_model_len (en_engine en), m_dtype = e_dtype (en_engine en), m_saved_at = now\<rparr>"

definition checkpoint_model :: "string \<Rightarrow> f64 \<Rightarrow> string \<Rightarrow> store \<Rightarrow> disk \<Rightarrow> path answer \<times> disk" where
  "checkpoint_model m now tmp st d =
     (case store_get st m of
        None \<Rightarrow> (HTTPError 404 (NotLoaded m), d)
      | Some en \<Rightarrow>
          (let man = manifest_of en now in
           (case snd (save tmp man d) of Some path \<Rightarrow> Reply path | None \<Rightarrow> Unhandled, saved tmp man d)))"

record status_answer =
  sa_loaded :: "string list"
  sa_vram_used_mib :: int
  sa_vram_total_mib :: int
  sa_vram_free_mib :: int

definition status :: "settings \<Rightarrow> cuda \<Rightarrow> store \<Rightarrow> status_answer" where
  "status env gpu st =
     (let (tot, free) = vram_total_free_mib env gpu st
      in \<lparr>sa_loaded = store_names st, sa_vram_used_mib = total_vram_mib st,
          sa_vram_total_mib = tot, sa_vram_free_mib = free\<rparr>)"

section \<open>A load on its own\<close>

text \<open>Room enough, as the comment on the check has it.\<close>

definition enough_room :: "settings \<Rightarrow> cuda \<Rightarrow> store \<Rightarrow> string option \<Rightarrow> int option \<Rightarrow> bool" where
  "enough_room env gpu st slice_id cap \<longleftrightarrow> VLLM_MOCK env \<or>
     (case gpu of None \<Rightarrow> True | Some (tot, used) \<Rightarrow>
        VRAM_HEADROOM_MIB env \<le> (case (slice_id, cap) of
          (Some sid, Some c) \<Rightarrow> c - vram_used_on_slice sid st | _ \<Rightarrow> tot - used))"

lemma vram_headroom_error_iff:
  "vram_headroom_error env gpu st m sid cap = None \<longleftrightarrow> enough_room env gpu st sid cap"
  by (auto simp: vram_headroom_error_def enough_room_def vram_total_free_mib_def Let_def
      split: option.splits prod.splits)

lemma engine_load_Inr:
  "engine_load env llm secs e = Inr e' \<Longrightarrow> e_model_name e' = e_model_name e \<and> e_repo_id e' = e_repo_id e \<and>
     e_quantization e' = e_quantization e \<and> 0 \<le> e_vram_used_mib e'"
  by (auto simp: engine_load_def mock_vram_for_def MOCK_VRAM_TABLE_MIB_def Let_def
      split: if_splits llm_start.splits)

lemma load_begin_cases:
  obtains en where "store_get st (lq_model_name req) = Some en"
      "load_begin env gpu cached req st = Inl (Reply \<lparr>la_model_name = lq_model_name req,
        la_vram_used_mib = e_vram_used_mib (en_engine en), la_load_duration_sec = Fin 0,
        la_quantization = e_quantization (en_engine en), la_slice_id = en_slice_id en,
        la_affinity_cache_hit = True\<rparr>)"
  | d where "store_get st (lq_model_name req) = None"
      "\<not> enough_room env gpu st (lq_slice_id req) (lq_slice_vram_cap_mib req)"
      "load_begin env gpu cached req st = Inl (HTTPError 507 d)"
  | "store_get st (lq_model_name req) = None"
      "enough_room env gpu st (lq_slice_id req) (lq_slice_vram_cap_mib req)"
      "lq_quantization req \<notin> set SUPPORTED_QUANTIZATIONS \<or>
       resolve_gpu_memory_utilization env gpu st (lq_slice_id req) (lq_slice_vram_cap_mib req) = None"
      "load_begin env gpu cached req st = Inl Unhandled"
  | p where "store_get st (lq_model_name req) = None"
      "enough_room env gpu st (lq_slice_id req) (lq_slice_vram_cap_mib req)"
      "load_begin env gpu cached req st = Inr p" "pl_request p = req"
      "e_model_name (pl_engine p) = lq_model_name req"
      "e_repo_id (pl_engine p) = or_else (lq_repo_id req) (lq_model_name req)"
      "e_quantization (pl_engine p) = lq_quantization req" "lq_quantization req \<in> set SUPPORTED_QUANTIZATIONS"
proof (cases "store_get st (lq_model_name req)")
  case (Some en)
  then show thesis using that(1) by (simp add: load_begin_def Let_def)
next
  case None
  let ?e = "vram_headroom_error env gpu st (lq_model_name req) (lq_slice_id req) (lq_slice_vram_cap_mib req)"
  let ?u = "resolve_gpu_memory_utilization env gpu st (lq_slice_id req) (lq_slice_vram_cap_mib req)"
  show thesis
  proof (cases ?e)
    case (Some d)
    then have "\<not> enough_room env gpu st (lq_slice_id req) (lq_slice_vram_cap_mib req)"
      using vram_headroom_error_iff [of env gpu st "lq_model_name req" "lq_slice_id req" "lq_slice_vram_cap_mib req"]
      by simp
    with None Some show thesis using that(2) [of d] by (simp add: load_begin_def Let_def)
  next
    case room: None
    then have ok: "enough_room env gpu st (lq_slice_id req) (lq_slice_vram_cap_mib req)"
      using vram_headroom_error_iff by blast
    show thesis
    proof (cases "lq_quantization req \<notin> set SUPPORTED_QUANTIZATIONS \<or> ?u = None")
      case True
      with None room have "load_begin env gpu cached req st = Inl Unhandled"
        by (auto simp: load_begin_def Let_def new_engine_def split: option.split)
      with None ok True show thesis by (intro that(3))
    next
      case False
      with None room ok show thesis
        using that(4) by (auto simp: load_begin_def Let_def new_engine_def)
    qed
  qed
qed

text \<open>
  C31. What a load comes to when nothing interferes. A model that is loaded is answered from its
  entry, whatever was asked for. Otherwise it is refused with 507 exactly when the slice, or the GPU,
  has less than the headroom left; it is answered with 200 only after its engine was started, and
  then the store has this model, on the slice of the request, with the memory the answer says, and
  all other models as before. Every failure leaves the store as it was.
\<close>

theorem load_outcome:
  assumes "load_model env gpu cached rounded llm secs req st = (a, st')"
  shows "case store_get st (lq_model_name req) of
      Some en \<Rightarrow> st' = st \<and> (\<exists>r. a = Reply r \<and> la_model_name r = lq_model_name req \<and>
        la_vram_used_mib r = e_vram_used_mib (en_engine en) \<and> la_slice_id r = en_slice_id en)
    | None \<Rightarrow>
       (enough_room env gpu st (lq_slice_id req) (lq_slice_vram_cap_mib req) \<longleftrightarrow> (\<forall>d. a \<noteq> HTTPError 507 d)) \<and>
       (case a of
          Reply r \<Rightarrow> la_model_name r = lq_model_name req \<and> la_slice_id r = lq_slice_id req \<and>
            lq_quantization req \<in> set SUPPORTED_QUANTIZATIONS \<and> 0 \<le> la_vram_used_mib r \<and>
            (\<exists>e. store_get st' (lq_model_name req) = Some \<lparr>en_model_name = lq_model_name req, en_engine = e,
                en_slice_id = lq_slice_id req\<rparr> \<and> e_vram_used_mib e = la_vram_used_mib r) \<and>
            (\<forall>k. k \<noteq> lq_model_name req \<longrightarrow> store_get st' k = store_get st k)
        | _ \<Rightarrow> st' = st)"
proof (cases rule: load_begin_cases [of st req env gpu cached])
  case (4 p)
  with assms have fin: "load_finish rounded p (engine_load env llm secs (pl_engine p)) st = (a, st')"
    by (simp add: load_model_def)
  with 4 engine_load_Inr [of env llm secs "pl_engine p"] show ?thesis
    by (auto simp: load_finish_def Let_def store_get_add split: sum.splits load_failure.splits)
qed (use assms in \<open>auto simp: load_model_def\<close>)

section \<open>Interleaved requests\<close>

text \<open>
  A load waits for the lock and starts its engine under it; an eviction looks the model up and then
  removes it. The other handlers only read the store.
\<close>

datatype load_pc = Waits pending_load | Starting pending_load | Finished "load_answer answer"

datatype evict_pc = Looked string | Evicted "int option"

record loader_run =
  rn_store :: store
  rn_lock :: "nat option"
  rn_loads :: "nat \<rightharpoonup> LoadRequest \<times> load_pc"
  rn_evicts :: "nat \<rightharpoonup> evict_pc"

definition loader_init :: loader_run where
  "loader_init = \<lparr>rn_store = [], rn_lock = None, rn_loads = Map.empty, rn_evicts = Map.empty\<rparr>"

inductive loader_step :: "settings \<Rightarrow> loader_run \<Rightarrow> loader_run \<Rightarrow> bool" for env where
  load_answered: "rn_loads s i = None \<Longrightarrow> load_begin env gpu cached req (rn_store s) = Inl a \<Longrightarrow>
    loader_step env s (s\<lparr>rn_loads := (rn_loads s)(i \<mapsto> (req, Finished a))\<rparr>)"
| load_goes_on: "rn_loads s i = None \<Longrightarrow> load_begin env gpu cached req (rn_store s) = Inr p \<Longrightarrow>
    loader_step env s (s\<lparr>rn_loads := (rn_loads s)(i \<mapsto> (req, Waits p))\<rparr>)"
| lock: "rn_loads s i = Some (req, Waits p) \<Longrightarrow> rn_lock s = None \<Longrightarrow>
    loader_step env s (s\<lparr>rn_lock := Some i, rn_loads := (rn_loads s)(i \<mapsto> (req, Starting p))\<rparr>)"
| started: "rn_loads s i = Some (req, Starting p) \<Longrightarrow>
    load_finish rounded p (engine_load env llm secs (pl_engine p)) (rn_store s) = (a, st) \<Longrightarrow>
    loader_step env s (s\<lparr>rn_store := st, rn_lock := None, rn_loads := (rn_loads s)(i \<mapsto> (req, Finished a))\<rparr>)"
| evict_looks: "rn_evicts s j = None \<Longrightarrow>
    loader_step env s (s\<lparr>rn_evicts := (rn_evicts s)(j \<mapsto>
      (case store_get (rn_store s) m of None \<Rightarrow> Evicted None | Some _ \<Rightarrow> Looked m))\<rparr>)"
| evict_removes: "rn_evicts s j = Some (Looked m) \<Longrightarrow> do_evict m (rn_store s) = (freed, st) \<Longrightarrow>
    loader_step env s (s\<lparr>rn_store := st, rn_evicts := (rn_evicts s)(j \<mapsto> Evicted (Some freed))\<rparr>)"

definition store_ok :: "store \<Rightarrow> bool" where
  "store_ok st \<longleftrightarrow> distinct (store_names st) \<and> (\<forall>(k, en) \<in> set st. en_model_name en = k \<and>
     e_model_name (en_engine en) = k \<and> e_quantization (en_engine en) \<in> set SUPPORTED_QUANTIZATIONS \<and>
     0 \<le> e_vram_used_mib (en_engine en))"

fun load_ok :: "LoadRequest \<times> load_pc \<Rightarrow> bool" where
  "load_ok (req, Finished (Reply r)) \<longleftrightarrow> la_model_name r = lq_model_name req"
| "load_ok (req, Finished _) \<longleftrightarrow> True"
| "load_ok (req, Waits p) \<longleftrightarrow> pl_request p = req \<and> e_model_name (pl_engine p) = lq_model_name req \<and>
     e_quantization (pl_engine p) \<in> set SUPPORTED_QUANTIZATIONS"
| "load_ok (req, Starting p) \<longleftrightarrow> pl_request p = req \<and> e_model_name (pl_engine p) = lq_model_name req \<and>
     e_quantization (pl_engine p) \<in> set SUPPORTED_QUANTIZATIONS"

definition lock_ok :: "(nat \<rightharpoonup> LoadRequest \<times> load_pc) \<Rightarrow> nat option \<Rightarrow> bool" where
  "lock_ok loads holder \<longleftrightarrow> (\<forall>i. (\<exists>req p. loads i = Some (req, Starting p)) \<longleftrightarrow> holder = Some i)"

definition loader_inv :: "loader_run \<Rightarrow> bool" where
  "loader_inv s \<longleftrightarrow> store_ok (rn_store s) \<and> (\<forall>i l. rn_loads s i = Some l \<longrightarrow> load_ok l) \<and>
     lock_ok (rn_loads s) (rn_lock s)"

lemma lock_ok_new: "lock_ok loads holder \<Longrightarrow> loads i = None \<Longrightarrow> \<forall>p. l \<noteq> Starting p \<Longrightarrow>
    lock_ok (loads(i \<mapsto> (req, l))) holder"
  unfolding lock_ok_def by (metis fun_upd_apply option.distinct(1) option.inject prod.inject)

lemma lock_ok_take: "lock_ok loads None \<Longrightarrow> lock_ok (loads(i \<mapsto> (req, Starting p))) (Some i)"
  by (auto simp: lock_ok_def)

lemma lock_ok_release: "lock_ok loads (Some i) \<Longrightarrow> \<forall>p. l \<noteq> Starting p \<Longrightarrow> lock_ok (loads(i \<mapsto> (req, l))) None"
  by (auto simp: lock_ok_def)

lemma lock_ok_holder: "lock_ok loads holder \<Longrightarrow> loads i = Some (req, Starting p) \<Longrightarrow> holder = Some i"
  by (auto simp: lock_ok_def)

lemma store_names_add:
  "store_names (store_add en st) =
     (if en_model_name en \<in> set (store_names st) then store_names st else store_names st @ [en_model_name en])"
proof (induction st)
  case (Cons kx st)
  then show ?case by (cases kx) (simp add: store_names_def)
qed (simp add: store_names_def)

lemma set_store_add: "set (store_add en st) \<subseteq> insert (en_model_name en, en) (set st)"
  by (induction st) (auto split: if_splits)

lemma store_ok_add:
  assumes "store_ok st" and "e_model_name (en_engine en) = en_model_name en"
    and "e_quantization (en_engine en) \<in> set SUPPORTED_QUANTIZATIONS" and "0 \<le> e_vram_used_mib (en_engine en)"
  shows "store_ok (store_add en st)"
proof -
  have "distinct (store_names (store_add en st))" using assms(1) by (auto simp: store_ok_def store_names_add)
  moreover have "en_model_name x = k \<and> e_model_name (en_engine x) = k \<and>
      e_quantization (en_engine x) \<in> set SUPPORTED_QUANTIZATIONS \<and> 0 \<le> e_vram_used_mib (en_engine x)"
    if "(k, x) \<in> set (store_add en st)" for k x
    using assms set_store_add [of en st] that by (fastforce simp: store_ok_def)
  ultimately show ?thesis by (auto simp: store_ok_def)
qed

lemma do_evict_store: "snd (do_evict m st) = filter (\<lambda>(k, _). k \<noteq> m) st"
  by (simp add: do_evict_def store_remove_def split: option.split)

lemma store_ok_do_evict: "store_ok st \<Longrightarrow> store_ok (snd (do_evict m st))"
  by (auto simp: do_evict_store store_ok_def store_names_def distinct_map intro: inj_on_subset)

lemma store_get_filter: "store_get (filter (\<lambda>(k, _). k \<noteq> m) st) k = (if k = m then None else store_get st k)"
  by (induction st) (auto simp: store_get_def)

lemma store_get_do_evict: "store_get (snd (do_evict m st)) k = (if k = m then None else store_get st k)"
  by (simp add: do_evict_store store_get_filter)

lemma load_finish_ok:
  assumes "load_finish rounded p (engine_load env llm secs (pl_engine p)) st = (a, st')"
    and "load_ok (req, Starting p)" and "store_ok st"
  shows "store_ok st'" and "load_ok (req, Finished a)"
proof -
  from assms(2) have p: "pl_request p = req" "e_model_name (pl_engine p) = lq_model_name req"
    "e_quantization (pl_engine p) \<in> set SUPPORTED_QUANTIZATIONS" by simp_all
  show "store_ok st'" "load_ok (req, Finished a)"
  proof (atomize(full), cases "engine_load env llm secs (pl_engine p)")
    case (Inl f)
    with assms(1,3) show "store_ok st' \<and> load_ok (req, Finished a)"
      by (cases f) (auto simp: load_finish_def)
  next
    case (Inr e)
    let ?en = "\<lparr>en_model_name = lq_model_name req, en_engine = e, en_slice_id = lq_slice_id req\<rparr>"
    have "store_ok (store_add ?en st)"
      using engine_load_Inr [OF Inr] p assms(3) by (intro store_ok_add) simp_all
    with assms(1) Inr p(1) show "store_ok st' \<and> load_ok (req, Finished a)"
      by (auto simp: load_finish_def Let_def)
  qed
qed

lemma loader_inv_step:
  assumes "loader_inv s" and "loader_step env s t"
  shows "loader_inv t"
proof -
  from assms(1) have st: "store_ok (rn_store s)" and loads: "\<And>i l. rn_loads s i = Some l \<Longrightarrow> load_ok l"
    and lk: "lock_ok (rn_loads s) (rn_lock s)" unfolding loader_inv_def by blast+
  show ?thesis
    using assms(2)
  proof cases
    case (load_answered i gpu cached req a)
    have "load_ok (req, Finished a)"
      using load_answered(3) by (cases rule: load_begin_cases [of "rn_store s" req env gpu cached]) auto
    with st loads lock_ok_new [OF lk load_answered(2)] load_answered(1) show ?thesis
      by (simp add: loader_inv_def del: split_paired_All)
  next
    case (load_goes_on i gpu cached req p)
    have "load_ok (req, Waits p)"
      using load_goes_on(3) by (cases rule: load_begin_cases [of "rn_store s" req env gpu cached]) auto
    with st loads lock_ok_new [OF lk load_goes_on(2)] load_goes_on(1) show ?thesis
      by (simp add: loader_inv_def del: split_paired_All)
  next
    case (lock i req p)
    from loads [OF lock(2)] have "load_ok (req, Starting p)" by simp
    with st loads lock_ok_take [of "rn_loads s" i req p] lk lock(1,3) show ?thesis
      by (simp add: loader_inv_def del: split_paired_All)
  next
    case (started i req p rounded llm secs a st')
    have "rn_lock s = Some i" by (rule lock_ok_holder [OF lk started(2)])
    with lk have "lock_ok ((rn_loads s)(i \<mapsto> (req, Finished a))) None" by (simp add: lock_ok_release)
    with load_finish_ok [OF started(3) loads [OF started(2)] st] loads started(1) show ?thesis
      by (simp add: loader_inv_def del: split_paired_All)
  next
    case (evict_looks j m)
    with assms(1) show ?thesis by (simp add: loader_inv_def)
  next
    case (evict_removes j m freed st')
    then have "st' = snd (do_evict m (rn_store s))" by simp
    with assms(1) evict_removes(1) store_ok_do_evict show ?thesis by (simp add: loader_inv_def)
  qed
qed

interpretation loader_runs: invariant_system "\<lambda>s. s = loader_init" "loader_step env" loader_inv
proof unfold_locales
  show "loader_inv s" if "s = loader_init" for s
    using that by (simp add: loader_inv_def loader_init_def store_ok_def store_names_def lock_ok_def)
qed (rule loader_inv_step)

lemma sum_filter_le:
  "\<forall>(k, en) \<in> set st. 0 \<le> e_vram_used_mib (en_engine en) \<Longrightarrow>
     total_vram_mib (filter P st) \<le> total_vram_mib st"
  by (induction st) (auto simp: total_vram_mib_def)

text \<open>
  C30. The loader's books in every interleaving of loads and evictions: no two engines are being
  started at the same time, and a load that waits can go on as soon as the one that starts is done;
  a model has one entry, under its own name, with an engine of that model in a quantization vLLM
  knows; the memory booked on a slice is part of the total; and a load answered with 200 names the
  model it was for.
\<close>

theorem loader_keeps_books:
  assumes "(loader_step env)\<^sup>*\<^sup>* loader_init s"
  shows "(\<forall>i j req p req' p'. rn_loads s i = Some (req, Starting p) \<and> rn_loads s j = Some (req', Starting p') \<longrightarrow> i = j) \<and>
    (\<forall>i req p. rn_loads s i = Some (req, Waits p) \<longrightarrow>
      rn_lock s = None \<or> (\<exists>j req' p'. rn_lock s = Some j \<and> rn_loads s j = Some (req', Starting p'))) \<and>
    distinct (store_names (rn_store s)) \<and>
    (\<forall>m en. store_get (rn_store s) m = Some en \<longrightarrow> en_model_name en = m \<and> e_model_name (en_engine en) = m \<and>
      e_quantization (en_engine en) \<in> set SUPPORTED_QUANTIZATIONS) \<and>
    (\<forall>sid. vram_used_on_slice sid (rn_store s) \<le> total_vram_mib (rn_store s)) \<and>
    (\<forall>i req r. rn_loads s i = Some (req, Finished (Reply r)) \<longrightarrow> la_model_name r = lq_model_name req)"
proof -
  have "loader_inv s" by (rule loader_runs.reachable_inv [OF refl assms])
  then have st: "store_ok (rn_store s)" and loads: "\<And>i l. rn_loads s i = Some l \<Longrightarrow> load_ok l"
    and lock: "\<And>i. (\<exists>req p. rn_loads s i = Some (req, Starting p)) \<longleftrightarrow> rn_lock s = Some i"
    unfolding loader_inv_def lock_ok_def by blast+
  have "en_model_name en = m \<and> e_model_name (en_engine en) = m \<and>
      e_quantization (en_engine en) \<in> set SUPPORTED_QUANTIZATIONS" if "store_get (rn_store s) m = Some en" for m en
    using map_of_SomeD [OF that [unfolded store_get_def]] st by (auto simp: store_ok_def)
  moreover have "vram_used_on_slice sid (rn_store s) \<le> total_vram_mib (rn_store s)" for sid
    using st by (auto simp: vram_used_on_slice_def store_ok_def intro!: sum_filter_le)
  moreover have "la_model_name r = lq_model_name req"
    if "rn_loads s i = Some (req, Finished (Reply r))" for i req r using loads [OF that] by simp
  moreover have "rn_lock s = None \<or> (\<exists>j req' p'. rn_lock s = Some j \<and> rn_loads s j = Some (req', Starting p'))"
    using lock by (cases "rn_lock s") auto
  moreover have "i = j" if "rn_loads s i = Some (req, Starting p)" "rn_loads s j = Some (req', Starting p')"
    for i j req p req' p' using lock [of i] lock [of j] that by auto
  ultimately show ?thesis using st by (simp add: store_ok_def)
qed

section \<open>Concrete runs\<close>

definition demo_env :: settings where
  "demo_env = \<lparr>VLLM_MOCK = False, VRAM_HEADROOM_MIB = 2048,
     DEFAULT_GPU_MEMORY_UTILIZATION = f64_round (17 / 20), DEFAULT_DTYPE = ''bfloat16''\<rparr>"

definition demo_load :: "string \<Rightarrow> string option \<Rightarrow> LoadRequest" where
  "demo_load m q = \<lparr>lq_model_name = m, lq_repo_id = None, lq_quantization = q, lq_max_model_len = None,
     lq_dtype = None, lq_slice_id = Some ''0/0/0'', lq_slice_vram_cap_mib = Some 20480\<rparr>"

abbreviation demo_cuda :: cuda where
  "demo_cuda \<equiv> Some (81920, 0)"

definition demo_pending :: "string \<Rightarrow> pending_load" where
  "demo_pending m = (case load_begin demo_env demo_cuda (\<lambda>_. False) (demo_load m None) [] of Inr p \<Rightarrow> p)"

definition demo_entry :: "string \<Rightarrow> Entry" where
  "demo_entry m = \<lparr>en_model_name = m,
     en_engine = (pl_engine (demo_pending m))\<lparr>e_vram_used_mib := 19000, e_load_duration_sec := Fin 8\<rparr>,
     en_slice_id = Some ''0/0/0''\<rparr>"

lemma demo_begin: "load_begin demo_env demo_cuda (\<lambda>_. False) (demo_load m None) [] = Inr (demo_pending m)"
  and demo_pending_request: "pl_request (demo_pending m) = demo_load m None"
proof -
  have "\<exists>p. load_begin demo_env demo_cuda (\<lambda>_. False) (demo_load m None) [] = Inr p \<and> pl_request p = demo_load m None"
  proof -
    have "enough_room demo_env demo_cuda [] (Some ''0/0/0'') (Some 20480)" by code_simp
    moreover have "resolve_gpu_memory_utilization demo_env demo_cuda [] (Some ''0/0/0'') (Some 20480) \<noteq> None" by code_simp
    ultimately show ?thesis
      by (cases rule: load_begin_cases [of "[]" "demo_load m None" demo_env demo_cuda "\<lambda>_. False"])
        (auto simp: demo_load_def store_get_def SUPPORTED_QUANTIZATIONS_def)
  qed
  then show "load_begin demo_env demo_cuda (\<lambda>_. False) (demo_load m None) [] = Inr (demo_pending m)"
    "pl_request (demo_pending m) = demo_load m None" by (auto simp: demo_pending_def)
qed

definition demo_answer :: "string \<Rightarrow> load_answer answer" where
  "demo_answer m = Reply \<lparr>la_model_name = m, la_vram_used_mib = 19000, la_load_duration_sec = Fin 8,
     la_quantization = None, la_slice_id = Some ''0/0/0'', la_affinity_cache_hit = pl_affinity (demo_pending m)\<rparr>"

lemma demo_finish:
  "load_finish (\<lambda>x. x) (demo_pending m) (engine_load demo_env (Started 0 19000) (Fin 8) (pl_engine (demo_pending m))) st =
     (demo_answer m, store_add (demo_entry m) st)"
  by (simp add: load_finish_def engine_load_def demo_env_def demo_pending_request Let_def demo_entry_def demo_answer_def)
    (simp add: demo_load_def)

text \<open>
  Two loads that arrive before either has started its engine. Both look at the store and at the
  memory before they take the lock.
\<close>

definition loading :: "string \<Rightarrow> string \<Rightarrow> nat \<Rightarrow> loader_run" where
  "loading m1 m2 k = \<lparr>rn_store = (if k < 4 then [] else if k < 6 then store_add (demo_entry m1) []
       else store_add (demo_entry m2) (store_add (demo_entry m1) [])),
     rn_lock = (if k = 3 then Some 1 else if k = 5 then Some 2 else None),
     rn_loads = (\<lambda>i.
       if i = 1 \<and> 1 \<le> k then Some (demo_load m1 None,
         if k < 3 then Waits (demo_pending m1) else if k = 3 then Starting (demo_pending m1)
         else Finished (demo_answer m1))
       else if i = 2 \<and> 2 \<le> k then Some (demo_load m2 None,
         if k < 5 then Waits (demo_pending m2) else if k = 5 then Starting (demo_pending m2)
         else Finished (demo_answer m2))
       else None),
     rn_evicts = Map.empty\<rparr>"

lemma loading_steps: "(loader_step demo_env)\<^sup>*\<^sup>* loader_init (loading m1 m2 6)"
proof -
  let ?f = "loading m1 m2" and ?c = "\<lambda>_ :: string. False"
  have "?f 0 = loader_init" by (simp add: loading_def loader_init_def fun_eq_iff)
  moreover have "loader_step demo_env (?f 0) (?f 1)"
  proof -
    have eq: "?f 1 = (?f 0)\<lparr>rn_loads := (rn_loads (?f 0))(1 \<mapsto> (demo_load m1 None, Waits (demo_pending m1)))\<rparr>"
      by (simp add: loading_def fun_eq_iff)
    show ?thesis unfolding eq
      by (rule loader_step.load_goes_on [where gpu = demo_cuda and cached = ?c]) (simp_all add: loading_def demo_begin demo_finish)
  qed
  moreover have "loader_step demo_env (?f 1) (?f 2)"
  proof -
    have eq: "?f 2 = (?f 1)\<lparr>rn_loads := (rn_loads (?f 1))(2 \<mapsto> (demo_load m2 None, Waits (demo_pending m2)))\<rparr>"
      by (simp add: loading_def fun_eq_iff)
    show ?thesis unfolding eq
      by (rule loader_step.load_goes_on [where gpu = demo_cuda and cached = ?c]) (simp_all add: loading_def demo_begin demo_finish)
  qed
  moreover have "loader_step demo_env (?f 2) (?f 3)"
  proof -
    have eq: "?f 3 = (?f 2)\<lparr>rn_lock := Some 1, rn_loads := (rn_loads (?f 2))(1 \<mapsto> (demo_load m1 None, Starting (demo_pending m1)))\<rparr>"
      by (simp add: loading_def fun_eq_iff)
    show ?thesis unfolding eq
      by (rule loader_step.lock) (simp_all add: loading_def demo_begin demo_finish)
  qed
  moreover have "loader_step demo_env (?f 3) (?f 4)"
  proof -
    have eq: "?f 4 = (?f 3)\<lparr>rn_store := store_add (demo_entry m1) [], rn_lock := None, rn_loads := (rn_loads (?f 3))(1 \<mapsto> (demo_load m1 None, Finished (demo_answer m1)))\<rparr>"
      by (simp add: loading_def fun_eq_iff)
    show ?thesis unfolding eq
      by (rule loader_step.started [where rounded = "\<lambda>x. x" and llm = "Started 0 19000" and secs = "Fin 8" and p = "demo_pending m1"]) (simp_all add: loading_def demo_begin demo_finish)
  qed
  moreover have "loader_step demo_env (?f 4) (?f 5)"
  proof -
    have eq: "?f 5 = (?f 4)\<lparr>rn_lock := Some 2, rn_loads := (rn_loads (?f 4))(2 \<mapsto> (demo_load m2 None, Starting (demo_pending m2)))\<rparr>"
      by (simp add: loading_def fun_eq_iff)
    show ?thesis unfolding eq
      by (rule loader_step.lock) (simp_all add: loading_def demo_begin demo_finish)
  qed
  moreover have "loader_step demo_env (?f 5) (?f 6)"
  proof -
    have eq: "?f 6 = (?f 5)\<lparr>rn_store := store_add (demo_entry m2) (store_add (demo_entry m1) []), rn_lock := None, rn_loads := (rn_loads (?f 5))(2 \<mapsto> (demo_load m2 None, Finished (demo_answer m2)))\<rparr>"
      by (simp add: loading_def fun_eq_iff)
    show ?thesis unfolding eq
      by (rule loader_step.started [where rounded = "\<lambda>x. x" and llm = "Started 0 19000" and secs = "Fin 8" and p = "demo_pending m2"]) (simp_all add: loading_def demo_begin demo_finish)
  qed
  ultimately show ?thesis by (metis rtranclp.rtrancl_into_rtrancl rtranclp.rtrancl_refl)
qed

text \<open>
  The check does not hold what the lock is there for: two models loaded at once both pass it and
  overfill their slice, which refuses the second when it comes after the first.
\<close>

lemma concurrent_loads_overcommit:
  "vram_used_on_slice ''0/0/0'' (rn_store (loading ''x'' ''y'' 6)) = 38000"
  "fst (load_model demo_env demo_cuda (\<lambda>_. False) (\<lambda>x. x) (Started 0 19000) (Fin 8) (demo_load ''y'' None)
     (rn_store (loading ''x'' ''y'' 4))) = HTTPError 507 (InsufficientVRAM ''y'' (Some ''0/0/0'') 1480 2048)"
  by (simp_all add: loading_def demo_entry_def vram_used_on_slice_def total_vram_mib_def load_model_def
      load_begin_def demo_load_def store_get_def vram_headroom_error_def demo_env_def)

text \<open>Two loads of one model start an engine each, and the entry of the first is replaced unevicted.\<close>

lemma concurrent_loads_start_twice:
  "\<exists>r r'. rn_loads (loading ''x'' ''x'' 6) 1 = Some (demo_load ''x'' None, Finished (Reply r)) \<and>
     rn_loads (loading ''x'' ''x'' 6) 2 = Some (demo_load ''x'' None, Finished (Reply r')) \<and>
     la_vram_used_mib r + la_vram_used_mib r' = 38000 \<and> total_vram_mib (rn_store (loading ''x'' ''x'' 6)) = 19000"
  by (simp add: loading_def demo_answer_def demo_entry_def total_vram_mib_def)

text \<open>
  An unsupported quantization is not reported: the engine's constructor raises outside the \<open>try\<close> that
  turns the error into an answer.
\<close>

lemma unsupported_quantization_unhandled:
  "load_model demo_env demo_cuda (\<lambda>_. False) (\<lambda>x. x) (Started 0 19000) (Fin 8) (demo_load ''x'' (Some ''int8'')) [] =
     (Unhandled, [])"
  by code_simp

theorem load_outcome_witness:
  "\<not> enough_room demo_env demo_cuda (rn_store (loading ''x'' ''y'' 4)) (Some ''0/0/0'') (Some 20480)"
proof -
  let ?st = "rn_store (loading ''x'' ''y'' 4)"
  note out = load_outcome [OF prod.collapse [symmetric], where env = demo_env and gpu = demo_cuda and
      cached = "\<lambda>_. False" and rounded = "\<lambda>x. x" and llm = "Started 0 19000" and secs = "Fin 8" and
      req = "demo_load ''y'' None" and st = ?st]
  have "store_get ?st ''y'' = None" "lq_model_name (demo_load ''y'' None) = ''y''"
    by (simp_all add: loading_def demo_entry_def store_get_def demo_load_def)
  with out concurrent_loads_overcommit(2) show ?thesis by (simp add: demo_load_def)
qed

theorem loader_keeps_books_witness:
  "distinct (store_names (rn_store (loading ''x'' ''y'' 6))) \<and>
   vram_used_on_slice ''0/0/0'' (rn_store (loading ''x'' ''y'' 6)) \<le> total_vram_mib (rn_store (loading ''x'' ''y'' 6))"
  using loader_keeps_books [OF loading_steps] by blast

end
