(* ===== verification/Full_Loop.thy ===== *)
theory Full_Loop
  imports Closed_Loop Loader
begin

text \<open>
  Scheduler, agent and loader together: the answers of the agent's loader are those of the loader's
  own handlers on its store. With the synthetic engines of \<open>VLLM_MOCK\<close> nothing is left open, and the
  loop of scheduler and agent closes without an assumption on the loader.
\<close>

section \<open>The agent calls the loader\<close>

text \<open>
  What a call meets besides the store: the GPU and the disk cache, what becomes of an engine, the
  clock, the name of a temporary directory, and how errors and durations are written.
\<close>

record call_env =
  ce_cuda :: cuda
  ce_cached :: "string \<Rightarrow> bool"
  ce_rounded :: "f64 \<Rightarrow> f64"
  ce_llm :: llm_start
  ce_secs :: f64
  ce_now :: f64
  ce_tmp :: string
  ce_load_error :: "load_answer answer \<Rightarrow> string"
  ce_checkpoint_error :: "path answer \<Rightarrow> string"
  ce_path :: "path \<Rightarrow> string"

definition agent_request :: "string \<Rightarrow> string option \<Rightarrow> string option \<Rightarrow> u64 option \<Rightarrow> LoadRequest" where
  "agent_request m quant sid cap = \<lparr>lq_model_name = m, lq_repo_id = None, lq_quantization = quant,
     lq_max_model_len = None, lq_dtype = None, lq_slice_id = sid,
     lq_slice_vram_cap_mib = map_option uint cap\<rparr>"

text \<open>Sizes cross to the agent as \<open>u64\<close>; an answer with another one cannot be read.\<close>

definition u64_range :: "int \<Rightarrow> bool" where
  "u64_range n \<longleftrightarrow> 0 \<le> n \<and> n < 2 ^ 64"

definition load_result :: "call_env \<Rightarrow> load_answer answer \<Rightarrow> string + LoadResponse" where
  "load_result ce a =
     (case a of
        Reply r \<Rightarrow>
          if u64_range (la_vram_used_mib r)
          then Inr \<lparr>lr_model_name = la_model_name r, lr_vram_used_mib = word_of_int (la_vram_used_mib r),
            lr_load_duration_sec = la_load_duration_sec r, lr_affinity_cache_hit = la_affinity_cache_hit r\<rparr>
          else Inl (ce_load_error ce a)
      | _ \<Rightarrow> Inl (ce_load_error ce a))"

definition call_load :: "settings \<Rightarrow> call_env \<Rightarrow> LoadRequest \<Rightarrow> store \<Rightarrow> load_answer answer \<times> store" where
  "call_load env ce req st =
     load_model env (ce_cuda ce) (ce_cached ce) (ce_rounded ce) (ce_llm ce) (ce_secs ce) req st"

definition loader_of :: "settings \<Rightarrow> call_env \<Rightarrow> store \<Rightarrow> disk \<Rightarrow> loader" where
  "loader_of env ce st d =
     \<lparr>ld_load = (\<lambda>m quant sid cap. load_result ce (fst (call_load env ce (agent_request m quant sid cap) st))),
      ld_evict = (\<lambda>m. Inr ()),
      ld_checkpoint = (\<lambda>m. case fst (checkpoint_model m (ce_now ce) (ce_tmp ce) st d) of
        Reply path \<Rightarrow> Inr (ce_path ce path) | a \<Rightarrow> Inl (ce_checkpoint_error ce a))\<rparr>"

text \<open>What a command does to the loader.\<close>

definition loader_after :: "settings \<Rightarrow> call_env \<Rightarrow> AgentCommand \<Rightarrow> HeartbeatPayload \<Rightarrow> store \<times> disk \<Rightarrow> store \<times> disk" where
  "loader_after env ce cmd p = (\<lambda>(st, d).
     (let m = cmd_model_name cmd;
          cap = (case cmd_slice_id cmd of None \<Rightarrow> None | Some sid \<Rightarrow> resolve_slice_vram_cap sid p)
      in if cmd_action cmd = ''PREWARM''
         then (snd (call_load env ce (agent_request m (cmd_quantization cmd) (cmd_slice_id cmd) cap) st), d)
         else if cmd_action cmd = ''EVICT'' then (snd (evict_model m st), d)
         else if cmd_action cmd = ''CHECKPOINT'' then (st, snd (checkpoint_model m (ce_now ce) (ce_tmp ce) st d))
         else (st, d)))"

text \<open>A command that arrives at the agent, and its effect on agent and loader.\<close>

fun deliver :: "settings \<Rightarrow> call_env \<times> string \<Rightarrow> HeartbeatPayload \<times> store \<times> disk \<Rightarrow> HeartbeatPayload \<times> store \<times> disk" where
  "deliver env (ce, body) (p, st, d) =
     (case read_command body of
        None \<Rightarrow> (p, st, d)
      | Some cmd \<Rightarrow> (fst (handle_command (loader_of env ce st d) cmd p), loader_after env ce cmd p (st, d)))"

text \<open>The status the agent fetches for a heartbeat; it cannot read one with a negative size.\<close>

definition fetch_loader_status :: "settings \<Rightarrow> cuda \<Rightarrow> store \<Rightarrow> LoaderStatus option" where
  "fetch_loader_status env gpu st =
     (let s = status env gpu st in
      if u64_range (sa_vram_used_mib s) \<and> u64_range (sa_vram_total_mib s) \<and> u64_range (sa_vram_free_mib s)
      then Some \<lparr>ls_loaded = sa_loaded s, ls_vram_used_mib = word_of_int (sa_vram_used_mib s),
        ls_vram_total_mib = word_of_int (sa_vram_total_mib s), ls_vram_free_mib = word_of_int (sa_vram_free_mib s)\<rparr>
      else None)"

section \<open>Synthetic engines\<close>

text \<open>The share of a slice is a float: it cannot overflow.\<close>

lemma f64_round_finite:
  assumes "0 \<le> q" and "q < 2 powi 64"
  shows "\<exists>r. f64_round q = Fin r"
proof (cases "q = 0")
  case True
  then show ?thesis by (simp add: f64_round_def rnd_def)
next
  case False
  with assms(1) have q: "0 < q" by simp
  have "ilog2 q < 64" using ilog2_less [OF q assms(2)] .
  then have "ulp_exp q \<le> 11" by (simp add: ulp_exp_def)
  then have "(2 :: rat) powi (ulp_exp q + 53) \<le> 2 powi 64" by (intro powi_2_mono) simp
  with rnd_pos_upper [OF q] have "rnd q \<le> 2 powi 64" using q by (simp add: rnd_def)
  also have "(2 :: rat) powi 64 < 2 powi 65" by (simp only: powi_2_less)
  finally have small: "rnd q < 2 powi 65" .
  have "0 \<le> rnd q" using rnd_pos_nonneg [OF q] q by (simp add: rnd_def)
  with small ilog2_less [of "rnd q" 65] have "rnd q = 0 \<or> ilog2 \<bar>rnd q\<bar> < 1024"
    by (cases "rnd q = 0") auto
  then show ?thesis by (auto simp: f64_round_def Let_def)
qed

lemma utilization_defined:
  assumes "VLLM_MOCK env"
  shows "resolve_gpu_memory_utilization env gpu st sid (map_option uint (cap :: u64 option)) \<noteq> None"
proof -
  have "\<exists>r. f64_round (of_int (uint c) / 81920) = Fin r" for c :: u64
  proof (rule f64_round_finite)
    have nonneg: "(0 :: rat) \<le> of_int (uint c)" by (subst of_int_0_le_iff) (rule uint_ge_0)
    then show "(0 :: rat) \<le> of_int (uint c) / 81920" by (rule divide_nonneg_nonneg) simp
    have "(of_int (uint c) :: rat) / 81920 \<le> of_int (uint c) / 1" using nonneg by (intro divide_left_mono) simp_all
    also have "\<dots> < of_int (2 ^ 64)" using uint_bounded [of c] by (simp only: div_by_1 of_int_less_iff) simp
    finally show "(of_int (uint c) :: rat) / 81920 < 2 powi 64" by simp
  qed
  note fin = this
  show ?thesis
  proof (cases cap)
    case (Some c)
    obtain r where "f64_round (of_int (uint c) / 81920) = Fin r" using fin by blast
    with Some assms show ?thesis
      by (cases sid) (simp_all add: resolve_gpu_memory_utilization_def vram_total_free_mib_def Let_def)
  qed (simp add: resolve_gpu_memory_utilization_def split: option.split)
qed

text \<open>A store that was filled by synthetic engines.\<close>

definition synthetic :: "store \<Rightarrow> bool" where
  "synthetic st \<longleftrightarrow> store_ok st \<and> (\<forall>(k, en) \<in> set st. e_vram_used_mib (en_engine en) \<le> 35840)"

lemma mock_vram_bounds: "0 \<le> mock_vram_for repo" "mock_vram_for repo \<le> 35840"
  by (auto simp: mock_vram_for_def MOCK_VRAM_TABLE_MIB_def Let_def split: if_splits)

lemma synthetic_get:
  assumes "synthetic st" and "store_get st m = Some en"
  shows "0 \<le> e_vram_used_mib (en_engine en) \<and> e_vram_used_mib (en_engine en) \<le> 35840"
  using assms map_of_SomeD [of st m en] by (auto simp: synthetic_def store_ok_def store_get_def)

lemma set_store_names: "set (store_names st) = dom (store_get st)"
  by (simp add: store_names_def store_get_def dom_map_of_conv_image_fst)

lemma mock_load:
  assumes "VLLM_MOCK env" and st: "synthetic st"
  obtains r where "load_result ce (fst (call_load env ce (agent_request m None sid cap) st)) = Inr r"
    "lr_model_name r = m" "synthetic (snd (call_load env ce (agent_request m None sid cap) st))"
    "set (store_names (snd (call_load env ce (agent_request m None sid cap) st))) = insert m (set (store_names st))"
proof -
  let ?req = "agent_request m None sid cap"
  show thesis
  proof (cases rule: load_begin_cases [of st ?req env "ce_cuda ce" "ce_cached ce"])
    case (1 en)
    with that synthetic_get [OF st 1(1)] st show thesis
      by (auto simp: call_load_def load_model_def load_result_def u64_range_def agent_request_def
          set_store_names insert_absorb)
  next
    case (2 d)
    with assms(1) show thesis by (simp add: enough_room_def)
  next
    case 3
    with utilization_defined [OF assms(1), of "ce_cuda ce" st sid cap] show thesis
      by (simp add: agent_request_def SUPPORTED_QUANTIZATIONS_def)
  next
    case (4 p)
    let ?e = "(pl_engine p)\<lparr>e_vram_used_mib := mock_vram_for (e_repo_id (pl_engine p)), e_load_duration_sec := ce_secs ce\<rparr>"
    let ?en = "\<lparr>en_model_name = m, en_engine = ?e, en_slice_id = sid\<rparr>"
    have load: "call_load env ce ?req st = (Reply \<lparr>la_model_name = m, la_vram_used_mib = e_vram_used_mib ?e,
        la_load_duration_sec = ce_rounded ce (ce_secs ce), la_quantization = None, la_slice_id = sid,
        la_affinity_cache_hit = pl_affinity p\<rparr>, store_add ?en st)"
      using 4 assms(1) by (simp add: call_load_def load_model_def load_finish_def engine_load_def Let_def)
        (simp add: agent_request_def)
    have "store_ok (store_add ?en st)"
      using 4 st mock_vram_bounds by (intro store_ok_add) (simp_all add: synthetic_def agent_request_def)
    moreover have "(k, x) \<in> set (store_add ?en st) \<Longrightarrow> e_vram_used_mib (en_engine x) \<le> 35840" for k x
      using set_store_add [of ?en st] st mock_vram_bounds by (fastforce simp: synthetic_def)
    ultimately have "synthetic (store_add ?en st)" by (auto simp: synthetic_def)
    moreover have "set (store_names (store_add ?en st)) = insert m (set (store_names st))"
      by (auto simp: store_names_add)
    ultimately show thesis
      using that load mock_vram_bounds [of "e_repo_id (pl_engine p)"]
      by (simp add: load_result_def u64_range_def)
  qed
qed

lemma mock_evict:
  assumes "synthetic st"
  shows "synthetic (snd (evict_model m st))" "set (store_names (snd (evict_model m st))) = set (store_names st) - {m}"
proof -
  have "snd (evict_model m st) = (if store_get st m = None then st else snd (do_evict m st))"
    by (auto simp: evict_model_def split: option.splits prod.splits)
  moreover have "synthetic (snd (do_evict m st))"
    using assms store_ok_do_evict by (auto simp: synthetic_def do_evict_store)
  ultimately show "synthetic (snd (evict_model m st))"
    "set (store_names (snd (evict_model m st))) = set (store_names st) - {m}"
    using assms by (auto simp: set_store_names store_get_do_evict dom_def)
qed

section \<open>A round with the loader\<close>

text \<open>One command of a pass: the agent books it, and the loader has done it.\<close>

lemma deliver_command:
  assumes "VLLM_MOCK env" and "synthetic st" and "ascii sid" and "ascii m"
  shows "\<exists>st'. deliver env (ce, marshal_command (command load sid m)) (p, st, d) =
      ((if load then mark_loaded (none_if_empty sid) m p else mark_evicted (none_if_empty sid) m p), st', d) \<and>
    synthetic st' \<and> set (store_names st') = (if load then insert m (set (store_names st)) else set (store_names st) - {m})"
proof -
  have c: "command_ascii (command load sid m)"
    using assms by (simp add: command_ascii_def command_def ascii_def)
  show ?thesis
  proof (cases load)
    case True
    let ?cap = "case none_if_empty sid of None \<Rightarrow> None | Some sid \<Rightarrow> resolve_slice_vram_cap sid p"
    obtain r where r: "load_result ce (fst (call_load env ce (agent_request m None (none_if_empty sid) ?cap) st)) = Inr r"
      "lr_model_name r = m" "synthetic (snd (call_load env ce (agent_request m None (none_if_empty sid) ?cap) st))"
      "set (store_names (snd (call_load env ce (agent_request m None (none_if_empty sid) ?cap) st))) = insert m (set (store_names st))"
      by (rule mock_load [OF assms(1,2)])
    show ?thesis
      using True r read_marshal [OF c]
      by (simp add: agent_view_def command_def handle_command_def loader_after_def loader_of_def Let_def
          none_if_empty_def [of "[]"])
  next
    case False
    then show ?thesis
      using mock_evict [OF assms(2), of m] read_marshal [OF c]
      by (simp add: agent_view_def command_def handle_command_def loader_after_def loader_of_def Let_def
          none_if_empty_def [of "[]"])
  qed
qed

definition obedient :: loader where
  "obedient = \<lparr>ld_load = (\<lambda>m q s cap. Inr \<lparr>lr_model_name = m, lr_vram_used_mib = 0,
       lr_load_duration_sec = Fin 0, lr_affinity_cache_hit = False\<rparr>),
     ld_evict = (\<lambda>m. Inr ()), ld_checkpoint = (\<lambda>m. Inl [])\<rparr>"

lemma willing_obedient: "willing obedient"
  by (simp add: willing_def obedient_def)

lemma receive_obedient:
  assumes "ascii sid" and "ascii m"
  shows "receive obedient (marshal_command (command load sid m)) p =
    (if load then mark_loaded (none_if_empty sid) m p else mark_evicted (none_if_empty sid) m p)"
proof -
  have "command_ascii (command load sid m)"
    using assms by (simp add: command_ascii_def command_def ascii_def)
  from read_marshal [OF this] show ?thesis
    by (simp add: receive_def agent_view_def command_def handle_command_def obedient_def Let_def
        none_if_empty_def [of "[]"])
qed

text \<open>
  The places of a GPU, its slices or the whole of it, and what the agent has on its books there. The
  store agrees with the agent when it has an engine for every model on the books, and for no other.
\<close>

definition places :: "HeartbeatPayload \<Rightarrow> string set" where
  "places p = (if hp_mig_enabled p \<and> hp_mig_slices p \<noteq> [] then set (map as_slice_id (hp_mig_slices p)) else {[]})"

definition on_books :: "HeartbeatPayload \<Rightarrow> string \<Rightarrow> string set" where
  "on_books p sid = (case held p sid of None \<Rightarrow> {} | Some S \<Rightarrow> S)"

definition store_agrees :: "HeartbeatPayload \<Rightarrow> store \<Rightarrow> bool" where
  "store_agrees p st \<longleftrightarrow> set (store_names st) = (\<Union>sid \<in> places p. on_books p sid)"

text \<open>
  The loader knows a model once, whatever slices it was loaded for. So no model may be loaded or wanted
  on two slices of a GPU.
\<close>

definition wanted :: "Reconciler \<Rightarrow> HeartbeatPayload \<Rightarrow> string \<Rightarrow> string set" where
  "wanted r p sid = on_books p sid \<union>
     (case desired r (sliceKey (hp_node_id p) (hp_gpu_id p) sid) of None \<Rightarrow> {} | Some D \<Rightarrow> D)"

definition kept_apart :: "Reconciler \<Rightarrow> HeartbeatPayload \<Rightarrow> bool" where
  "kept_apart r p \<longleftrightarrow> (\<forall>sid \<in> places p. \<forall>sid' \<in> places p. sid \<noteq> sid' \<longrightarrow> wanted r p sid \<inter> wanted r p sid' = {})"

lemma places_shape:
  assumes "shape q = shape p"
  shows "places q = places p"
proof -
  have ids: "map as_slice_id (hp_mig_slices q) = map as_slice_id (hp_mig_slices p)"
    using assms by (rule slice_ids_shape)
  then have "hp_mig_slices q = [] \<longleftrightarrow> hp_mig_slices p = []" by (metis map_is_Nil_conv)
  moreover have "hp_mig_enabled q = hp_mig_enabled p" using assms by (simp add: shape_def)
  ultimately show ?thesis using ids by (simp only: places_def)
qed

lemma on_books_held: "held p sid = Some S \<Longrightarrow> on_books p sid = S"
  by (simp add: on_books_def)

lemma find_slice_there: "sid \<in> as_slice_id ` set ss \<Longrightarrow> find_slice sid ss \<noteq> None"
  by (induction ss) auto

lemma held_place: "sid \<in> places p \<Longrightarrow> held p sid = Some (on_books p sid)"
  using find_slice_there [of sid "hp_mig_slices p"]
  by (auto simp: places_def on_books_def held_def split: if_splits option.splits)

lemma unit_place:
  assumes "payload_wf p" and "(sid, loaded) \<in> units_of (reported_node t p)"
  shows "sid \<in> places p" and "on_books p sid = set loaded"
  using assms(2) unit_held [OF assms] by (auto simp: places_def on_books_def units_reported split: if_splits)

lemma place_named: "payload_wf p \<Longrightarrow> hp_mig_enabled p \<and> hp_mig_slices p \<noteq> [] \<Longrightarrow> sid \<in> places p \<Longrightarrow> sid \<noteq> []"
  by (metis payload_wf_def places_def)

text \<open>The agent's payload is that of an agent with an obedient loader, and the books agree.\<close>

lemma deliver_round:
  assumes "VLLM_MOCK env"
    and apart: "\<And>sid sid'. sid \<in> P \<Longrightarrow> sid' \<in> P \<Longrightarrow> sid \<noteq> sid' \<Longrightarrow> W sid \<inter> W sid' = {}"
    and "\<forall>b \<in> set (map snd calls). \<exists>load sid m. b = marshal_command (command load sid m) \<and> ascii sid \<and> ascii m \<and>
      sid \<in> P \<and> m \<in> W sid"
    and "synthetic st" and "store_agrees p st" and "places p = P" and "\<forall>sid \<in> P. on_books p sid \<subseteq> W sid"
  shows "\<exists>st'. fold (deliver env) calls (p, st, d) = (fold (receive obedient) (map snd calls) p, st', d) \<and>
    synthetic st' \<and> store_agrees (fold (receive obedient) (map snd calls) p) st' \<and>
    (\<forall>sid \<in> P. on_books (fold (receive obedient) (map snd calls) p) sid \<subseteq> W sid)"
  using assms(3-7)
proof (induction calls arbitrary: p st)
  case (Cons c calls)
  obtain ce load sid m where c: "c = (ce, marshal_command (command load sid m))" "ascii sid" "ascii m"
    and place: "sid \<in> P" "m \<in> W sid"
    using Cons.prems(1) by (cases c) auto
  let ?p = "receive obedient (marshal_command (command load sid m)) p"
  obtain st1 where st1: "deliver env c (p, st, d) = (?p, st1, d)" "synthetic st1"
    "set (store_names st1) = (if load then insert m (set (store_names st)) else set (store_names st) - {m})"
    using deliver_command [OF assms(1) Cons.prems(2) c(2,3), where ce = ce and load = load and p = p and d = d] c(1) receive_obedient [OF c(2,3)] by auto
  have P: "places ?p = P" using places_shape [OF shape_receive] Cons.prems(4) by simp
  have books: "on_books ?p k = (if k = sid then if load then insert m (on_books p k) else on_books p k - {m} else on_books p k)"
    if "k \<in> P" for k
  proof (rule on_books_held)
    have "held p k = Some (on_books p k)" using held_place that Cons.prems(4) by blast
    then show "held ?p k = Some (if k = sid then if load then insert m (on_books p k) else on_books p k - {m} else on_books p k)"
      using held_receive [OF willing_obedient c(2,3), of load p k] by auto
  qed
  then have inside: "\<forall>k \<in> P. on_books ?p k \<subseteq> W k" using Cons.prems(5) place(2) by auto
  have only: "m \<notin> on_books p k" if "k \<in> P" "k \<noteq> sid" for k
    using apart [OF that(1) place(1) that(2)] place(2) Cons.prems(5) that(1) by blast
  have "(\<Union>k \<in> P. on_books ?p k) =
      (if load then insert m (\<Union>k \<in> P. on_books p k) else (\<Union>k \<in> P. on_books p k) - {m})"
    using books only place(1) by (cases load) (auto split: if_splits)
  then have "store_agrees ?p st1" using st1(3) Cons.prems(3,4) by (simp add: store_agrees_def P)
  moreover have "\<forall>b \<in> set (map snd calls). \<exists>load sid m. b = marshal_command (command load sid m) \<and>
      ascii sid \<and> ascii m \<and> sid \<in> P \<and> m \<in> W sid" using Cons.prems(1) by simp
  ultimately obtain st' where st': "fold (deliver env) calls (?p, st1, d) =
      (fold (receive obedient) (map snd calls) ?p, st', d)" "synthetic st'"
      "store_agrees (fold (receive obedient) (map snd calls) ?p) st'"
      "\<forall>k \<in> P. on_books (fold (receive obedient) (map snd calls) ?p) k \<subseteq> W k"
    using Cons.IH [of st1 ?p] st1(2) P inside by blast
  have "fold (deliver env) (c # calls) (p, st, d) = fold (deliver env) calls (?p, st1, d)"
    by (simp only: fold_simps st1(1))
  moreover have "fold (receive obedient) (map snd (c # calls)) p = fold (receive obedient) (map snd calls) ?p"
    by (simp add: c(1))
  ultimately show ?case using st' by (simp only:) blast
qed simp

text \<open>What a heartbeat may make of the payload: production with the loader's status, or the mock.\<close>

definition next_report :: "settings \<Rightarrow> store \<Rightarrow> HeartbeatPayload \<Rightarrow> HeartbeatPayload \<Rightarrow> bool" where
  "next_report env st p q \<longleftrightarrow>
     (\<exists>u v gpu. q = refresh u v (fetch_loader_status env gpu st) p) \<or> (\<exists>u v. q = refresh u v None p) \<or>
     (\<exists>vs. hp_mig_enabled p \<and> 0 < length (hp_mig_slices p) \<and> length (hp_mig_slices p) \<le> 3 \<and> length vs = 3 \<and>
       q = mock_mig vs p)"

lemma find_slice_same:
  assumes "map (\<lambda>s. (as_slice_id s, as_healthy s, as_loaded_models s)) ss =
    map (\<lambda>s. (as_slice_id s, as_healthy s, as_loaded_models s)) ts"
  shows "map_option (\<lambda>s. set (as_loaded_models s)) (find_slice sid ss) =
    map_option (\<lambda>s. set (as_loaded_models s)) (find_slice sid ts)"
  using assms by (induction ss ts rule: list_induct2') auto

lemma mock_mig_report:
  assumes "length (hp_mig_slices p) \<le> 3" and "length vs = 3"
  shows "shape (mock_mig vs p) = shape p" and "sid \<noteq> [] \<Longrightarrow> held (mock_mig vs p) sid = held p sid"
proof -
  note same = mock_mig_keeps_slices [OF assms]
  have "map (\<lambda>s. (as_slice_id s, as_healthy s)) (hp_mig_slices (mock_mig vs p)) =
      map (\<lambda>(i, h, l). (i, h)) (map (\<lambda>s. (as_slice_id s, as_healthy s, as_loaded_models s)) (hp_mig_slices p))"
    unfolding same [symmetric] by (simp add: comp_def)
  then have "map (\<lambda>s. (as_slice_id s, as_healthy s)) (hp_mig_slices (mock_mig vs p)) =
      map (\<lambda>s. (as_slice_id s, as_healthy s)) (hp_mig_slices p)" by (simp add: comp_def)
  then show "shape (mock_mig vs p) = shape p"
    by (simp add: shape_def) (simp add: mock_mig_def Let_def)
  show "held (mock_mig vs p) sid = held p sid" if "sid \<noteq> []"
    using that find_slice_same [OF same] by (simp add: held_def)
qed

lemma refresh_keeps:
  assumes "payload_wf p" and "honest answer p" and "sid \<in> places p"
  shows "held (refresh u v answer p) sid = held p sid"
proof (cases "hp_mig_enabled p \<and> hp_mig_slices p \<noteq> []")
  case True
  with place_named [OF assms(1) True assms(3)] show ?thesis
    by (simp add: held_def refresh_def split: option.split)
next
  case False
  with assms(2,3) show ?thesis by (auto simp: places_def held_def honest_def refresh_def split: option.splits)
qed

text \<open>A status that the agent can read is honest, and so a heartbeat keeps the books as they are.\<close>

lemma next_report_keeps:
  assumes "next_report env st p q" and wf: "payload_wf p" and agrees: "store_agrees p st"
  shows "shape q = shape p" and "sid \<in> places p \<Longrightarrow> held q sid = held p sid"
proof -
  have status: "honest (fetch_loader_status env gpu st) p" "honest None p" for gpu
    using agrees
    by (auto simp: honest_def store_agrees_def places_def on_books_def held_def fetch_loader_status_def
        status_def Let_def split: prod.splits if_splits)
  consider u v s where "q = refresh u v s p" "honest s p"
    | vs where "hp_mig_enabled p" "hp_mig_slices p \<noteq> []" "length (hp_mig_slices p) \<le> 3" "length vs = 3" "q = mock_mig vs p"
    using assms(1) status unfolding next_report_def by blast
  then have "shape q = shape p \<and> (sid \<in> places p \<longrightarrow> held q sid = held p sid)"
  proof cases
    case (1 u v s)
    with refresh_keeps [OF wf 1(2)] show ?thesis by (simp add: shape_refresh)
  next
    case (2 vs)
    with mock_mig_report [OF 2(3,4)] place_named [OF wf, of sid] show ?thesis by blast
  qed
  then show "shape q = shape p" "sid \<in> places p \<Longrightarrow> held q sid = held p sid" by blast+
qed

lemma drift_commands_wanted:
  assumes "payload_wf p" and "(load, sid, m) \<in> drift_commands r (reported_node t p)"
  shows "sid \<in> places p" and "m \<in> wanted r p sid"
proof -
  from assms(2) obtain loaded D where u: "(sid, loaded) \<in> units_of (reported_node t p)"
    "desired r (sliceKey (hp_node_id p) (hp_gpu_id p) sid) = Some D"
    "if load then m \<in> D \<and> m \<notin> set loaded else m \<in> set loaded \<and> m \<notin> D" unfolding drift_commands_iff by blast
  from unit_place [OF assms(1) u(1)] u show "sid \<in> places p" "m \<in> wanted r p sid"
    by (auto simp: wanted_def split: if_splits)
qed

lemma no_drift_loaded:
  assumes "node_drift r (reported_node t q) = {}" and "(sid, loaded) \<in> units_of (reported_node t q)"
    and "desired r (sliceKey (hp_node_id q) (hp_gpu_id q) sid) = Some D"
  shows "D = set loaded"
proof -
  have "(load, sid, m) \<notin> drift_commands r (reported_node t q)" for load m
    using assms(1) by (simp add: drift_commands_def)
  with assms(2,3) show ?thesis unfolding drift_commands_iff by (metis (full_types) subsetI subset_antisym)
qed

lemma kept_apart_shape:
  assumes shape: "shape q = shape p" and inside: "\<And>sid. sid \<in> places p \<Longrightarrow> on_books q sid \<subseteq> wanted r p sid"
    and "kept_apart r p"
  shows "kept_apart r q"
proof -
  have "wanted r q sid \<subseteq> wanted r p sid" if "sid \<in> places p" for sid
    using inside [OF that] shape by (auto simp: wanted_def shape_def)
  with assms(3) show ?thesis unfolding kept_apart_def places_shape [OF shape] by blast
qed


section \<open>Concrete runs\<close>

definition mock_env :: settings where
  "mock_env = demo_env\<lparr>VLLM_MOCK := True\<rparr>"

definition demo_call :: call_env where
  "demo_call = \<lparr>ce_cuda = None, ce_cached = (\<lambda>_. False), ce_rounded = (\<lambda>x. x), ce_llm = NoLibrary, ce_secs = Fin 0,
     ce_now = Fin 0, ce_tmp = ''.tmp_ckpt_1'', ce_load_error = (\<lambda>_. ''loader /load''),
     ce_checkpoint_error = (\<lambda>_. ''loader /checkpoint''), ce_path = (\<lambda>_. ''manifest'')\<rparr>"

text \<open>A GPU without slices whose loader runs \<open>phi\<close>, and where \<open>llama\<close> is desired.\<close>

definition whole_gpu :: HeartbeatPayload where
  "whole_gpu = demo_payload\<lparr>hp_mig_enabled := False, hp_mig_slices := []\<rparr>"

definition phi_store :: store where
  "phi_store = snd (call_load mock_env demo_call (agent_request ''phi'' None None None) [])"

definition whole_wish :: Reconciler where
  "whole_wish = AddDesired ''node-001'' ''gpu-0'' [] ''llama'' NewReconciler"

definition whole_pass :: "HeartbeatPayload \<Rightarrow> NodeRegistry \<times> ReconcileAction list" where
  "whole_pass p = reconcile in_order [''node-001/gpu-0''] [''node-001/gpu-0''] 0 whole_wish (demo_reported p)"

lemma whole_books: "synthetic phi_store" "store_agrees whole_gpu phi_store" "kept_apart whole_wish whole_gpu"
proof -
  have "VLLM_MOCK mock_env" "synthetic []"
    by (simp_all add: mock_env_def synthetic_def store_ok_def store_names_def)
  from mock_load [OF this, of demo_call "''phi''" None None]
  have "synthetic phi_store" "set (store_names phi_store) = {''phi''}"
    unfolding phi_store_def by (auto simp: store_names_def)
  then show "synthetic phi_store" "store_agrees whole_gpu phi_store" "kept_apart whole_wish whole_gpu"
    by (simp_all add: store_agrees_def kept_apart_def places_def on_books_def held_def whole_gpu_def demo_payload_def)
qed

lemma whole_ok: "payload_wf whole_gpu" "payload_ascii whole_gpu" "desired_ascii whole_wish" "0 \<le> 0 + staleTimeout whole_wish"
    "desired whole_wish (sliceKey ''node-001'' ''gpu-0'' []) = Some {''llama''}"
  by (auto simp: payload_wf_def whole_gpu_def demo_payload_def payload_ascii_def ascii_def desired_ascii_def
      whole_wish_def desired_AddDesired NewReconciler_def Second_def split: if_splits)
    (auto simp: desired_def NewReconciler_def)

lemma shape_deliver: "shape (fst (fold (deliver env) cs s)) = shape (fst s)"
proof (induction cs arbitrary: s)
  case (Cons c cs)
  have "shape (fst (deliver env c s)) = shape (fst s)"
    by (cases "(env, c, s)" rule: deliver.cases) (simp add: shape_handle_command split: option.split)
  with Cons show ?case by simp
qed simp


text \<open>
  The loader knows a model once, whatever slices it was loaded for. Evicting it from one slice stops its
  engine, and the agent goes on reporting it on the other.
\<close>

definition two_slices :: HeartbeatPayload where
  "two_slices = demo_payload\<lparr>hp_mig_slices :=
     map (\<lambda>sid. \<lparr>as_slice_id = sid, as_profile = ''2g.20gb'', as_total_vram_mib = 20480, as_used_vram_mib = 0,
       as_loaded_models = [], as_healthy = True\<rparr>) [''0/0/0'', ''1/0/0'']\<rparr>"

lemma eviction_reaches_other_slice:
  "let (p, st, d) = fold (deliver mock_env) (map (\<lambda>(load, sid). (demo_call, marshal_command (command load sid ''x'')))
      [(True, ''0/0/0''), (True, ''1/0/0''), (False, ''0/0/0'')]) (two_slices, [], None)
   in store_names st = [] \<and> map as_loaded_models (hp_mig_slices p) = [[], [''x'']]"
  by code_simp

text \<open>Synthetic engines may exceed the simulated card; the agent cannot read the status that says so.\<close>

lemma overfull_status_unreadable:
  "81920 < total_vram_mib st \<Longrightarrow> VLLM_MOCK env \<Longrightarrow> fetch_loader_status env gpu st = None"
  by (simp add: fetch_loader_status_def status_def vram_total_free_mib_def u64_range_def)

end
