(* ===== verification/Serving.thy ===== *)
theory Serving
  imports Loader
begin

text \<open>
  The rest of the loader: the \<open>/generate\<close> handler of \<open>agent/loader/main.py\<close> with \<open>generate\<close> of
  \<open>vllm_engine.py\<close>, which read the model store and leave it as it is, and the default directories of
  \<open>paths.py\<close>. The text a vLLM engine produces and the clock are arguments.
\<close>

section \<open>Generation\<close>

record GenerateRequest =
  gq_model_name :: string
  gq_prompt :: string
  gq_max_tokens :: int
  gq_temperature :: f64

record GenerationResult =
  gr_text :: string
  gr_prompt_tokens :: int
  gr_completion_tokens :: int
  gr_tokens_per_sec :: f64

record GenerateResponse = GenerationResult +
  gr_model_name :: string
  gr_backend :: string

text \<open>Python's \<open>split\<close> without a separator: the words between runs of white space.\<close>

definition blank :: "char \<Rightarrow> bool" where
  "blank c \<longleftrightarrow> c \<in> {CHR '' '', CHR 0x09, CHR 0x0A, CHR 0x0B, CHR 0x0C, CHR 0x0D, CHR 0x1C, CHR 0x1D, CHR 0x1E, CHR 0x1F}"

fun split_words :: "string \<Rightarrow> string \<Rightarrow> string list" where
  "split_words w [] = (if w = [] then [] else [rev w])"
| "split_words w (c # cs) =
     (if blank c then (if w = [] then split_words [] cs else rev w # split_words [] cs) else split_words (c # w) cs)"

definition words_of :: "string \<Rightarrow> string list" where
  "words_of s = split_words [] s"

definition join_words :: "string list \<Rightarrow> string" where
  "join_words ws = (case ws of [] \<Rightarrow> [] | w # ws' \<Rightarrow> w @ concat (map (\<lambda>v. CHR '' '' # v) ws'))"

definition last_words :: "nat \<Rightarrow> string list \<Rightarrow> string list" where
  "last_words n ws = drop (length ws - n) ws"

text \<open>The dash in the synthetic text is one character, three bytes in UTF-8.\<close>

definition mock_text :: "string \<Rightarrow> string list \<Rightarrow> int \<Rightarrow> string" where
  "mock_text model ws budget =
     (let tail = (if ws \<noteq> [] then join_words (last_words 8 ws) else ''(empty prompt)'')
      in ''[mock:'' @ model @ ''] ...'' @ tail @ '' '' @ [CHR 0xE2, CHR 0x80, CHR 0x94] @
         '' synthetic continuation, budget '' @ show_int budget @ '' tok'')"

text \<open>
  The time a generation took, at least a microsecond, as a float of seconds. The count of tokens and the
  time give the speed.
\<close>

definition speed :: "int \<Rightarrow> f64 \<Rightarrow> f64" where
  "speed tokens elapsed = f64_div (f64_of_int tokens) elapsed"

definition generate_mock :: "EngineHandle \<Rightarrow> string \<Rightarrow> int \<Rightarrow> f64 \<Rightarrow> GenerationResult" where
  "generate_mock e prompt max_tokens elapsed =
     (let ws = words_of prompt;
          text = mock_text (e_model_name e) ws max_tokens;
          n = min max_tokens (max (int (length (words_of text))) 1)
      in \<lparr>gr_text = text, gr_prompt_tokens = int (length ws), gr_completion_tokens = n,
          gr_tokens_per_sec = speed n elapsed\<rparr>)"

text \<open>
  What a vLLM engine may do: its library is missing, it was unloaded since the request found it in the
  store, it raises, or it completes with a text and two counts.
\<close>

datatype completion = NoVLLM | Unloaded | Fails | Completes string nat nat

definition generate_real :: "EngineHandle \<Rightarrow> completion \<Rightarrow> f64 \<Rightarrow> GenerationResult answer" where
  "generate_real e c elapsed =
     (case c of
        NoVLLM \<Rightarrow> Unhandled
      | Unloaded \<Rightarrow> HTTPError 500 (EngineError (e_model_name e @ '' engine not loaded''))
      | Fails \<Rightarrow> Unhandled
      | Completes text p n \<Rightarrow> Reply \<lparr>gr_text = text, gr_prompt_tokens = int p, gr_completion_tokens = int n,
          gr_tokens_per_sec = speed (int n) elapsed\<rparr>)"

definition generate :: "settings \<Rightarrow> (f64 \<Rightarrow> f64) \<Rightarrow> completion \<Rightarrow> f64 \<Rightarrow> GenerateRequest \<Rightarrow> store \<Rightarrow> GenerateResponse answer" where
  "generate env rounded c elapsed req st =
     (case store_get st (gq_model_name req) of
        None \<Rightarrow> HTTPError 404 (NotLoaded (gq_model_name req))
      | Some en \<Rightarrow>
          (case (if VLLM_MOCK env then Reply (generate_mock (en_engine en) (gq_prompt req) (gq_max_tokens req) elapsed)
                 else generate_real (en_engine en) c elapsed) of
             Reply r \<Rightarrow> Reply \<lparr>gr_text = gr_text r, gr_prompt_tokens = gr_prompt_tokens r,
               gr_completion_tokens = gr_completion_tokens r, gr_tokens_per_sec = rounded (gr_tokens_per_sec r),
               gr_model_name = gq_model_name req, gr_backend = (if VLLM_MOCK env then ''vllm-mock'' else ''vllm'')\<rparr>
           | HTTPError n d \<Rightarrow> HTTPError n d
           | Unhandled \<Rightarrow> Unhandled))"

section \<open>Who gets an answer\<close>

definition demo_engine :: EngineHandle where
  "demo_engine = \<lparr>e_model_name = ''phi'', e_repo_id = ''phi'', e_quantization = None, e_gpu_memory_utilization = Fin 1,
     e_max_model_len = None, e_dtype = ''bfloat16'', e_vram_used_mib = 6000, e_load_duration_sec = Fin 0\<rparr>"

lemma store_names_dom: "m \<in> set (store_names st) \<longleftrightarrow> store_get st m \<noteq> None"
  by (simp add: store_names_def store_get_def map_of_eq_None_iff)

text \<open>
  A model is served exactly when it is in the store: without an entry the answer is 404, and with one it is never
  404. Synthetic engines answer every request for a model in the store, under its name.
\<close>

lemma generate_404: "(\<exists>d. generate env rounded c elapsed req st = HTTPError 404 d) \<longleftrightarrow> gq_model_name req \<notin> set (store_names st)"
  by (auto simp: generate_def generate_real_def store_names_dom split: option.splits answer.splits completion.splits)

lemma mock_generates:
  assumes "VLLM_MOCK env" and "gq_model_name req \<in> set (store_names st)"
  shows "\<exists>r. generate env rounded c elapsed req st = Reply r \<and> gr_model_name r = gq_model_name req \<and>
    gr_completion_tokens r \<le> gq_max_tokens req \<and> 0 \<le> gr_prompt_tokens r"
  using assms by (auto simp: generate_def generate_mock_def Let_def store_names_dom)

text \<open>
  The synthetic engine does not keep to the budget, it only reports so: the text is as long for a budget of one
  token, and for a negative budget the count is negative.
\<close>

lemma mock_ignores_budget:
  "let r = generate_mock demo_engine ''tell me more'' 1 (Fin 1) in gr_completion_tokens r = 1 \<and> length (words_of (gr_text r)) = 10"
  "gr_completion_tokens (generate_mock demo_engine ''tell me more'' (- 5) (Fin 1)) = - 5"
  by code_simp+

section \<open>Default directories\<close>

text \<open>
  \<open>/mnt/nvme\<close> is taken when \<open>/mnt\<close> is there and writable, whether or not anything is mounted at \<open>nvme\<close>.
\<close>

definition default_cache_root :: "bool \<Rightarrow> bool \<Rightarrow> string \<Rightarrow> string" where
  "default_cache_root mnt_exists mnt_writable home_dir =
     (if mnt_exists \<and> mnt_writable then ''/mnt/nvme'' else home_dir @ ''/.cache/gpu-orchestrator'')"

definition HF_CACHE_DIR_DEFAULT :: "string \<Rightarrow> string" where
  "HF_CACHE_DIR_DEFAULT dir = dir @ ''/hf_cache''"

definition CHECKPOINT_DIR_DEFAULT :: "string \<Rightarrow> string" where
  "CHECKPOINT_DIR_DEFAULT dir = dir @ ''/checkpoints''"

lemma default_dirs_differ: "HF_CACHE_DIR_DEFAULT dir \<noteq> CHECKPOINT_DIR_DEFAULT dir'"
proof
  assume "HF_CACHE_DIR_DEFAULT dir = CHECKPOINT_DIR_DEFAULT dir'"
  then have "last (HF_CACHE_DIR_DEFAULT dir) = last (CHECKPOINT_DIR_DEFAULT dir')" by simp
  then show False by (simp add: HF_CACHE_DIR_DEFAULT_def CHECKPOINT_DIR_DEFAULT_def)
qed

end
