(* ===== verification/Agent_Tasks.thy ===== *)
theory Agent_Tasks
  imports Full_Loop
begin

text \<open>
  The agent of \<open>agent/src/main.rs\<close> as its tasks: the heartbeat loop, and one task per command. They
  share the payload behind a mutex and are cut where they wait: a command while it calls the loader,
  the loop between its two locks and while its POST is under way. Its environment is read at the start.
\<close>

section \<open>A command in parts\<close>

text \<open>
  What a command waits for: the answer of the loader to the call it makes. An action the agent does
  not know makes none.
\<close>

datatype outcome =
    Loaded "string + LoadResponse"
  | Evicted "string + unit"
  | Checkpointed "string + string"
  | NoCall

definition slice_cap :: "AgentCommand \<Rightarrow> HeartbeatPayload \<Rightarrow> u64 option" where
  "slice_cap cmd p =
     (case cmd_slice_id cmd of None \<Rightarrow> None | Some sid \<Rightarrow> resolve_slice_vram_cap sid p)"

definition call_loader :: "loader \<Rightarrow> AgentCommand \<Rightarrow> u64 option \<Rightarrow> outcome" where
  "call_loader ld cmd cap =
     (if cmd_action cmd = ''PREWARM'' then Loaded (ld_load ld (cmd_model_name cmd) (cmd_quantization cmd) (cmd_slice_id cmd) cap)
      else if cmd_action cmd = ''EVICT'' then Evicted (ld_evict ld (cmd_model_name cmd))
      else if cmd_action cmd = ''CHECKPOINT'' then Checkpointed (ld_checkpoint ld (cmd_model_name cmd))
      else NoCall)"

definition finish_command :: "AgentCommand \<Rightarrow> outcome \<Rightarrow> HeartbeatPayload \<Rightarrow> HeartbeatPayload \<times> reply" where
  "finish_command cmd oc p =
     (let slice_info = (case cmd_slice_id cmd of None \<Rightarrow> ''full'' | Some sid \<Rightarrow> sid);
          m = cmd_model_name cmd
      in case oc of
           Loaded (Inr resp) \<Rightarrow> (mark_loaded (cmd_slice_id cmd) (lr_model_name resp) p, LoadReply resp slice_info)
         | Loaded (Inl e) \<Rightarrow> (p, ErrorReply e)
         | Evicted (Inr _) \<Rightarrow> (mark_evicted (cmd_slice_id cmd) m p, EvictReply m slice_info)
         | Evicted (Inl e) \<Rightarrow> (p, ErrorReply e)
         | Checkpointed (Inr path) \<Rightarrow> (p, CheckpointReply m path slice_info)
         | Checkpointed (Inl e) \<Rightarrow> (p, ErrorReply e)
         | NoCall \<Rightarrow> (p, UnknownReply (''unknown action: '' @ cmd_action cmd)))"

text \<open>Undisturbed, the parts are the handler.\<close>

lemma handle_command_parts:
  "handle_command ld cmd p = finish_command cmd (call_loader ld cmd (slice_cap cmd p)) p"
  by (simp add: handle_command_def finish_command_def call_loader_def slice_cap_def Let_def)

text \<open>
  The outcomes a command may get: those of its own call, and a load that succeeded was of the model it
  asked for.
\<close>

definition answers :: "AgentCommand \<Rightarrow> outcome \<Rightarrow> bool" where
  "answers cmd oc =
     (if cmd_action cmd = ''PREWARM''
      then (case oc of Loaded (Inr r) \<Rightarrow> lr_model_name r = cmd_model_name cmd | Loaded (Inl _) \<Rightarrow> True | _ \<Rightarrow> False)
      else if cmd_action cmd = ''EVICT'' then (case oc of Evicted _ \<Rightarrow> True | _ \<Rightarrow> False)
      else if cmd_action cmd = ''CHECKPOINT'' then (case oc of Checkpointed _ \<Rightarrow> True | _ \<Rightarrow> False)
      else oc = NoCall)"

lemma call_load_names:
  assumes "fst (call_load env ce req st) = Reply r"
  shows "la_model_name r = lq_model_name req"
proof (cases rule: load_begin_cases [of st req env "ce_cuda ce" "ce_cached ce"])
  case (4 p)
  with assms show ?thesis
    by (auto simp: call_load_def load_model_def load_finish_def Let_def split: sum.splits load_failure.splits)
qed (use assms in \<open>auto simp: call_load_def load_model_def\<close>)

text \<open>The loader of the repository answers so.\<close>

lemma loader_answers: "answers cmd (call_loader (loader_of env ce st d) cmd cap)"
proof -
  have "lr_model_name r = m"
    if "load_result ce (fst (call_load env ce (agent_request m q s c) st)) = Inr r" for m q s c r
  proof -
    from that obtain a where "fst (call_load env ce (agent_request m q s c) st) = Reply a"
      "lr_model_name r = la_model_name a" by (auto simp: load_result_def split: answer.splits if_splits)
    with call_load_names show ?thesis by (fastforce simp: agent_request_def)
  qed
  then show ?thesis by (auto simp: answers_def call_loader_def loader_of_def split: sum.splits)
qed

section \<open>Where an agent starts\<close>

definition unwrap_or :: "'a option \<Rightarrow> 'a \<Rightarrow> 'a" where
  "unwrap_or x d = (case x of None \<Rightarrow> d | Some v \<Rightarrow> v)"

text \<open>The environment as \<open>main\<close> reads it, with its defaults.\<close>

record environment =
  en_NODE_ID :: "string option"
  en_GPU_ID :: "string option"
  en_SCHEDULER_URL :: "string option"
  en_LOADER_URL :: "string option"
  en_LISTEN_ADDR :: "string option"
  en_AGENT_CALLBACK_ADDR :: "string option"
  en_MIG_NODE :: "string option"

definition scheduler_url :: "environment \<Rightarrow> string" where
  "scheduler_url env = unwrap_or (en_SCHEDULER_URL env) ''http://localhost:8080/heartbeat''"

definition loader_url :: "environment \<Rightarrow> string" where
  "loader_url env = unwrap_or (en_LOADER_URL env) ''http://localhost:8001''"

definition listen_addr :: "environment \<Rightarrow> string" where
  "listen_addr env = unwrap_or (en_LISTEN_ADDR env) ''0.0.0.0:9090''"

text \<open>\<open>rsplit(':').next()\<close> is what follows the last colon, everything when there is none.\<close>

definition after_last_colon :: "string \<Rightarrow> string" where
  "after_last_colon s = rev (takeWhile (\<lambda>c. c \<noteq> CHR '':'') (rev s))"

definition callback_addr :: "environment \<Rightarrow> string" where
  "callback_addr env = unwrap_or (en_AGENT_CALLBACK_ADDR env)
     (''http://localhost:'' @ after_last_colon (listen_addr env))"

definition mig_node :: "environment \<Rightarrow> bool" where
  "mig_node env \<longleftrightarrow> en_MIG_NODE env = Some ''true''"

text \<open>
  The payload behind its mutex; where the heartbeat loop is: waiting for its interval, between its
  two locks, or posting the payload it copied; and the commands whose calls the loader has not
  answered yet, with the memory cap they resolved, by the number of their request.
\<close>

datatype beat = Resting | Refreshed | Posting HeartbeatPayload

record agent =
  ag_payload :: HeartbeatPayload
  ag_beat :: beat
  ag_calls :: "nat \<rightharpoonup> AgentCommand \<times> u64 option"

definition agent_main :: "environment \<Rightarrow> agent" where
  "agent_main env =
     \<lparr>ag_payload = initial_payload (unwrap_or (en_NODE_ID env) ''node-001'') (unwrap_or (en_GPU_ID env) ''gpu-0'')
        (callback_addr env) (mig_node env),
      ag_beat = Resting, ag_calls = Map.empty\<rparr>"

text \<open>The default leads back to the port it listens on.\<close>

lemma callback_addr_default:
  "en_AGENT_CALLBACK_ADDR env = None \<Longrightarrow> en_LISTEN_ADDR env = None \<Longrightarrow> callback_addr env = ''http://localhost:9090''"
  by (simp add: callback_addr_def listen_addr_def unwrap_or_def after_last_colon_def)

lemma callback_addr_empty: "callback_addr env = [] \<longleftrightarrow> en_AGENT_CALLBACK_ADDR env = Some []"
  by (cases "en_AGENT_CALLBACK_ADDR env") (auto simp: callback_addr_def unwrap_or_def)

section \<open>The sample of the hardware\<close>

text \<open>
  \<open>sample_real\<close> trims the output of \<open>nvidia-smi\<close>, when it ran, and parses it as a \<open>u64\<close>: a
  plus sign at most, then digits, without overflow. A machine with several GPUs gives several lines,
  which are no number.
\<close>

definition trim :: "string \<Rightarrow> string" where
  "trim s = (let blank = (\<lambda>c. c \<in> {CHR '' '', CHR 0x09, CHR 0x0A, CHR 0x0B, CHR 0x0C, CHR 0x0D})
     in rev (dropWhile blank (rev (dropWhile blank s))))"

definition digit_value :: "char \<Rightarrow> nat option" where
  "digit_value c = (let n = of_char c in if 48 \<le> n \<and> n \<le> 57 then Some (n - 48) else None)"

fun digits_value :: "nat \<Rightarrow> string \<Rightarrow> nat option" where
  "digits_value acc [] = Some acc"
| "digits_value acc (c # cs) =
     (case digit_value c of None \<Rightarrow> None
      | Some d \<Rightarrow> let acc' = 10 * acc + d in if acc' < 2 ^ 64 then digits_value acc' cs else None)"

definition parse_u64 :: "string \<Rightarrow> u64 option" where
  "parse_u64 s =
     (let digits = (case s of c # cs \<Rightarrow> if c = CHR ''+'' then cs else s | [] \<Rightarrow> [])
      in if digits = [] then None else map_option of_nat (digits_value 0 digits))"

definition sample_real :: "string option \<Rightarrow> bool option \<Rightarrow> u64 \<times> bool" where
  "sample_real smi nvlink =
     (case smi of None \<Rightarrow> 0 | Some out \<Rightarrow> unwrap_or (parse_u64 (trim out)) 0, unwrap_or nvlink False)"

lemma sample_one_gpu: "sample_real (Some (''40960'' @ [CHR 0x0A])) (Some True) = (40960, True)"
  by (simp add: sample_real_def unwrap_or_def trim_def parse_u64_def digit_value_def of_char_def Let_def)

lemma sample_two_gpus: "fst (sample_real (Some (''40960'' @ [CHR 0x0A] @ ''8192'' @ [CHR 0x0A])) nvlink) = 0"
  by (simp add: sample_real_def unwrap_or_def trim_def parse_u64_def digit_value_def of_char_def Let_def)

section \<open>The tasks\<close>

text \<open>
  What the heartbeat loop makes of the payload under its first lock. The status of the loader was
  fetched before, so it may be older than what commands have booked meanwhile.
\<close>

datatype build = Mock bool | Production

inductive refreshes :: "build \<Rightarrow> HeartbeatPayload \<Rightarrow> HeartbeatPayload \<Rightarrow> bool" where
  mock_mig: "length vs = 3 \<Longrightarrow> refreshes (Mock True) p (mock_mig vs p)"
| mock_plain: "refreshes (Mock False) p (mock_plain v1 v2 p)"
| production: "sample_real smi nvlink = (used, nv) \<Longrightarrow> refreshes Production p (refresh used nv st p)"

text \<open>
  The steps that only touch the agent: the two locks of the heartbeat loop, and the end of a command's
  call. Requests that arrive, and the end of the loop's POST, are steps of the world around it.
\<close>

inductive agent_step :: "build \<Rightarrow> agent \<Rightarrow> agent \<Rightarrow> bool" where
  refreshed: "ag_beat ag = Resting \<Longrightarrow> refreshes b (ag_payload ag) q \<Longrightarrow>
    agent_step b ag (ag\<lparr>ag_payload := q, ag_beat := Refreshed\<rparr>)"
| copied: "ag_beat ag = Refreshed \<Longrightarrow> agent_step b ag (ag\<lparr>ag_beat := Posting (ag_payload ag)\<rparr>)"
| finished: "ag_calls ag n = Some (cmd, cap) \<Longrightarrow> answers cmd oc \<Longrightarrow>
    agent_step b ag (ag\<lparr>ag_payload := fst (finish_command cmd oc (ag_payload ag)),
      ag_calls := (ag_calls ag)(n := None)\<rparr>)"

definition accept_command :: "nat \<Rightarrow> AgentCommand \<Rightarrow> agent \<Rightarrow> agent" where
  "accept_command n cmd ag = ag\<lparr>ag_calls := (ag_calls ag)(n \<mapsto> (cmd, slice_cap cmd (ag_payload ag)))\<rparr>"

inductive_cases agent_stepE: "agent_step b ag ag'"
inductive_cases refreshesE: "refreshes b p q"

section \<open>What is on the slices\<close>

lemma shape_finish: "shape (fst (finish_command cmd oc p)) = shape p"
  by (auto simp: shape_def finish_command_def mark_loaded_def mark_evicted_def Let_def map_update_slice
      split: outcome.splits sum.splits option.splits)

text \<open>A command as the scheduler sends it changes the place it names, if its call succeeds.\<close>

definition succeeded :: "outcome \<Rightarrow> bool" where
  "succeeded oc = (case oc of Loaded (Inr _) \<Rightarrow> True | Evicted (Inr _) \<Rightarrow> True | _ \<Rightarrow> False)"

lemma held_finish:
  assumes "answers (agent_view c) oc"
  shows "held (fst (finish_command (agent_view c) oc p)) k =
    (if k = ac_SliceID c \<and> succeeded oc
     then map_option (\<lambda>S. if ac_Action c = ''PREWARM'' then insert (ac_ModelName c) S else S - {ac_ModelName c}) (held p k)
     else held p k)"
proof -
  have evict: "(if ac_Action c = ''PREWARM'' then x else y) = y" if "ac_Action c = ''EVICT''" for x y :: "string set"
    using that by simp
  show ?thesis
    using assms
    by (auto simp: answers_def agent_view_def finish_command_def succeeded_def Let_def held_mark_loaded
        held_mark_evicted evict split: outcome.splits sum.splits if_splits)
qed

text \<open>
  An agent whose build and node go together: the mock build of a MIG node has the three slices of
  its fixture at most, and the other has none.
\<close>

definition build_ok :: "build \<Rightarrow> HeartbeatPayload \<Rightarrow> bool" where
  "build_ok b p \<longleftrightarrow> payload_wf p \<and> (b = Mock True \<longrightarrow> length (hp_mig_slices p) \<le> 3)"

lemma build_ok_main:
  "en_AGENT_CALLBACK_ADDR env \<noteq> Some [] \<Longrightarrow> build_ok b (ag_payload (agent_main env))"
  using callback_addr_empty [of env] initial_payload_wf [of "callback_addr env"]
  by (simp add: build_ok_def agent_main_def) (simp add: initial_payload_def build_initial_state_def MIG_MODELS_def)

lemma build_ok_shape:
  assumes "shape q = shape p"
  shows "build_ok b q = build_ok b p"
  using payload_wf_shape [OF assms] slice_ids_shape [OF assms] by (metis build_ok_def length_map)

lemma refreshes_slices:
  assumes "refreshes b p q" and "build_ok b p"
  shows "shape q = shape p" and "sid \<noteq> [] \<Longrightarrow> held q sid = held p sid"
proof -
  from assms(1) have "shape q = shape p \<and> (sid \<noteq> [] \<longrightarrow> held q sid = held p sid)"
  proof cases
    case (mock_mig vs)
    with assms(2) have "length (hp_mig_slices p) \<le> 3" "length vs = 3" by (simp_all add: build_ok_def)
    from mock_mig_report [OF this] mock_mig show ?thesis by blast
  next
    case (mock_plain v1 v2)
    then show ?thesis by (simp add: mock_plain_def shape_def held_def)
  next
    case (production smi nvlink used nv st)
    then show ?thesis by (simp add: shape_refresh) (simp add: held_def refresh_def split: option.split)
  qed
  then show "shape q = shape p" "sid \<noteq> [] \<Longrightarrow> held q sid = held p sid" by blast+
qed

lemma agent_step_shape:
  assumes "agent_step b ag ag'" and "build_ok b (ag_payload ag)"
  shows "shape (ag_payload ag') = shape (ag_payload ag)"
  using assms(1) by cases (simp_all add: refreshes_slices(1) [OF _ assms(2)] shape_finish)

text \<open>
  In the production build a node starts with the models of the mock's fixture on its slices, though
  its loader has loaded none, and its heartbeats report them.
\<close>

lemma production_keeps_fixture:
  assumes "en_MIG_NODE env = Some ''true''" and "refreshes Production (ag_payload (agent_main env)) q"
  shows "map as_loaded_models (hp_mig_slices q) = [[''phi-3-mini''], [''llama-3-8b''], [''mistral-7b'']]"
proof -
  have "hp_mig_slices q = hp_mig_slices (ag_payload (agent_main env))"
    using assms(2) by (auto simp: refresh_def elim!: refreshesE split: option.splits)
  with assms(1) show ?thesis
    by (simp add: agent_main_def mig_node_def initial_payload_def build_initial_state_def MIG_MODELS_def)
qed

text \<open>
  On a GPU without slices a command may end between the fetch of the loader's status and the lock: then
  the older status replaces what the command has just booked, until the next heartbeat.
\<close>

lemma stale_status_forgets:
  assumes "ls_loaded st = hp_loaded_models p" and "m \<notin> set (hp_loaded_models p)"
  shows "held (mark_loaded None m p) [] = Some (insert m (set (hp_loaded_models p))) \<and>
    held (refresh u v (Some st) (mark_loaded None m p)) [] = Some (set (hp_loaded_models p))"
  using assms by (simp add: held_def refresh_def mark_loaded_def)

end
