(* ===== verification/World.thy ===== *)
theory World
  imports Agent_Tasks Placements
begin

text \<open>
  The scheduler, all agents and the network between them, as one system of interleaved steps: agents
  sample, copy and post their payloads, requests arrive late, in another order or never, and loaders
  answer when they will. The theory traces what an agent holds back to what clients were told.
\<close>

section \<open>The system\<close>

text \<open>
  The agents by the address they listen on, and the requests of the scheduler that are under way. A
  request is named by its number among those sent.
\<close>

record world =
  w_sys :: system
  w_agents :: "string \<rightharpoonup> agent"
  w_mail :: "nat set"

text \<open>The request of a heartbeat loop as the scheduler decodes it; \<open>e\<close> is the error it finds, if any.\<close>

definition heartbeat_request :: "string \<Rightarrow> HeartbeatPayload \<Rightarrow> HeartbeatRequest" where
  "heartbeat_request e p = \<lparr>hr_method = ''POST'', hr_body = (if payload_fits p then Inr (report p) else Inl e)\<rparr>"

text \<open>
  A step: the scheduler moves, without a heartbeat acknowledged; an agent moves; a heartbeat reaches
  the scheduler, or does not; a command reaches the agent at its URL, or does not.
\<close>

inductive world_step :: "(string \<Rightarrow> build) \<Rightarrow> world \<Rightarrow> world \<Rightarrow> bool" for b where
  scheduler: "sys_step (w_sys w) s \<Longrightarrow> sy_accepted s = sy_accepted (w_sys w) \<Longrightarrow>
    world_step b w (w\<lparr>w_sys := s,
      w_mail := w_mail w \<union> {length (sy_posts (w_sys w)) ..< length (sy_posts s)}\<rparr>)"
| agent: "w_agents w addr = Some ag \<Longrightarrow> agent_step (b addr) ag ag' \<Longrightarrow>
    world_step b w (w\<lparr>w_agents := (w_agents w)(addr \<mapsto> ag')\<rparr>)"
| heartbeat: "w_agents w addr = Some ag \<Longrightarrow> ag_beat ag = Posting p \<Longrightarrow>
    serveHeartbeat (heartbeat_request e p) (sy_heartbeats (w_sys w)) = (lines, rsp, ch) \<Longrightarrow>
    world_step b w (w\<lparr>w_sys := (w_sys w)\<lparr>sy_heartbeats := ch,
        sy_accepted := sy_accepted (w_sys w) @ acknowledged (heartbeat_request e p) rsp,
        sy_log := sy_log (w_sys w) @ lines\<rparr>,
      w_agents := (w_agents w)(addr \<mapsto> ag\<lparr>ag_beat := Resting\<rparr>)\<rparr>)"
| heartbeat_lost: "w_agents w addr = Some ag \<Longrightarrow> ag_beat ag = Posting p \<Longrightarrow>
    world_step b w (w\<lparr>w_agents := (w_agents w)(addr \<mapsto> ag\<lparr>ag_beat := Resting\<rparr>)\<rparr>)"
| command: "n \<in> w_mail w \<Longrightarrow> sy_posts (w_sys w) ! n = (a, p) \<Longrightarrow> po_url p = addr @ ''/command'' \<Longrightarrow>
    w_agents w addr = Some ag \<Longrightarrow>
    world_step b w (w\<lparr>w_agents := (w_agents w)(addr \<mapsto> accept_command n (agent_view (po_body p)) ag),
      w_mail := w_mail w - {n}\<rparr>)"
| command_lost: "n \<in> w_mail w \<Longrightarrow> world_step b w (w\<lparr>w_mail := w_mail w - {n}\<rparr>)"

inductive_cases world_stepE: "world_step b w w'"

text \<open>
  The start: the scheduler is new and nothing is under way; every agent listens where it says, and no
  two have the same key.
\<close>

definition agent_key :: "HeartbeatPayload \<Rightarrow> string" where
  "agent_key p = node_key (hp_node_id p) (hp_gpu_id p)"

definition agent_ok :: "build \<Rightarrow> string \<Rightarrow> agent \<Rightarrow> bool" where
  "agent_ok b addr ag \<longleftrightarrow> build_ok b (ag_payload ag) \<and> hp_agent_addr (ag_payload ag) = addr"

definition world_start :: "(string \<Rightarrow> build) \<Rightarrow> world \<Rightarrow> bool" where
  "world_start b w \<longleftrightarrow> (\<exists>mem. w_sys w = main_init mem) \<and> w_mail w = {} \<and>
     (\<forall>addr ag. w_agents w addr = Some ag \<longrightarrow>
       agent_ok (b addr) addr ag \<and> ag_beat ag = Resting \<and> ag_calls ag = Map.empty) \<and>
     (\<forall>addr ag addr' ag'. w_agents w addr = Some ag \<longrightarrow> w_agents w addr' = Some ag' \<longrightarrow>
       agent_key (ag_payload ag) = agent_key (ag_payload ag') \<longrightarrow> addr = addr')"

lemma agent_main_ok:
  "callback_addr env = addr \<Longrightarrow> addr \<noteq> [] \<Longrightarrow> agent_ok b addr (agent_main env)"
  using build_ok_main [of env b] callback_addr_empty [of env]
  by (simp add: agent_ok_def) (simp add: agent_main_def initial_payload_def build_initial_state_def)

text \<open>What the scheduler does in a world is a run of the scheduler.\<close>

lemma serve_is_step:
  "serveHeartbeat rq (sy_heartbeats s) = (lines, rsp, ch) \<Longrightarrow>
     sys_step s (s\<lparr>sy_heartbeats := ch, sy_accepted := sy_accepted s @ acknowledged rq rsp, sy_log := sy_log s @ lines\<rparr>)"
  by (rule sys_step.heartbeat)

lemma world_sys_step: "world_step b w w' \<Longrightarrow> sys_step (w_sys w) (w_sys w')"
  by (cases rule: world_step.cases) (auto intro: serve_is_step sys_stutter)

lemma world_sys_steps: "(world_step b)\<^sup>*\<^sup>* w w' \<Longrightarrow> sys_step\<^sup>*\<^sup>* (w_sys w) (w_sys w')"
  by (induction rule: rtranclp_induct) (auto intro: world_sys_step rtranclp.rtrancl_into_rtrancl)

section \<open>Who is who\<close>

text \<open>
  Agents keep their identity, reports are those of agents, and a command that reaches an agent is for
  the GPU of that agent.
\<close>

definition identities :: "world \<Rightarrow> (string \<rightharpoonup> string \<times> string \<times> string \<times> bool \<times> (string \<times> bool) list)" where
  "identities w addr = map_option (\<lambda>ag. shape (ag_payload ag)) (w_agents w addr)"

definition posting_ok :: "agent \<Rightarrow> bool" where
  "posting_ok ag \<longleftrightarrow> (\<forall>q. ag_beat ag = Posting q \<longrightarrow> shape q = shape (ag_payload ag))"

definition reporter_known :: "world \<Rightarrow> HeartbeatMsg \<Rightarrow> bool" where
  "reporter_known w hb \<longleftrightarrow> (\<exists>ag. w_agents w (hb_AgentAddr hb) = Some ag \<and> agent_key (ag_payload ag) = hb_key hb)"

definition post_fits :: "world \<Rightarrow> ReconcileAction \<Rightarrow> post \<Rightarrow> bool" where
  "post_fits w a p \<longleftrightarrow> post_ok a p \<and> (\<forall>addr ag. po_url p = addr @ ''/command'' \<longrightarrow> w_agents w addr = Some ag \<longrightarrow>
     agent_key (ag_payload ag) = node_key (a_NodeID a) (a_GPUID a))"

definition call_ok :: "world \<Rightarrow> string \<Rightarrow> nat \<Rightarrow> AgentCommand \<Rightarrow> bool" where
  "call_ok w addr n cmd \<longleftrightarrow> n < length (sy_posts (w_sys w)) \<and> n \<notin> w_mail w \<and>
     (case sy_posts (w_sys w) ! n of (a, p) \<Rightarrow> po_url p = addr @ ''/command'' \<and> cmd = agent_view (po_body p))"

definition world_inv :: "(string \<Rightarrow> build) \<Rightarrow> world \<Rightarrow> bool" where
  "world_inv b w \<longleftrightarrow> (\<exists>mem. sys_step\<^sup>*\<^sup>* (main_init mem) (w_sys w)) \<and>
     w_mail w \<subseteq> {..< length (sy_posts (w_sys w))} \<and>
     (\<forall>addr ag. w_agents w addr = Some ag \<longrightarrow> agent_ok (b addr) addr ag \<and> posting_ok ag \<and>
       (\<forall>n cmd cap. ag_calls ag n = Some (cmd, cap) \<longrightarrow> call_ok w addr n cmd)) \<and>
     (\<forall>hb \<in> set (sy_accepted (w_sys w)). reporter_known w hb) \<and>
     (\<forall>(a, p) \<in> set (sy_posts (w_sys w)). post_fits w a p)"

lemma world_invD:
  assumes "world_inv b w"
  shows "\<exists>mem. sys_step\<^sup>*\<^sup>* (main_init mem) (w_sys w)" "w_mail w \<subseteq> {..< length (sy_posts (w_sys w))}"
    "\<And>addr ag. w_agents w addr = Some ag \<Longrightarrow> agent_ok (b addr) addr ag \<and> posting_ok ag"
    "\<And>addr ag n cmd cap. w_agents w addr = Some ag \<Longrightarrow> ag_calls ag n = Some (cmd, cap) \<Longrightarrow> call_ok w addr n cmd"
    "\<And>hb. hb \<in> set (sy_accepted (w_sys w)) \<Longrightarrow> reporter_known w hb"
    "\<And>a p. (a, p) \<in> set (sy_posts (w_sys w)) \<Longrightarrow> post_fits w a p"
  using assms unfolding world_inv_def by blast+

lemma agent_key_shape: "shape p = shape q \<Longrightarrow> agent_key p = agent_key q"
  by (simp add: shape_def agent_key_def)

lemma identities_agent:
  assumes "identities w' = identities w" and "w_agents w' addr = Some ag'"
  obtains ag where "w_agents w addr = Some ag" "shape (ag_payload ag') = shape (ag_payload ag)"
proof -
  have "identities w addr = Some (shape (ag_payload ag'))" using assms by (simp add: identities_def flip: assms(1))
  then show thesis using that by (auto simp: identities_def)
qed

lemma reporter_known_ids:
  assumes "identities w' = identities w" and "reporter_known w hb"
  shows "reporter_known w' hb"
proof -
  from assms(2) obtain ag where ag: "w_agents w (hb_AgentAddr hb) = Some ag" "agent_key (ag_payload ag) = hb_key hb"
    unfolding reporter_known_def by blast
  from identities_agent [OF assms(1) [symmetric] ag(1)] obtain ag' where
    "w_agents w' (hb_AgentAddr hb) = Some ag'" "shape (ag_payload ag) = shape (ag_payload ag')" .
  with ag(2) agent_key_shape show ?thesis unfolding reporter_known_def by metis
qed

lemma post_fits_ids:
  assumes "identities w' = identities w" and "post_fits w a p"
  shows "post_fits w' a p"
  unfolding post_fits_def
proof (intro conjI allI impI)
  fix addr ag' assume url: "po_url p = addr @ ''/command''" and "w_agents w' addr = Some ag'"
  from identities_agent [OF assms(1) this(2)] obtain ag where
    ag: "w_agents w addr = Some ag" "shape (ag_payload ag') = shape (ag_payload ag)" .
  from assms(2) url ag(1) have "agent_key (ag_payload ag) = node_key (a_NodeID a) (a_GPUID a)"
    unfolding post_fits_def by blast
  then show "agent_key (ag_payload ag') = node_key (a_NodeID a) (a_GPUID a)"
    using agent_key_shape [OF ag(2)] by simp
qed (use assms(2) in \<open>simp add: post_fits_def\<close>)

lemma call_ok_mono:
  assumes "call_ok w addr n cmd" and "sy_posts (w_sys w') = sy_posts (w_sys w) @ new"
    and "w_mail w' \<subseteq> w_mail w \<union> {length (sy_posts (w_sys w)) ..< length (sy_posts (w_sys w'))}"
  shows "call_ok w' addr n cmd"
  using assms by (auto simp: call_ok_def nth_append)

text \<open>What a step has to show.\<close>

lemma world_inv_frame:
  assumes inv: "world_inv b w" and run: "sys_step (w_sys w) (w_sys w')"
    and ids: "identities w' = identities w"
    and agents: "\<And>addr ag. w_agents w' addr = Some ag \<Longrightarrow> w_agents w addr = Some ag \<or>
      agent_ok (b addr) addr ag \<and> posting_ok ag \<and>
      (\<forall>n cmd cap. ag_calls ag n = Some (cmd, cap) \<longrightarrow> call_ok w addr n cmd \<or> call_ok w' addr n cmd)"
    and posts: "sy_posts (w_sys w') = sy_posts (w_sys w) @ new" "\<And>a p. (a, p) \<in> set new \<Longrightarrow> post_fits w a p"
    and mail: "w_mail w' \<subseteq> w_mail w \<union> {length (sy_posts (w_sys w)) ..< length (sy_posts (w_sys w'))}"
    and accepted: "\<And>hb. hb \<in> set (sy_accepted (w_sys w')) \<Longrightarrow>
      hb \<in> set (sy_accepted (w_sys w)) \<or> reporter_known w hb"
  shows "world_inv b w'"
proof -
  note call = call_ok_mono [OF _ posts(1) mail]
  have "\<exists>mem. sys_step\<^sup>*\<^sup>* (main_init mem) (w_sys w')"
    using world_invD(1) [OF inv] run by (meson rtranclp.rtrancl_into_rtrancl)
  moreover have "w_mail w' \<subseteq> {..< length (sy_posts (w_sys w'))}"
    using mail world_invD(2) [OF inv] posts(1) by fastforce
  moreover have "agent_ok (b addr) addr ag \<and> posting_ok ag \<and>
      (\<forall>n cmd cap. ag_calls ag n = Some (cmd, cap) \<longrightarrow> call_ok w' addr n cmd)"
    if "w_agents w' addr = Some ag" for addr ag
    using agents [OF that] world_invD(3,4) [OF inv] call by meson
  moreover have "reporter_known w' hb" if "hb \<in> set (sy_accepted (w_sys w'))" for hb
    using accepted [OF that] world_invD(5) [OF inv] reporter_known_ids [OF ids] by blast
  moreover have "post_fits w' a p" if "(a, p) \<in> set (sy_posts (w_sys w'))" for a p
    using that posts world_invD(6) [OF inv] post_fits_ids [OF ids] by auto
  ultimately show ?thesis unfolding world_inv_def by blast
qed

lemma sys_posts_step:
  assumes "sys_step s t"
  obtains "sy_posts t = sy_posts s"
  | a p line where "sy_posts t = sy_posts s @ [(a, p)]" "handleAction (sy_reg s) a = (line, Some p)"
  using assms
proof (cases rule: sys_step_cases)
  case (handle_action a ch line p)
  then show ?thesis using that by (cases p) auto
qed (use that in auto)

lemma new_post_fits:
  assumes inv: "world_inv b w" and h: "handleAction (sy_reg (w_sys w)) a = (line, Some p)"
  shows "post_fits w a p"
proof -
  from world_invD(1) [OF inv] obtain mem where reach: "sys_step\<^sup>*\<^sup>* (main_init mem) (w_sys w)" by blast
  from post_address [OF reach h] obtain t hb where
    hb: "last_report (node_key (a_NodeID a) (a_GPUID a)) (sy_applied (w_sys w)) = Some (t, hb)"
      "po_url p = hb_AgentAddr hb @ ''/command''" by blast
  have "hb \<in> set (sy_accepted (w_sys w))"
    using last_report_Some(1) [OF hb(1)] reachable_history [OF reach] by (force simp: history_inv_def)
  then have "reporter_known w hb" by (rule world_invD(5) [OF inv])
  then obtain ag where ag: "w_agents w (hb_AgentAddr hb) = Some ag" "agent_key (ag_payload ag) = hb_key hb"
    unfolding reporter_known_def by blast
  have key: "hb_key hb = node_key (a_NodeID a) (a_GPUID a)" using last_report_Some(2) [OF hb(1)] .
  have "agent_key (ag_payload ag') = node_key (a_NodeID a) (a_GPUID a)"
    if "po_url p = addr @ ''/command''" "w_agents w addr = Some ag'" for addr ag'
  proof -
    from that(1) hb(2) have "addr = hb_AgentAddr hb" by simp
    with that(2) ag key show ?thesis by simp
  qed
  with handleAction_post [OF h] show ?thesis unfolding post_fits_def by blast
qed

lemma scheduler_posts:
  assumes "world_inv b w" and "sys_step (w_sys w) s"
  obtains new where "sy_posts s = sy_posts (w_sys w) @ new" "\<And>a p. (a, p) \<in> set new \<Longrightarrow> post_fits w a p"
  using assms(2)
proof (cases rule: sys_posts_step)
  case 1
  with that [of "[]"] show thesis by simp
next
  case (2 a p line)
  with that [of "[(a, p)]"] new_post_fits [OF assms(1) 2(2)] show thesis by simp
qed

lemma identities_update:
  assumes "w_agents w addr = Some ag" and "shape (ag_payload ag') = shape (ag_payload ag)"
  shows "identities (w\<lparr>w_agents := (w_agents w)(addr \<mapsto> ag')\<rparr>) = identities w"
  using assms by (auto simp: identities_def)

lemma agent_ok_shape:
  assumes "shape (ag_payload ag') = shape (ag_payload ag)" and "agent_ok b addr ag"
  shows "agent_ok b addr ag'"
  using assms build_ok_shape [OF assms(1)] by (simp add: agent_ok_def shape_def)

lemma reporter_of_report:
  assumes "world_inv b w" and "w_agents w addr = Some ag" and "ag_beat ag = Posting q"
  shows "reporter_known w (report q)"
proof -
  have ok: "agent_ok (b addr) addr ag" "posting_ok ag" using world_invD(3) [OF assms(1,2)] by blast+
  then have "shape q = shape (ag_payload ag)" using assms(3) by (simp add: posting_ok_def)
  then have "hp_agent_addr q = addr" "agent_key q = agent_key (ag_payload ag)"
    using ok(1) agent_key_shape by (simp_all add: agent_ok_def shape_def)
  with assms(2) show ?thesis
    by (simp add: reporter_known_def hb_key_def report_def agent_key_def)
qed

lemma acknowledged_report:
  "set (acknowledged (heartbeat_request e q) rsp) \<subseteq> {report q}"
  by (auto simp: acknowledged_def heartbeat_request_def)

lemma agent_step_ok:
  assumes "agent_step b ag ag'" and "agent_ok b addr ag" and "posting_ok ag"
  shows "shape (ag_payload ag') = shape (ag_payload ag)" "posting_ok ag'"
    "ag_calls ag' n = Some x \<Longrightarrow> ag_calls ag n = Some x"
proof -
  have ok: "build_ok b (ag_payload ag)" using assms(2) by (simp add: agent_ok_def)
  show same: "shape (ag_payload ag') = shape (ag_payload ag)" by (rule agent_step_shape [OF assms(1) ok])
  show "posting_ok ag'"
    using assms(1)
  proof cases
    case (finished n cmd cap oc)
    with assms(3) same show ?thesis by (auto simp: posting_ok_def)
  qed (simp_all add: posting_ok_def)
  show "ag_calls ag' n = Some x \<Longrightarrow> ag_calls ag n = Some x"
    using assms(1) by cases (auto split: if_splits)
qed

text \<open>A step keeps who everybody is, and the invariant.\<close>

lemma world_step_identities:
  assumes inv: "world_inv b w" and "world_step b w w'"
  shows "identities w' = identities w"
  using assms(2)
proof cases
  case (agent addr ag ag')
  have ok: "agent_ok (b addr) addr ag" "posting_ok ag" using world_invD(3) [OF inv agent(2)] by blast+
  show ?thesis unfolding agent(1)
    by (rule identities_update [OF agent(2) agent_step_ok(1) [OF agent(3) ok]])
qed (auto simp: identities_def accept_command_def)

lemma world_inv_step:
  assumes inv: "world_inv b w" and step: "world_step b w w'"
  shows "world_inv b w'"
proof -
  note frame = world_inv_frame [OF inv world_sys_step [OF step] world_step_identities [OF inv step]]
  from step show ?thesis
  proof cases
    case (scheduler s)
    obtain new where "sy_posts s = sy_posts (w_sys w) @ new" "\<And>a p. (a, p) \<in> set new \<Longrightarrow> post_fits w a p"
      by (rule scheduler_posts [OF inv scheduler(2)]) blast
    with scheduler show ?thesis by (intro frame [of new]) simp_all
  next
    case (agent addr ag ag')
    have ok: "agent_ok (b addr) addr ag" "posting_ok ag" using world_invD(3) [OF inv agent(2)] by blast+
    note ok' = agent_step_ok [OF agent(3) ok]
    have calls: "call_ok w addr n cmd" if "ag_calls ag' n = Some (cmd, cap)" for n cmd cap
      by (rule world_invD(4) [OF inv agent(2) ok'(3) [OF that]])
    show ?thesis
      by (rule frame [of "[]"]) (use agent(1) agent_ok_shape [OF ok'(1) ok(1)] ok'(2) calls in \<open>auto split: if_splits\<close>)
  next
    case (heartbeat addr ag p e lines rsp ch)
    have ok: "agent_ok (b addr) addr ag" "posting_ok ag" using world_invD(3) [OF inv heartbeat(2)] by blast+
    have rep: "reporter_known w (report p)" by (rule reporter_of_report [OF inv heartbeat(2,3)])
    have ok': "agent_ok (b addr) addr (ag\<lparr>ag_beat := Resting\<rparr>)" "posting_ok (ag\<lparr>ag_beat := Resting\<rparr>)"
      using ok by (simp_all add: agent_ok_def posting_ok_def)
    show ?thesis
      by (rule frame [of "[]"])
        (use heartbeat(1) ok' rep acknowledged_report [of e p rsp] world_invD(4) [OF inv heartbeat(2)] in
          \<open>auto split: if_splits\<close>)
  next
    case (heartbeat_lost addr ag p)
    have ok: "agent_ok (b addr) addr (ag\<lparr>ag_beat := Resting\<rparr>)" "posting_ok (ag\<lparr>ag_beat := Resting\<rparr>)"
      using world_invD(3) [OF inv heartbeat_lost(2)] by (simp_all add: agent_ok_def posting_ok_def)
    show ?thesis
      by (rule frame [of "[]"])
        (use heartbeat_lost(1) ok world_invD(4) [OF inv heartbeat_lost(2)] in \<open>auto split: if_splits\<close>)
  next
    case (command n a p addr ag)
    let ?ag = "accept_command n (agent_view (po_body p)) ag"
    have ok: "agent_ok (b addr) addr ?ag" "posting_ok ?ag"
      using world_invD(3) [OF inv command(5)] by (simp_all add: agent_ok_def posting_ok_def accept_command_def)
    have "n < length (sy_posts (w_sys w))" using world_invD(2) [OF inv] command(2) by blast
    then have "call_ok w' addr n (agent_view (po_body p))" using command(1,3,4) by (simp add: call_ok_def)
    then have calls: "call_ok w addr i cmd \<or> call_ok w' addr i cmd" if "ag_calls ?ag i = Some (cmd, cap)" for i cmd cap
      using that world_invD(4) [OF inv command(5)] by (auto simp: accept_command_def split: if_splits)
    show ?thesis
      by (rule frame [of "[]"]) (use command(1) ok calls in \<open>auto split: if_splits\<close>)
  next
    case (command_lost n)
    then show ?thesis by (intro frame [of "[]"]) auto
  qed
qed

lemma world_inv_start:
  assumes "world_start b w"
  shows "world_inv b w"
proof -
  from assms obtain mem where "w_sys w = main_init mem" by (auto simp: world_start_def)
  moreover have "sys_step\<^sup>*\<^sup>* (main_init mem) (main_init mem)" by simp
  ultimately show ?thesis using assms
    by (fastforce simp: world_inv_def world_start_def posting_ok_def main_init_def)
qed

interpretation world: invariant_system "world_start b" "world_step b" "world_inv b" for b
  by unfold_locales (rule world_inv_start, assumption, rule world_inv_step)

lemma reachable_identities:
  assumes "world_start b w0" and "(world_step b)\<^sup>*\<^sup>* w0 w"
  shows "identities w = identities w0"
  using assms(2)
proof (induction rule: rtranclp_induct)
  case (step w w')
  from world_step_identities [OF world.reachable_inv [OF assms(1) step(1)] step(2)] step(3) show ?case by simp
qed simp

section \<open>What agents hold was placed\<close>

lemma sliceKey_node_key: "sliceKey n g sid = node_key n g @ slash @ (if sid = [] then ''full'' else sid)"
  by (simp add: sliceKey_def node_key_def)

abbreviation unit_key :: "HeartbeatPayload \<Rightarrow> string \<Rightarrow> string" where
  "unit_key p sid \<equiv> sliceKey (hp_node_id p) (hp_gpu_id p) sid"

lemma unit_key_shape: "shape p = shape q \<Longrightarrow> unit_key p sid = unit_key q sid"
  by (simp add: shape_def)

text \<open>What an action does to a set of models.\<close>

definition carried_out :: "ReconcileAction \<Rightarrow> string set \<Rightarrow> string set" where
  "carried_out a S = (if a_Type a = ActionPrewarm then insert (a_ModelName a) S else S - {a_ModelName a})"

text \<open>A slice changes only when a command for it ends, by what its action says.\<close>

lemma slice_changes:
  assumes inv: "world_inv b w" and ag: "w_agents w addr = Some ag" and step: "agent_step (b addr) ag ag'"
    and sid: "sid \<noteq> []"
  shows "held (ag_payload ag') sid = held (ag_payload ag) sid \<or>
    (\<exists>n a p. n \<in> dom (ag_calls ag) \<and> sy_posts (w_sys w) ! n = (a, p) \<and> (a, p) \<in> set (sy_posts (w_sys w)) \<and>
      target_key a = unit_key (ag_payload ag) sid \<and> a_SliceID a = sid \<and> a_Type a \<in> {ActionPrewarm, ActionEvict} \<and>
      held (ag_payload ag') sid = map_option (carried_out a) (held (ag_payload ag) sid))"
  using step
proof cases
  case (refreshed q)
  have "build_ok (b addr) (ag_payload ag)" using world_invD(3) [OF inv ag] by (simp add: agent_ok_def)
  from refreshes_slices(2) [OF refreshed(3) this sid] refreshed(1) show ?thesis by simp
next
  case copied
  then show ?thesis by simp
next
  case (finished n cmd cap oc)
  obtain a p where ap: "sy_posts (w_sys w) ! n = (a, p)" by (cases "sy_posts (w_sys w) ! n")
  from world_invD(4) [OF inv ag finished(2)] ap have n: "n < length (sy_posts (w_sys w))"
    and p: "po_url p = addr @ ''/command''" "cmd = agent_view (po_body p)"
    by (auto simp: call_ok_def)
  have mem: "(a, p) \<in> set (sy_posts (w_sys w))" using n ap by (metis nth_mem)
  note fits = world_invD(6) [OF inv this, unfolded post_fits_def]
  then have key: "agent_key (ag_payload ag) = node_key (a_NodeID a) (a_GPUID a)" using p(1) ag by blast
  note h = held_finish [of "po_body p" oc "ag_payload ag" sid, folded p(2), OF finished(3)]
  show ?thesis
  proof (cases "sid = ac_SliceID (po_body p) \<and> succeeded oc")
    case False
    with h finished(1) show ?thesis by simp
  next
    case True
    from fits have ok: "post_ok a p" by blast
    then have body: "ac_ModelName (po_body p) = a_ModelName a" "ac_SliceID (po_body p) = a_SliceID a"
      "a_Type a = ActionPrewarm \<and> ac_Action (po_body p) = ''PREWARM'' \<or>
       a_Type a = ActionEvict \<and> ac_Action (po_body p) = ''EVICT''"
      by (auto simp: post_ok_def)
    have "target_key a = unit_key (ag_payload ag) sid"
      using key True body(2) by (simp add: sliceKey_node_key agent_key_def)
    moreover have "held (ag_payload ag') sid = map_option (carried_out a) (held (ag_payload ag) sid)"
      using h True body finished(1) by (cases "held (ag_payload ag) sid") (auto simp: carried_out_def)
    moreover have "n \<in> dom (ag_calls ag)" using finished(2) by blast
    ultimately show ?thesis using ap mem body True by (intro disjI2 exI [of _ n] exI [of _ a] exI [of _ p]) auto
  qed
qed

definition slices_justified :: "world \<Rightarrow> world \<Rightarrow> bool" where
  "slices_justified w0 w \<longleftrightarrow> (\<forall>addr ag sid S. w_agents w addr = Some ag \<longrightarrow> sid \<noteq> [] \<longrightarrow>
     held (ag_payload ag) sid = Some S \<longrightarrow> (\<exists>ag0 S0. w_agents w0 addr = Some ag0 \<and>
       held (ag_payload ag0) sid = Some S0 \<and>
       S \<subseteq> S0 \<union> committed (sy_gateway (w_sys w)) (unit_key (ag_payload ag) sid)))"

text \<open>An agent whose slices are as before stays justified.\<close>

lemma slices_frame:
  assumes just: "slices_justified w0 w" and run: "sys_step (w_sys w) (w_sys w')"
    and agents: "\<And>addr ag' sid. w_agents w' addr = Some ag' \<Longrightarrow> sid \<noteq> [] \<Longrightarrow> \<exists>ag. w_agents w addr = Some ag \<and>
      unit_key (ag_payload ag') sid = unit_key (ag_payload ag) sid \<and>
      (\<forall>S'. held (ag_payload ag') sid = Some S' \<longrightarrow> (\<exists>S. held (ag_payload ag) sid = Some S \<and>
        S' \<subseteq> S \<union> committed (sy_gateway (w_sys w)) (unit_key (ag_payload ag) sid)))"
  shows "slices_justified w0 w'"
  unfolding slices_justified_def
proof (intro allI impI)
  fix addr ag' sid S' assume ag': "w_agents w' addr = Some ag'" "sid \<noteq> []" "held (ag_payload ag') sid = Some S'"
  from agents [OF ag'(1,2)] ag'(3) obtain ag S where ag: "w_agents w addr = Some ag"
    "unit_key (ag_payload ag') sid = unit_key (ag_payload ag) sid" "held (ag_payload ag) sid = Some S"
    "S' \<subseteq> S \<union> committed (sy_gateway (w_sys w)) (unit_key (ag_payload ag) sid)" by blast
  from just ag(1,3) ag'(2) obtain ag0 S0 where ag0: "w_agents w0 addr = Some ag0" "held (ag_payload ag0) sid = Some S0"
    "S \<subseteq> S0 \<union> committed (sy_gateway (w_sys w)) (unit_key (ag_payload ag) sid)"
    unfolding slices_justified_def by blast
  have "committed (sy_gateway (w_sys w)) k \<subseteq> committed (sy_gateway (w_sys w')) k" for k
    by (rule committed_mono, rule r_into_rtranclp, rule run)
  with ag(2,4) ag0(3) have "S' \<subseteq> S0 \<union> committed (sy_gateway (w_sys w')) (unit_key (ag_payload ag') sid)" by auto
  with ag0 show "\<exists>ag0 S0. w_agents w0 addr = Some ag0 \<and> held (ag_payload ag0) sid = Some S0 \<and>
      S' \<subseteq> S0 \<union> committed (sy_gateway (w_sys w')) (unit_key (ag_payload ag') sid)" by blast
qed

lemma slices_justified_step:
  assumes inv: "world_inv b w" and just: "slices_justified w0 w" and step: "world_step b w w'"
  shows "slices_justified w0 w'"
proof -
  note run = world_sys_step [OF step]
  show ?thesis
  proof (cases "\<exists>addr ag ag'. w_agents w addr = Some ag \<and> agent_step (b addr) ag ag' \<and>
      w' = w\<lparr>w_agents := (w_agents w)(addr \<mapsto> ag')\<rparr>")
    case True
    then obtain addr ag ag' where ag: "w_agents w addr = Some ag" "agent_step (b addr) ag ag'"
      and w': "w' = w\<lparr>w_agents := (w_agents w)(addr \<mapsto> ag')\<rparr>" by blast
    have ok: "agent_ok (b addr) addr ag" "posting_ok ag" using world_invD(3) [OF inv ag(1)] by blast+
    note same = unit_key_shape [OF agent_step_ok(1) [OF ag(2) ok]]
    have more: "\<exists>S. held (ag_payload ag) sid = Some S \<and>
        S' \<subseteq> S \<union> committed (sy_gateway (w_sys w)) (unit_key (ag_payload ag) sid)"
      if sid: "sid \<noteq> []" and S': "held (ag_payload ag') sid = Some S'" for sid S'
      using slice_changes [OF inv ag sid]
    proof
      assume "held (ag_payload ag') sid = held (ag_payload ag) sid"
      with S' show ?thesis by auto
    next
      assume "\<exists>n a p. n \<in> dom (ag_calls ag) \<and> sy_posts (w_sys w) ! n = (a, p) \<and> (a, p) \<in> set (sy_posts (w_sys w)) \<and>
        target_key a = unit_key (ag_payload ag) sid \<and> a_SliceID a = sid \<and> a_Type a \<in> {ActionPrewarm, ActionEvict} \<and>
        held (ag_payload ag') sid = map_option (carried_out a) (held (ag_payload ag) sid)"
      then obtain a p where a: "(a, p) \<in> set (sy_posts (w_sys w))" "target_key a = unit_key (ag_payload ag) sid"
        "held (ag_payload ag') sid = map_option (carried_out a) (held (ag_payload ag) sid)" by blast
      obtain mem where "sys_step\<^sup>*\<^sup>* (main_init mem) (w_sys w)" using world_invD(1) [OF inv] by blast
      then have "sys_inv (w_sys w)" using sys_runs.reachable_inv by blast
      moreover have "a \<in> pending_actions (w_sys w)" using a(1) by (force simp: pending_actions_def)
      ultimately have "justified (sy_gateway (w_sys w)) a" by (simp add: sys_inv_def)
      moreover obtain S where "held (ag_payload ag) sid = Some S" "S' = carried_out a S"
        using a(3) S' by (cases "held (ag_payload ag) sid") auto
      ultimately show ?thesis using a(2) by (auto simp: carried_out_def justified_def split: if_splits)
    qed
    show ?thesis
      by (rule slices_frame [OF just run]) (use w' ag(1) same more in \<open>auto split: if_splits\<close>)
  next
    case False
    from step show ?thesis
    proof cases
      case (agent addr ag ag')
      with False show ?thesis by blast
    qed (rule slices_frame [OF just run]; auto simp: accept_command_def split: if_splits)+
  qed
qed

lemma reachable_slices:
  assumes "world_start b w0" and "(world_step b)\<^sup>*\<^sup>* w0 w"
  shows "slices_justified w0 w"
  using assms(2)
proof (induction rule: rtranclp_induct)
  case base
  show ?case unfolding slices_justified_def by blast
next
  case (step w w')
  have "world_inv b w" by (rule world.reachable_inv [OF assms(1) step(1)])
  from slices_justified_step [OF this step(3,2)] show ?case .
qed

text \<open>
  C2. Nothing is loaded that was not placed, across the whole system: in every interleaving of the
  scheduler, all agents with their heartbeat loops and command tasks, their loaders, and a network
  that delays, reorders and loses requests, a model on the books of a slice was on them when the agent started or
  a client was answered 200 with a decision that places it on that slice of that GPU.
\<close>

theorem agents_hold_what_was_placed:
  assumes "world_start b w0" and "(world_step b)\<^sup>*\<^sup>* w0 w"
    and "w_agents w addr = Some ag" and "sid \<noteq> []"
    and "held (ag_payload ag) sid = Some S" and "m \<in> S"
  shows "(\<exists>ag0 S0. w_agents w0 addr = Some ag0 \<and> held (ag_payload ag0) sid = Some S0 \<and> m \<in> S0) \<or>
    (\<exists>i rq r req d. g_handlers (sy_gateway (w_sys w)) i = Some \<lparr>h_request = rq, h_state = Replied r\<rparr> \<and>
      rs_status r = 200 \<and> rs_body r = DecisionJSON d \<and> rq_body rq = Inr req \<and> ModelName req = m \<and>
      sliceKey (d_NodeID d) (d_GPUID d) (d_SliceID d) =
        sliceKey (hp_node_id (ag_payload ag)) (hp_gpu_id (ag_payload ag)) sid)"
proof -
  have "world_inv b w" by (rule world.reachable_inv [OF assms(1,2)])
  from world_invD(1) [OF this] have inv: "sys_inv (w_sys w)" using sys_runs.reachable_inv by blast
  have "slices_justified w0 w" by (rule reachable_slices [OF assms(1,2)])
  with assms(3-5) obtain ag0 S0 where "w_agents w0 addr = Some ag0" "held (ag_payload ag0) sid = Some S0"
    "S \<subseteq> S0 \<union> committed (sy_gateway (w_sys w)) (unit_key (ag_payload ag) sid)"
    unfolding slices_justified_def by blast
  with assms(6) committed_reply [OF inv] show ?thesis by blast
qed

end
