(* ===== verification/Convergence.thy ===== *)
theory Convergence
  imports World
begin

text \<open>
  The goal of the whole: what clients were told to be placed on a slice is in the end what the agent
  holds there, and stays so. The theory states what this needs of the parts, as properties of an
  infinite run, and shows that scheduler, network and agent then settle on the desired models.
\<close>

section \<open>What a run has to give\<close>

abbreviation system_run :: "(nat \<Rightarrow> world) \<Rightarrow> nat \<Rightarrow> system" where
  "system_run f \<equiv> \<lambda>i. w_sys (f i)"

text \<open>The goroutines of the scheduler are not neglected.\<close>

definition fair_scheduler :: "(nat \<Rightarrow> world) \<Rightarrow> bool" where
  "fair_scheduler f \<longleftrightarrow> fair pass_move (system_run f) \<and> strongly_fair apply_move (system_run f) \<and>
     strongly_fair handle_move (system_run f)"

text \<open>No request is under way for ever, and no call of an agent to its loader lasts for ever.\<close>

definition nothing_hangs :: "string \<Rightarrow> (nat \<Rightarrow> world) \<Rightarrow> bool" where
  "nothing_hangs addr f \<longleftrightarrow> (\<forall>i. \<forall>n \<in> w_mail (f i). \<exists>j \<ge> i. n \<notin> w_mail (f j)) \<and>
     (\<forall>i ag. \<forall>n \<in> dom (ag_calls ag). w_agents (f i) addr = Some ag \<longrightarrow>
       (\<exists>j \<ge> i. \<exists>ag'. w_agents (f j) addr = Some ag' \<and> n \<notin> dom (ag_calls ag')))"

text \<open>
  Requests and loads may fail, but not for ever: a command that is sent to an agent again and again is
  carried out again and again.
\<close>

definition sends :: "string \<Rightarrow> agentCommand \<Rightarrow> world \<Rightarrow> world \<Rightarrow> bool" where
  "sends addr c w w' \<longleftrightarrow> (\<exists>a p. sy_posts (w_sys w') = sy_posts (w_sys w) @ [(a, p)] \<and>
     po_url p = addr @ ''/command'' \<and> po_body p = c)"

definition carries_out :: "string \<Rightarrow> agentCommand \<Rightarrow> world \<Rightarrow> world \<Rightarrow> bool" where
  "carries_out addr c w w' \<longleftrightarrow> (\<exists>ag n cap oc. w_agents w addr = Some ag \<and> ag_calls ag n = Some (agent_view c, cap) \<and>
     answers (agent_view c) oc \<and> succeeded oc \<and>
     w_agents w' addr = Some (ag\<lparr>ag_payload := fst (finish_command (agent_view c) oc (ag_payload ag)),
       ag_calls := (ag_calls ag)(n := None)\<rparr>))"

definition keeps_trying :: "string \<Rightarrow> (nat \<Rightarrow> world) \<Rightarrow> bool" where
  "keeps_trying addr f \<longleftrightarrow> (\<forall>c. (\<forall>i. \<exists>j \<ge> i. sends addr c (f j) (f (Suc j))) \<longrightarrow>
     (\<forall>i. \<exists>j \<ge> i. carries_out addr c (f j) (f (Suc j))))"

text \<open>The scheduler acknowledges a heartbeat of the agent.\<close>

definition hears :: "string \<Rightarrow> world \<Rightarrow> world \<Rightarrow> bool" where
  "hears addr w w' \<longleftrightarrow> (\<exists>ag q. w_agents w addr = Some ag \<and> ag_beat ag = Posting q \<and>
     w_agents w' addr = Some (ag\<lparr>ag_beat := Resting\<rparr>) \<and>
     sy_accepted (w_sys w') = sy_accepted (w_sys w) @ [report q])"

section \<open>Facts about runs\<close>

lemma world_run_system: "is_run (world_step b) f \<Longrightarrow> is_run sys_step (system_run f)"
  by (auto simp: is_run_def intro: world_sys_step)

lemma world_run_inv:
  assumes "world_inv b (f 0)" and "is_run (world_step b) f"
  shows "world_inv b (f i)"
  by (rule world.steps_inv [OF run_steps [OF assms(2) le0] assms(1)])

lemma run_identities:
  assumes "world_inv b (f 0)" and run: "is_run (world_step b) f"
  shows "identities (f i) = identities (f 0)"
proof (induction i)
  case (Suc i)
  have "world_step b (f i) (f (Suc i))" using run by (simp add: is_run_def)
  from world_step_identities [OF world_run_inv [OF assms] this] Suc show ?case by simp
qed simp

text \<open>What happens once and for all to each of finitely many things has happened to all of them.\<close>

lemma eventually_all:
  assumes "\<And>n. n < N \<Longrightarrow> \<exists>k. \<forall>i \<ge> k. P n i"
  shows "\<exists>k. \<forall>i \<ge> k. \<forall>n < (N :: nat). P n (i :: nat)"
  using assms
proof (induction N)
  case (Suc N)
  then obtain k where "\<forall>i \<ge> k. \<forall>n < N. P n i" by (metis less_Suc_eq)
  moreover obtain k' where "\<forall>i \<ge> k'. P N i" using Suc.prems by blast
  ultimately have "\<forall>i \<ge> max k k'. \<forall>n < Suc N. P n i" by (simp add: less_Suc_eq)
  then show ?case by blast
qed simp

text \<open>Shrinking finite sets come to rest.\<close>

lemma shrinking_rests:
  assumes fin: "finite (W k)" and shrinks: "\<And>i. k \<le> i \<Longrightarrow> W (Suc i) \<subseteq> W i"
  shows "\<exists>l \<ge> k. \<forall>j \<ge> l. W j = W (l :: nat)"
proof -
  have down: "W j \<subseteq> W i" if "k \<le> i" "i \<le> j" for i j
    using that(2,1) by (induction j rule: dec_induct) (use shrinks in \<open>auto dest: order_trans\<close>)
  then have finite: "finite (W i)" if "k \<le> i" for i using fin that finite_subset by blast
  obtain l where l: "k \<le> l" "\<And>j. k \<le> j \<Longrightarrow> card (W l) \<le> card (W j)"
    using ex_has_least_nat [of "\<lambda>j. k \<le> j" k "\<lambda>j. card (W j)"] by blast
  have "W j = W l" if "l \<le> j" for j
    by (rule card_seteq [OF finite [OF l(1)] down [OF l(1) that]]) (use l that in auto)
  with l(1) show ?thesis by blast
qed

section \<open>Commands in the wrong direction die out\<close>

text \<open>Of a unit with desired models \<open>D\<close>, an action that does not contradict them.\<close>

definition agrees :: "string \<Rightarrow> string set \<Rightarrow> ReconcileAction \<Rightarrow> bool" where
  "agrees key D a \<longleftrightarrow> (target_key a = key \<longrightarrow>
     (a_Type a = ActionPrewarm \<longrightarrow> a_ModelName a \<in> D) \<and> (a_Type a = ActionEvict \<longrightarrow> a_ModelName a \<notin> D))"

lemma decided_step:
  assumes "sys_step s t"
  obtains new where "sy_decided t = sy_decided s @ new"
    "\<And>a. a \<in> set new \<Longrightarrow> a_Type a = ActionMarkDead \<or> (\<exists>n sid loaded. a \<in> drift (rec_of s) n sid loaded)"
  using assms
proof (cases rule: sys_step_cases)
  case (advance pick ks reg c acts)
  have "a_Type a = ActionMarkDead \<or> (\<exists>n sid loaded. a \<in> drift (rec_of s) n sid loaded)" if "a \<in> set acts" for a
    using pass_step_actions [OF advance(6,4,5) that] by (auto simp: dead_action_def)
  with that [of acts] advance(1) show thesis by simp
qed (use that [of "[]"] in simp_all)

lemma drift_agrees:
  assumes "a \<in> drift r n sid loaded" and "desired r key = Some D"
  shows "agrees key D a"
  using assms by (auto simp: drift_def agrees_def split: option.splits)

lemma decided_agree:
  assumes run: "is_run sys_step f" and des: "\<And>i. desired (rec_of (f i)) key = Some D"
  shows "\<exists>new. sy_decided (f i) = sy_decided (f 0) @ new \<and> (\<forall>a \<in> set new. agrees key D a)"
proof (induction i)
  case (Suc i)
  then obtain new where new: "sy_decided (f i) = sy_decided (f 0) @ new" "\<forall>a \<in> set new. agrees key D a" by blast
  have "sys_step (f i) (f (Suc i))" using run by (simp add: is_run_def)
  then obtain more where "sy_decided (f (Suc i)) = sy_decided (f i) @ more"
    "\<And>a. a \<in> set more \<Longrightarrow> a_Type a = ActionMarkDead \<or> (\<exists>n sid loaded. a \<in> drift (rec_of (f i)) n sid loaded)"
    by (rule decided_step) blast
  moreover have "agrees key D a" if "a_Type a = ActionMarkDead" for a using that by (simp add: agrees_def)
  ultimately have "agrees key D a" if "a \<in> set more" for a using drift_agrees [OF _ des] that by blast
  then show ?case using new \<open>sy_decided (f (Suc i)) = _\<close> by (intro exI [of _ "new @ more"]) auto
qed simp

lemma later_part: "xs @ new = ys @ a # zs \<Longrightarrow> length xs \<le> length ys \<Longrightarrow> a \<in> set new"
  by (auto simp: append_eq_append_conv2 append_eq_Cons_conv)

text \<open>So the requests sent after some time agree with the desired state.\<close>

lemma posts_agree:
  assumes reach: "sys_step\<^sup>*\<^sup>* (main_init mem) (f 0)" and run: "is_run sys_step f"
    and fair: "fair pass_move f" "strongly_fair handle_move f"
    and des: "\<And>i. desired (rec_of (f i)) key = Some D"
  shows "\<exists>j N. \<forall>i \<ge> j. N \<le> length (sy_posts (f i)) \<and> (\<forall>(a, p) \<in> set (drop N (sy_posts (f i))). agrees key D a)"
proof -
  have at: "sys_step\<^sup>*\<^sup>* (main_init mem) (f k)" for k
    using rtranclp_trans [OF reach run_steps [OF run le0]] .
  obtain j where j: "length (sy_decided (f 0)) \<le> length (sy_handled (f j))"
    using dispatching.catches_up [OF run reachable_actions [OF reach] fair(2) pass_idle_again [OF reach run fair(1)], of 0]
    by blast
  let ?N = "length (sy_posts (f j))"
  have "?N \<le> length (sy_posts (f i)) \<and> (\<forall>(a, p) \<in> set (drop ?N (sy_posts (f i))). agrees key D a)" if "j \<le> i" for i
    using that
  proof (induction i rule: dec_induct)
    case (step i)
    have "sys_step (f i) (f (Suc i))" using run by (simp add: is_run_def)
    then show ?case
    proof (cases rule: sys_step_cases)
      case (handle_action a ch line p)
      have "length (sy_decided (f 0)) \<le> length (sy_handled (f i))"
        using j dispatching.served_mono_steps [OF run_steps [OF run step(1)]] by simp
      moreover have "sy_decided (f i) = sy_handled (f i) @ a # ch_buf ch @ sy_unsent (f i)"
        using reachable_actions [OF at] recv_buf [OF handle_action(2)] by (simp add: actions_inv_def)
      moreover obtain new where "sy_decided (f i) = sy_decided (f 0) @ new" "\<forall>a \<in> set new. agrees key D a"
        using decided_agree [of f, OF run des] by blast
      ultimately have "a \<in> set new"
        by (auto intro: later_part)
      with step(3) handle_action(1) \<open>\<forall>a \<in> set new. agrees key D a\<close> show ?thesis by (auto split: option.splits)
    qed (use step(3) in auto)
  qed simp
  then show ?thesis by blast
qed

text \<open>Numbered requests do not come back: neither to the network nor to the agent.\<close>

lemma world_step_posts:
  "world_step b w w' \<Longrightarrow> length (sy_posts (w_sys w)) \<le> length (sy_posts (w_sys w'))"
  by (drule world_sys_step) (erule sys_posts_step; simp)

lemma world_step_mail:
  assumes "world_step b w w'" and "n < length (sy_posts (w_sys w))" and "n \<notin> w_mail w"
  shows "n \<notin> w_mail w'"
  using assms by cases auto

lemma world_step_calls:
  assumes "world_step b w w'" and "w_agents w' addr = Some ag'"
  shows "\<exists>ag. w_agents w addr = Some ag \<and> dom (ag_calls ag') \<subseteq> dom (ag_calls ag) \<union> w_mail w"
  using assms
proof cases
  case (agent addr' ag1 ag2)
  from agent(3) have "dom (ag_calls ag2) \<subseteq> dom (ag_calls ag1)" by cases auto
  with agent(1,2) assms(2) show ?thesis by (auto split: if_splits)
qed (use assms(2) in \<open>auto simp: accept_command_def split: if_splits\<close>)

lemma gone_for_good:
  assumes run: "is_run (world_step b) f" and hang: "nothing_hangs addr f"
    and n: "n < length (sy_posts (w_sys (f i0)))" and alive: "\<And>i. w_agents (f i) addr \<noteq> None"
  shows "\<exists>k. \<forall>i \<ge> k. n \<notin> w_mail (f i) \<and> (\<forall>ag. w_agents (f i) addr = Some ag \<longrightarrow> n \<notin> dom (ag_calls ag))"
proof -
  have moves: "world_step b (f i) (f (Suc i))" for i using run by (simp add: is_run_def)
  have sent: "n < length (sy_posts (w_sys (f i)))" if "i0 \<le> i" for i
    using that by (induction i rule: dec_induct) (use n world_step_posts [OF moves] in \<open>auto intro: less_le_trans\<close>)
  have mail: "n \<notin> w_mail (f j)" if "i0 \<le> i" "n \<notin> w_mail (f i)" "i \<le> j" for i j
    using that(3)
  proof (induction j rule: dec_induct)
    case (step j)
    with that(1) have "n < length (sy_posts (w_sys (f j)))" by (intro sent) simp
    from world_step_mail [OF moves this step(3)] show ?case .
  qed (rule that(2))
  obtain k where k: "i0 \<le> k" "n \<notin> w_mail (f k)"
    using hang unfolding nothing_hangs_def by (cases "n \<in> w_mail (f i0)") blast+
  have calls: "\<forall>ag. w_agents (f j) addr = Some ag \<longrightarrow> n \<notin> dom (ag_calls ag)"
    if "k \<le> i" "\<forall>ag. w_agents (f i) addr = Some ag \<longrightarrow> n \<notin> dom (ag_calls ag)" "i \<le> j" for i j
    using that(3)
  proof (induction j rule: dec_induct)
    case base
    show ?case by (rule that(2))
  next
    case (step j)
    have "n \<notin> w_mail (f j)" by (rule mail [OF k]) (use that(1) step in simp)
    with step(3) world_step_calls [OF moves, of j addr] show ?case by blast
  qed
  obtain l where l: "k \<le> l" "\<forall>ag. w_agents (f l) addr = Some ag \<longrightarrow> n \<notin> dom (ag_calls ag)"
  proof -
    obtain ag where ag: "w_agents (f k) addr = Some ag" using alive [of k] by blast
    show thesis
    proof (cases "n \<in> dom (ag_calls ag)")
      case True
      with hang ag obtain j ag' where "k \<le> j" "w_agents (f j) addr = Some ag'" "n \<notin> dom (ag_calls ag')"
        unfolding nothing_hangs_def by blast
      then show thesis by (intro that [of j]) auto
    next
      case False
      with ag show thesis by (intro that [of k]) auto
    qed
  qed
  have "n \<notin> w_mail (f i) \<and> (\<forall>ag. w_agents (f i) addr = Some ag \<longrightarrow> n \<notin> dom (ag_calls ag))" if "l \<le> i" for i
    using mail [OF k, of i] calls [OF l that] l(1) that by simp
  then show ?thesis by blast
qed

text \<open>From some point on every command the agent carries out agrees with the desired state.\<close>

lemma commands_agree:
  assumes inv: "world_inv b (f 0)" and run: "is_run (world_step b) f" and fair: "fair_scheduler f"
    and hang: "nothing_hangs addr f" and agent: "w_agents (f 0) addr \<noteq> None"
    and des: "\<And>i. desired (rec_of (w_sys (f i))) key = Some D"
  shows "\<exists>k. \<forall>i \<ge> k. \<forall>ag n a p. w_agents (f i) addr = Some ag \<longrightarrow> n \<in> dom (ag_calls ag) \<longrightarrow>
    sy_posts (w_sys (f i)) ! n = (a, p) \<longrightarrow> agrees key D a"
proof -
  obtain mem where reach: "sys_step\<^sup>*\<^sup>* (main_init mem) (system_run f 0)" using world_invD(1) [OF inv] by blast
  from fair obtain j N where N: "\<forall>i \<ge> j. N \<le> length (sy_posts (w_sys (f i))) \<and>
      (\<forall>(a, p) \<in> set (drop N (sy_posts (w_sys (f i)))). agrees key D a)"
    using posts_agree [OF reach world_run_system [OF run] _ _ des] unfolding fair_scheduler_def by blast
  have alive: "w_agents (f i) addr \<noteq> None" for i
    using agent fun_cong [OF run_identities [OF inv run, of i], of addr] by (auto simp: identities_def)
  have "\<exists>k. \<forall>i \<ge> k. n \<notin> w_mail (f i) \<and> (\<forall>ag. w_agents (f i) addr = Some ag \<longrightarrow> n \<notin> dom (ag_calls ag))" if "n < N" for n
    by (rule gone_for_good [OF run hang _ alive, of n j]) (use N that in auto)
  from eventually_all [of N "\<lambda>n i. n \<notin> w_mail (f i) \<and> (\<forall>ag. w_agents (f i) addr = Some ag \<longrightarrow> n \<notin> dom (ag_calls ag))", OF this]
  obtain k where k: "\<forall>i \<ge> k. \<forall>n < N. n \<notin> w_mail (f i) \<and> (\<forall>ag. w_agents (f i) addr = Some ag \<longrightarrow> n \<notin> dom (ag_calls ag))"
    by blast
  have "agrees key D a" if i: "max j k \<le> i" and ag: "w_agents (f i) addr = Some ag" "n \<in> dom (ag_calls ag)"
    and a: "sy_posts (w_sys (f i)) ! n = (a, p)" for i ag n a p
  proof -
    have "N \<le> n" using k i ag by (meson max.boundedE not_le)
    moreover obtain cmd cap where "ag_calls ag n = Some (cmd, cap)" using ag(2) by auto
    then have "n < length (sy_posts (w_sys (f i)))"
      using world_invD(4) [OF world_run_inv [OF inv run] ag(1)] by (simp add: call_ok_def)
    ultimately have "(a, p) \<in> set (drop N (sy_posts (w_sys (f i))))"
      using a by (auto simp: in_set_conv_nth intro!: exI [of _ "n - N"])
    with N i show ?thesis by fastforce
  qed
  then show ?thesis by blast
qed

section \<open>Reports follow the agent\<close>

definition distinct_agents :: "world \<Rightarrow> bool" where
  "distinct_agents w \<longleftrightarrow> (\<forall>addr ag addr' ag'. w_agents w addr = Some ag \<longrightarrow> w_agents w addr' = Some ag' \<longrightarrow>
     agent_key (ag_payload ag) = agent_key (ag_payload ag') \<longrightarrow> addr = addr')"

lemma distinct_agents_ids:
  assumes "identities w' = identities w" and "distinct_agents w"
  shows "distinct_agents w'"
  unfolding distinct_agents_def
proof (intro allI impI)
  fix addr ag addr' ag'
  assume ag: "w_agents w' addr = Some ag" "w_agents w' addr' = Some ag'"
    and key: "agent_key (ag_payload ag) = agent_key (ag_payload ag')"
  obtain ag1 where ag1: "w_agents w addr = Some ag1" "shape (ag_payload ag) = shape (ag_payload ag1)"
    by (rule identities_agent [OF assms(1) ag(1)])
  obtain ag2 where ag2: "w_agents w addr' = Some ag2" "shape (ag_payload ag') = shape (ag_payload ag2)"
    by (rule identities_agent [OF assms(1) ag(2)])
  have "agent_key (ag_payload ag1) = agent_key (ag_payload ag2)"
    using key agent_key_shape [OF ag1(2)] agent_key_shape [OF ag2(2)] by simp
  with assms(2) ag1(1) ag2(1) show "addr = addr'" unfolding distinct_agents_def by blast
qed

text \<open>What the loop posts is what the payload was; what is acknowledged is what some loop posts.\<close>

lemma world_step_posting:
  assumes "world_step b w w'" and "w_agents w' addr = Some ag'" and "ag_beat ag' = Posting q"
  shows "\<exists>ag. w_agents w addr = Some ag \<and> (ag_beat ag = Posting q \<or> ag_payload ag = q)"
  using assms
proof cases
  case (agent addr' ag1 ag2)
  from agent(3) have "ag_beat ag2 = Posting q \<Longrightarrow> ag_beat ag1 = Posting q \<or> ag_payload ag1 = q" by cases auto
  with agent(1,2) assms(2,3) show ?thesis by (auto split: if_splits)
qed (use assms(2,3) in \<open>auto simp: accept_command_def split: if_splits\<close>)

lemma world_step_accepted:
  assumes "world_step b w w'"
  obtains new where "sy_accepted (w_sys w') = sy_accepted (w_sys w) @ new"
    "\<And>hb. hb \<in> set new \<Longrightarrow> \<exists>addr ag q. w_agents w addr = Some ag \<and> ag_beat ag = Posting q \<and> hb = report q"
  using assms
proof cases
  case (heartbeat addr ag p e lines rsp ch)
  have "sy_accepted (w_sys w') = sy_accepted (w_sys w) @ acknowledged (heartbeat_request e p) rsp"
    using heartbeat(1) by simp
  with that heartbeat(2,3) acknowledged_report [of e p rsp] show thesis by blast
qed (use that [of "[]"] in simp_all)

lemma last_report_append2:
  "last_report k (xs @ ys) = (case last_report k ys of None \<Rightarrow> last_report k xs | Some r \<Rightarrow> Some r)"
  by (induction ys rule: rev_induct) (auto simp: last_report_def simp flip: append_assoc split: option.splits)

text \<open>
  If the payload has a property from some time on, then so does the last report of the agent, once
  the heartbeats copied and acknowledged before have been applied.
\<close>

lemma posting_follows:
  assumes run: "is_run (world_step b) f" and heard: "\<forall>i. \<exists>j \<ge> i. hears addr (f j) (f (Suc j))"
    and P: "\<And>i ag. k0 \<le> i \<Longrightarrow> w_agents (f i) addr = Some ag \<Longrightarrow> P (ag_payload ag)"
  shows "\<exists>k \<ge> k0. \<forall>i \<ge> k. \<forall>ag q. w_agents (f i) addr = Some ag \<longrightarrow> ag_beat ag = Posting q \<longrightarrow> P q"
proof -
  from heard obtain j where j: "k0 \<le> j" "hears addr (f j) (f (Suc j))" by blast
  have "\<forall>ag q. w_agents (f i) addr = Some ag \<longrightarrow> ag_beat ag = Posting q \<longrightarrow> P q" if "Suc j \<le> i" for i
    using that
  proof (induction i rule: dec_induct)
    case base
    from j(2) show ?case by (auto simp: hears_def)
  next
    case (step i)
    have "world_step b (f i) (f (Suc i))" using run by (simp add: is_run_def)
    from world_step_posting [OF this, of addr] step(3) P [of i] step(1) j(1) show ?case by fastforce
  qed
  with j(1) show ?thesis by (intro exI [of _ "Suc j"]) simp
qed

lemma accepted_follow:
  assumes inv: "world_inv b (f 0)" and run: "is_run (world_step b) f" and dist: "distinct_agents (f 0)"
    and agent: "w_agents (f 0) addr = Some ag0" and posting: "\<And>i ag q. k \<le> i \<Longrightarrow> w_agents (f i) addr = Some ag \<Longrightarrow> ag_beat ag = Posting q \<Longrightarrow> P q"
    and "k \<le> i"
  shows "\<exists>new. sy_accepted (w_sys (f i)) = sy_accepted (w_sys (f k)) @ new \<and>
    (\<forall>hb \<in> set new. hb_key hb = agent_key (ag_payload ag0) \<longrightarrow> (\<exists>q. hb = report q \<and> P q))"
  using assms(6)
proof (induction i rule: dec_induct)
  case (step i)
  have "world_step b (f i) (f (Suc i))" using run by (simp add: is_run_def)
  then obtain more where more: "sy_accepted (w_sys (f (Suc i))) = sy_accepted (w_sys (f i)) @ more"
    "\<And>hb. hb \<in> set more \<Longrightarrow> \<exists>addr ag q. w_agents (f i) addr = Some ag \<and> ag_beat ag = Posting q \<and> hb = report q"
    by (rule world_step_accepted) blast
  note ids = run_identities [OF inv run, of i]
  have "\<exists>q. hb = report q \<and> P q" if hb: "hb \<in> set more" "hb_key hb = agent_key (ag_payload ag0)" for hb
  proof -
    from more(2) [OF hb(1)] obtain addr' ag q where ag: "w_agents (f i) addr' = Some ag" "ag_beat ag = Posting q" "hb = report q"
      by blast
    obtain ag1 where ag1: "w_agents (f i) addr = Some ag1" "shape (ag_payload ag0) = shape (ag_payload ag1)"
      by (rule identities_agent [OF ids [symmetric] agent])
    have "posting_ok ag" using world_invD(3) [OF world_run_inv [OF inv run] ag(1)] by blast
    then have "shape q = shape (ag_payload ag)" using ag(2) by (simp add: posting_ok_def)
    then have "agent_key q = agent_key (ag_payload ag)" by (rule agent_key_shape)
    moreover have "hb_key hb = agent_key q" by (simp add: ag(3) hb_key_def report_def agent_key_def)
    ultimately have "agent_key (ag_payload ag) = agent_key (ag_payload ag1)"
      using hb(2) agent_key_shape [OF ag1(2)] by simp
    with distinct_agents_ids [OF ids dist] ag(1) ag1(1) have "addr' = addr" unfolding distinct_agents_def by blast
    with posting [OF step(1)] ag show ?thesis by blast
  qed
  with step(3) more(1) show ?case by fastforce
qed simp

lemma reports_follow:
  assumes inv: "world_inv b (f 0)" and run: "is_run (world_step b) f" and dist: "distinct_agents (f 0)"
    and fair: "fair_scheduler f" and heard: "\<forall>i. \<exists>j \<ge> i. hears addr (f j) (f (Suc j))"
    and agent: "w_agents (f 0) addr = Some ag0"
    and P: "\<And>i ag. k0 \<le> i \<Longrightarrow> w_agents (f i) addr = Some ag \<Longrightarrow> P (ag_payload ag)"
  shows "\<exists>k \<ge> k0. \<forall>i \<ge> k. \<exists>t q. last_report (agent_key (ag_payload ag0)) (sy_applied (w_sys (f i))) = Some (t, report q) \<and> P q"
proof -
  let ?key = "agent_key (ag_payload ag0)" and ?A = "\<lambda>i. sy_accepted (w_sys (f i))" and ?X = "\<lambda>i. sy_applied (w_sys (f i))"
  obtain mem where reach: "sys_step\<^sup>*\<^sup>* (main_init mem) (system_run f 0)" using world_invD(1) [OF inv] by blast
  note srun = world_run_system [OF run]
  have hist: "history_inv (w_sys (f i))" for i
    by (rule reachable_history [OF rtranclp_trans [OF reach run_steps [OF srun le0]]])
  have "\<exists>k \<ge> k0. \<forall>i \<ge> k. \<forall>ag q. w_agents (f i) addr = Some ag \<longrightarrow> ag_beat ag = Posting q \<longrightarrow> P q"
    by (rule posting_follows [where P = P, OF run heard]) (rule P)
  then obtain k1 where "k0 \<le> k1 \<and> (\<forall>i \<ge> k1. \<forall>ag q. w_agents (f i) addr = Some ag \<longrightarrow> ag_beat ag = Posting q \<longrightarrow> P q)" ..
  then have k1: "k0 \<le> k1"
    "\<And>i ag q. k1 \<le> i \<Longrightarrow> w_agents (f i) addr = Some ag \<Longrightarrow> ag_beat ag = Posting q \<Longrightarrow> P q" by simp_all
  have follow: "\<exists>new. ?A i = ?A k1 @ new \<and> (\<forall>hb \<in> set new. hb_key hb = ?key \<longrightarrow> (\<exists>q. hb = report q \<and> P q))"
    if "k1 \<le> i" for i
    by (rule accepted_follow [where P = P and k = k1, OF inv run dist agent _ that]) (rule k1(2))
  from heard obtain j where j: "k1 \<le> j" "hears addr (f j) (f (Suc j))" by blast
  obtain ag q where ag: "w_agents (f j) addr = Some ag" "ag_beat ag = Posting q" "?A (Suc j) = ?A j @ [report q]"
    using j(2) unfolding hears_def by blast
  have key: "hb_key (report q) = ?key"
  proof -
    obtain ag1 where ag1: "w_agents (f 0) addr = Some ag1" "shape (ag_payload ag) = shape (ag_payload ag1)"
      by (rule identities_agent [OF run_identities [OF inv run] ag(1)])
    have "posting_ok ag" using world_invD(3) [OF world_run_inv [OF inv run] ag(1)] by blast
    then have "shape q = shape (ag_payload ag0)" using ag(2) ag1 agent by (simp add: posting_ok_def)
    from agent_key_shape [OF this] show ?thesis by (simp add: hb_key_def report_def agent_key_def)
  qed
  have "\<exists>l \<ge> Suc j. length (?A (Suc j)) \<le> length (?X l)"
    using fair unfolding fair_scheduler_def
    by (intro intake.catches_up [of "system_run f", OF srun] hist pass_idle_again [OF reach srun]) blast+
  then obtain l where l: "Suc j \<le> l" "length (?A (Suc j)) \<le> length (?X l)" by blast
  have "\<exists>t q. last_report ?key (?X i) = Some (t, report q) \<and> P q" if li: "l \<le> i" for i
  proof -
    have late: "k1 \<le> i" using j(1) l(1) li by simp
    have acc: "?A i = map snd (?X i) @ ch_buf (sy_heartbeats (w_sys (f i)))" using hist by (simp add: history_inv_def)
    have long: "length (?A (Suc j)) \<le> length (?X i)"
      using l(2) intake.served_mono_steps [OF run_steps [OF srun li]] by simp
    obtain new where new: "?A i = ?A k1 @ new" "\<And>hb. hb \<in> set new \<Longrightarrow> hb_key hb = ?key \<Longrightarrow> \<exists>q. hb = report q \<and> P q"
      using follow [OF late] by blast
    obtain rest where rest: "?A i = ?A (Suc j) @ rest"
      using accepted_grows_steps [OF run_steps [OF srun order_trans [OF l(1) li]]] by blast
    obtain before where before: "?A j = ?A k1 @ before" using follow [OF j(1)] by blast
    let ?B = "length (?A k1)"
    have le: "?B \<le> length (?X i)" using long before ag(3) by simp
    have tail: "map snd (drop ?B (?X i)) @ ch_buf (sy_heartbeats (w_sys (f i))) = new"
      using acc new(1) le by (simp add: append_eq_append_conv_if drop_map)
    have "report q \<in> set (map snd (drop ?B (?X i)))"
    proof -
      have "map snd (?X i) = take (length (?X i)) (?A i)" using acc by simp
      also have "\<dots> = ?A (Suc j) @ take (length (?X i) - length (?A (Suc j))) rest" using rest long by simp
      finally have "drop ?B (map snd (?X i)) = before @ [report q] @ take (length (?X i) - length (?A (Suc j))) rest"
        using ag(3) before by simp
      then show ?thesis by (simp add: drop_map)
    qed
    then obtain u where "(u, report q) \<in> set (drop ?B (?X i))" by auto
    then have "last_report ?key (drop ?B (?X i)) \<noteq> None" unfolding last_report_None using key by blast
    then obtain t hb where hb: "last_report ?key (drop ?B (?X i)) = Some (t, hb)" by auto
    from last_report_Some [OF this] tail have "hb \<in> set new" "hb_key hb = ?key" by force+
    from new(2) [OF this] obtain q' where "hb = report q'" "P q'" by blast
    moreover have "last_report ?key (?X i) = Some (t, hb)"
      using last_report_append2 [of ?key "take ?B (?X i)" "drop ?B (?X i)"] hb by simp
    ultimately show ?thesis by blast
  qed
  with k1(1) j(1) l(1) show ?thesis by (intro exI [of _ l]) auto
qed

section \<open>A slice settles\<close>

definition slice_models :: "world \<Rightarrow> string \<Rightarrow> string \<Rightarrow> string set option" where
  "slice_models w addr sid = (case w_agents w addr of None \<Rightarrow> None | Some ag \<Rightarrow> held (ag_payload ag) sid)"

text \<open>The models that are missing or too many.\<close>

definition wrong :: "string set \<Rightarrow> string set \<Rightarrow> string set" where
  "wrong D S = (S - D) \<union> (D - S)"

lemma wrong_empty: "wrong D S = {} \<longleftrightarrow> S = D"
  by (auto simp: wrong_def)

lemma carried_out_less_wrong:
  "agrees key D a \<Longrightarrow> target_key a = key \<Longrightarrow> a_Type a \<in> {ActionPrewarm, ActionEvict} \<Longrightarrow>
     wrong D (carried_out a S) \<subseteq> wrong D S"
  by (auto simp: agrees_def carried_out_def wrong_def)

lemma slice_step:
  assumes inv: "world_inv b w" and step: "world_step b w w'" and sid: "sid \<noteq> []"
    and agent: "w_agents w addr = Some ag" and S: "held (ag_payload ag) sid = Some S"
    and agree: "\<And>n a p. n \<in> dom (ag_calls ag) \<Longrightarrow> sy_posts (w_sys w) ! n = (a, p) \<Longrightarrow>
      agrees (unit_key (ag_payload ag) sid) D a"
  shows "\<exists>S'. slice_models w' addr sid = Some S' \<and> wrong D S' \<subseteq> wrong D S"
proof -
  from step show ?thesis
  proof cases
    case (agent addr' ag1 ag2)
    show ?thesis
    proof (cases "addr' = addr")
      case True
      with agent \<open>w_agents w addr = Some ag\<close> have ag2: "agent_step (b addr) ag ag2" "w_agents w' addr = Some ag2" by simp_all
      from slice_changes [OF inv \<open>w_agents w addr = Some ag\<close> ag2(1) sid] show ?thesis
      proof
        assume "held (ag_payload ag2) sid = held (ag_payload ag) sid"
        with ag2(2) S show ?thesis by (simp add: slice_models_def)
      next
        assume "\<exists>n a p. n \<in> dom (ag_calls ag) \<and> sy_posts (w_sys w) ! n = (a, p) \<and> (a, p) \<in> set (sy_posts (w_sys w)) \<and>
          target_key a = unit_key (ag_payload ag) sid \<and> a_SliceID a = sid \<and> a_Type a \<in> {ActionPrewarm, ActionEvict} \<and>
          held (ag_payload ag2) sid = map_option (carried_out a) (held (ag_payload ag) sid)"
        then obtain n a p where a: "n \<in> dom (ag_calls ag)" "sy_posts (w_sys w) ! n = (a, p)"
          "target_key a = unit_key (ag_payload ag) sid" "a_Type a \<in> {ActionPrewarm, ActionEvict}"
          "held (ag_payload ag2) sid = map_option (carried_out a) (held (ag_payload ag) sid)" by blast
        from carried_out_less_wrong [OF agree [OF a(1,2)] a(3,4)] a(5) ag2(2) S show ?thesis
          by (simp add: slice_models_def)
      qed
    next
      case False
      with agent(1) assms(4) S show ?thesis by (simp add: slice_models_def)
    qed
  qed (use assms(4) S in \<open>auto simp: slice_models_def accept_command_def\<close>)
qed

text \<open>Carrying out a command sets its model right.\<close>

lemma carries_out_effect:
  assumes "carries_out addr c w w'" and "slice_models w addr (ac_SliceID c) = Some S"
  shows "slice_models w' addr (ac_SliceID c) =
    Some (if ac_Action c = ''PREWARM'' then insert (ac_ModelName c) S else S - {ac_ModelName c})"
proof -
  from assms(1) obtain ag n cap oc where ag: "w_agents w addr = Some ag" "answers (agent_view c) oc" "succeeded oc"
    "w_agents w' addr = Some (ag\<lparr>ag_payload := fst (finish_command (agent_view c) oc (ag_payload ag)),
      ag_calls := (ag_calls ag)(n := None)\<rparr>)" unfolding carries_out_def by blast
  with assms(2) held_finish [OF ag(2), of "ag_payload ag" "ac_SliceID c"] show ?thesis
    by (simp add: slice_models_def)
qed

text \<open>What a pass sees of a slice follows too.\<close>

lemma looks_follow:
  assumes inv: "world_inv b (f 0)" and run: "is_run (world_step b) f" and dist: "distinct_agents (f 0)"
    and fair: "fair_scheduler f" and heard: "\<forall>i. \<exists>j \<ge> i. hears addr (f j) (f (Suc j))"
    and agent: "w_agents (f 0) addr = Some ag0" "nid = hp_node_id (ag_payload ag0)" "gid = hp_gpu_id (ag_payload ag0)"
    and P: "\<And>i ag. k0 \<le> i \<Longrightarrow> w_agents (f i) addr = Some ag \<Longrightarrow> P (ag_payload ag)"
  shows "\<exists>k. \<forall>i \<ge> k. (\<exists>t q. last_report (node_key nid gid) (sy_applied (w_sys (f i))) = Some (t, report q) \<and>
      shape q = shape (ag_payload ag0)) \<and>
    (\<forall>sid n loaded s. pass_looks nid gid sid n loaded (w_sys (f i)) s \<longrightarrow>
      (\<exists>q. shape q = shape (ag_payload ag0) \<and> P q \<and> held q sid = Some (set loaded)))"
proof -
  let ?P = "\<lambda>p. shape p = shape (ag_payload ag0) \<and> P p"
  obtain mem where reach: "sys_step\<^sup>*\<^sup>* (main_init mem) (system_run f 0)" using world_invD(1) [OF inv] by blast
  have at: "sys_step\<^sup>*\<^sup>* (main_init mem) (w_sys (f k))" for k
    by (rule rtranclp_trans [OF reach run_steps [OF world_run_system [OF run] le0]])
  have key: "agent_key (ag_payload ag0) = node_key nid gid" by (simp add: agent_key_def agent(2,3))
  have "agent_ok (b addr) addr ag0" using world_invD(3) [OF inv agent(1)] by blast
  then have wf: "payload_wf (ag_payload ag0)" by (simp add: agent_ok_def build_ok_def)
  have "?P (ag_payload ag)" if late: "k0 \<le> i" and ag: "w_agents (f i) addr = Some ag" for i ag
  proof -
    obtain ag1 where "w_agents (f 0) addr = Some ag1" "shape (ag_payload ag) = shape (ag_payload ag1)"
      by (rule identities_agent [OF run_identities [OF inv run] ag])
    with agent(1) P [OF late ag] show ?thesis by simp
  qed
  then have "\<exists>k \<ge> k0. \<forall>i \<ge> k. \<exists>t q. last_report (agent_key (ag_payload ag0)) (sy_applied (w_sys (f i))) = Some (t, report q) \<and> ?P q"
    by (rule reports_follow [where P = ?P, OF inv run dist fair heard agent(1)])
  then obtain k where k: "\<And>i. k \<le> i \<Longrightarrow> \<exists>t q. last_report (node_key nid gid) (sy_applied (w_sys (f i))) = Some (t, report q) \<and> ?P q"
    unfolding key by blast
  have "\<exists>q. ?P q \<and> held q sid = Some (set loaded)"
    if late: "k \<le> i" and look: "pass_looks nid gid sid n loaded (w_sys (f i)) s" for i sid n loaded s
  proof -
    from look have n: "n \<in> healthy_nodes (sy_reg (w_sys (f i)))" "NodeID n = nid" "GPUID n = gid" "(sid, loaded) \<in> units_of n"
      by (auto simp: pass_looks_def)
    obtain t hb where hb: "last_report (node_key nid gid) (sy_applied (w_sys (f i))) = Some (t, hb)"
      "n = (node_of_heartbeat t hb)\<lparr>Healthy := True\<rparr>"
      by (rule healthy_reported [OF at n(1), unfolded n(2,3)])
    from k [OF late] hb(1) obtain q where q: "hb = report q" "?P q" by auto
    then have "n = reported_node t q" using hb(2) by (simp add: reported_node_def)
    moreover have "payload_wf q" using q(2) payload_wf_shape wf by blast
    ultimately show ?thesis using unit_held n(4) q(2) by blast
  qed
  with k show ?thesis by (intro exI [of _ k]) blast
qed

text \<open>While a model is wrong, the command that sets it right is sent again and again.\<close>

definition correction :: "string set \<Rightarrow> string \<Rightarrow> string \<Rightarrow> agentCommand" where
  "correction D sid m = \<lparr>ac_Action = (if m \<in> D then ''PREWARM'' else ''EVICT''), ac_ModelName = m,
     ac_Quantization = [], ac_SliceID = sid\<rparr>"

lemma wrong_is_sent:
  assumes inv: "world_inv b (f 0)" and run: "is_run (world_step b) f" and dist: "distinct_agents (f 0)"
    and fair: "fair_scheduler f" and heard: "\<forall>i. \<exists>j \<ge> i. hears addr (f j) (f (Suc j))"
    and agent: "w_agents (f 0) addr = Some ag0" "nid = hp_node_id (ag_payload ag0)" "gid = hp_gpu_id (ag_payload ag0)"
    and looks: "\<forall>i. \<exists>j \<ge> i. \<exists>n loaded. pass_looks nid gid sid n loaded (w_sys (f j)) (w_sys (f (Suc j)))"
    and des: "\<And>i. desired (rec_of (w_sys (f i))) (sliceKey nid gid sid) = Some D"
    and bad: "\<And>i S. k0 \<le> i \<Longrightarrow> slice_models (f i) addr sid = Some S \<Longrightarrow> m \<in> wrong D S"
  shows "\<exists>j \<ge> i. sends addr (correction D sid m) (f j) (f (Suc j))"
proof -
  let ?P = "\<lambda>p. \<forall>S. held p sid = Some S \<longrightarrow> m \<in> wrong D S"
  obtain mem where reach: "sys_step\<^sup>*\<^sup>* (main_init mem) (system_run f 0)" using world_invD(1) [OF inv] by blast
  have fair': "fair pass_move (system_run f)" "strongly_fair handle_move (system_run f)"
    using fair by (simp_all add: fair_scheduler_def)
  have "agent_ok (b addr) addr ag0" using world_invD(3) [OF inv agent(1)] by blast
  then have ok: "hp_agent_addr (ag_payload ag0) = addr" "addr \<noteq> []"
    by (auto simp: agent_ok_def build_ok_def payload_wf_def)
  have P: "?P (ag_payload ag)" if "k0 \<le> i" "w_agents (f i) addr = Some ag" for i ag
    using bad [OF that(1)] that(2) by (simp add: slice_models_def)
  have "\<exists>k. \<forall>i \<ge> k. (\<exists>t q. last_report (node_key nid gid) (sy_applied (w_sys (f i))) = Some (t, report q) \<and>
      shape q = shape (ag_payload ag0)) \<and>
    (\<forall>sid n loaded s. pass_looks nid gid sid n loaded (w_sys (f i)) s \<longrightarrow>
      (\<exists>q. shape q = shape (ag_payload ag0) \<and> ?P q \<and> held q sid = Some (set loaded)))"
    by (rule looks_follow [where P = ?P, OF inv run dist fair heard agent P])
  then obtain k where k: "\<forall>i \<ge> k. (\<exists>t q. last_report (node_key nid gid) (sy_applied (w_sys (f i))) = Some (t, report q) \<and>
      shape q = shape (ag_payload ag0)) \<and>
    (\<forall>sid n loaded s. pass_looks nid gid sid n loaded (w_sys (f i)) s \<longrightarrow>
      (\<exists>q. shape q = shape (ag_payload ag0) \<and> ?P q \<and> held q sid = Some (set loaded)))" ..
  have known: "hb_AgentAddr hb = addr"
    if "k \<le> l" "last_report (node_key nid gid) (sy_applied (w_sys (f l))) = Some (t, hb)" for l t hb
  proof -
    from k that obtain q where "hb = report q" "shape q = shape (ag_payload ag0)" by fastforce
    with ok(1) show ?thesis by (simp add: report_def shape_def)
  qed
  from looks obtain j n loaded where "max i k \<le> j"
    and look: "pass_looks nid gid sid n loaded (w_sys (f j)) (w_sys (f (Suc j)))" by blast
  then have j: "i \<le> j" "k \<le> j" by simp_all
  with k look obtain q where "held q sid = Some (set loaded)" "?P q" by blast
  then have m: "m \<in> wrong D (set loaded)" by simp
  have n: "NodeID n = nid" "GPUID n = gid" using look by (auto simp: pass_looks_def)
  let ?a = "action (if m \<in> D then ActionPrewarm else ActionEvict) n sid m"
  have due: "?a \<in> drift (rec_of (w_sys (f l))) n sid loaded" for l
    using des [of l] m n by (auto simp: drift_def wrong_def)
  have "\<exists>k \<ge> j. \<exists>p t hb. sy_posts (w_sys (f (Suc k))) = sy_posts (w_sys (f k)) @ [(?a, p)] \<and> post_ok ?a p \<and>
    last_report (node_key nid gid) (sy_applied (w_sys (f k))) = Some (t, hb) \<and> po_url p = hb_AgentAddr hb @ ''/command''"
  proof (rule due_is_sent [OF reach world_run_system [OF run] fair' look due])
    fix l t hb assume "j \<le> l" and hb: "last_report (node_key nid gid) (sy_applied (w_sys (f l))) = Some (t, hb)"
    then have "k \<le> l" using j(2) by simp
    from known [OF this hb] ok(2) show "hb_AgentAddr hb \<noteq> []" by simp
  qed
  then obtain l p t hb where l: "j \<le> l" "sy_posts (w_sys (f (Suc l))) = sy_posts (w_sys (f l)) @ [(?a, p)]" "post_ok ?a p"
    "last_report (node_key nid gid) (sy_applied (w_sys (f l))) = Some (t, hb)" "po_url p = hb_AgentAddr hb @ ''/command''" by blast
  have "hb_AgentAddr hb = addr" using known [OF _ l(4)] j(2) l(1) by simp
  moreover have "po_body p = correction D sid m" using l(3) by (auto simp: post_ok_def correction_def)
  ultimately have "sends addr (correction D sid m) (f l) (f (Suc l))"
    using l(2,5) unfolding sends_def by (intro exI [of _ ?a] exI [of _ p]) simp
  with j(1) l(1) show ?thesis by (intro exI [of _ l]) simp
qed

lemma held_shape: "shape p = shape q \<Longrightarrow> held p sid = None \<longleftrightarrow> held q sid = None"
proof -
  have find: "find_slice sid ss = None \<longleftrightarrow> sid \<notin> set (map as_slice_id ss)" for ss by (induction ss) auto
  assume "shape p = shape q"
  from slice_ids_shape [OF this] show ?thesis by (simp add: held_def find del: set_map)
qed

lemma slice_there:
  assumes inv: "world_inv b (f 0)" and run: "is_run (world_step b) f" and dist: "distinct_agents (f 0)"
    and fair: "fair_scheduler f" and heard: "\<forall>i. \<exists>j \<ge> i. hears addr (f j) (f (Suc j))"
    and agent: "w_agents (f 0) addr = Some ag0" "nid = hp_node_id (ag_payload ag0)" "gid = hp_gpu_id (ag_payload ag0)"
    and looks: "\<forall>i. \<exists>j \<ge> i. \<exists>n loaded. pass_looks nid gid sid n loaded (w_sys (f j)) (w_sys (f (Suc j)))"
  shows "\<exists>ag S. w_agents (f i) addr = Some ag \<and> held (ag_payload ag) sid = Some S"
proof -
  obtain k where k: "\<forall>i \<ge> k. \<forall>sid n loaded s. pass_looks nid gid sid n loaded (w_sys (f i)) s \<longrightarrow>
      (\<exists>q. shape q = shape (ag_payload ag0) \<and> held q sid = Some (set loaded))"
    using looks_follow [where P = "\<lambda>_. True" and ?k0.0 = 0, OF inv run dist fair heard agent] by blast
  from looks obtain j n loaded where "k \<le> j" "pass_looks nid gid sid n loaded (w_sys (f j)) (w_sys (f (Suc j)))" by blast
  with k obtain q where q: "shape q = shape (ag_payload ag0)" "held q sid = Some (set loaded)" by blast
  obtain ag where ag: "w_agents (f i) addr = Some ag" "shape (ag_payload ag0) = shape (ag_payload ag)"
    by (rule identities_agent [OF run_identities [OF inv run, symmetric] agent(1)])
  with q held_shape [of q "ag_payload ag" sid] show ?thesis by auto
qed

text \<open>
  C1. What is desired is reached and stays: take any infinite run of scheduler, agents and network in
  which the goroutines of the scheduler are not neglected, no request and no call to a loader hangs for ever, a command
  that is sent to the agent again and again is carried out again and again, the agent's heartbeats are
  acknowledged again and again, and passes see its GPU fresh and healthy with the slice again and again.
  If the desired models of the slice stay as they are, then from some point on the agent holds
  exactly these models on the slice, and every pass sees exactly these, whatever the agent held before,
  whatever commands were under way, and whatever is lost, delayed and reordered.
\<close>

theorem desired_state_is_reached:
  assumes start: "world_start b w0" "(world_step b)\<^sup>*\<^sup>* w0 (f 0)" and run: "is_run (world_step b) f"
    and parts: "fair_scheduler f" "nothing_hangs addr f" "keeps_trying addr f"
    and heard: "\<forall>i. \<exists>j \<ge> i. hears addr (f j) (f (Suc j))"
    and agent: "w_agents w0 addr = Some ag0" "nid = hp_node_id (ag_payload ag0)" "gid = hp_gpu_id (ag_payload ag0)"
    and looks: "\<forall>i. \<exists>j \<ge> i. \<exists>n loaded. pass_looks nid gid sid n loaded (w_sys (f j)) (w_sys (f (Suc j)))"
    and des: "\<forall>i. desired (rec_of (w_sys (f i))) (sliceKey nid gid sid) = Some D" and sid: "sid \<noteq> []"
  shows "\<exists>k. \<forall>j \<ge> k. slice_models (f j) addr sid = Some D \<and>
    (\<forall>n loaded s. pass_looks nid gid sid n loaded (w_sys (f j)) s \<longrightarrow> set loaded = D)"
proof -
  have inv: "world_inv b (f 0)" by (rule world.reachable_inv [OF start])
  have inv': "world_inv b (f i)" for i by (rule world_run_inv [OF inv run])
  have ids: "identities (f 0) = identities w0"
    by (rule reachable_identities [OF start])
  have dist: "distinct_agents (f 0)"
    by (rule distinct_agents_ids [OF ids]) (use start(1) in \<open>simp add: world_start_def distinct_agents_def\<close>)
  obtain ag1 where ag1: "w_agents (f 0) addr = Some ag1" "shape (ag_payload ag0) = shape (ag_payload ag1)"
    by (rule identities_agent [OF ids [symmetric] agent(1)])
  then have who: "nid = hp_node_id (ag_payload ag1)" "gid = hp_gpu_id (ag_payload ag1)"
    using agent(2,3) by (simp_all add: shape_def)
  have unit: "unit_key (ag_payload ag) sid = sliceKey nid gid sid" if ag: "w_agents (f i) addr = Some ag" for i ag
  proof -
    obtain ag2 where ag2: "w_agents (f 0) addr = Some ag2" "shape (ag_payload ag) = shape (ag_payload ag2)"
      by (rule identities_agent [OF run_identities [OF inv run] ag])
    from unit_key_shape [OF ag2(2)] ag2(1) ag1(1) who show ?thesis by simp
  qed
  have moves: "world_step b (f i) (f (Suc i))" for i using run by (simp add: is_run_def)
  have there: "\<exists>ag S. w_agents (f i) addr = Some ag \<and> held (ag_payload ag) sid = Some S" for i
    by (rule slice_there [OF inv run dist parts(1) heard ag1(1) who looks])
  have "w_agents (f 0) addr \<noteq> None" using ag1(1) by simp
  from commands_agree [OF inv run parts(1,2) this des [rule_format]] obtain k0 where
    agree: "\<And>i ag n a p. k0 \<le> i \<Longrightarrow> w_agents (f i) addr = Some ag \<Longrightarrow> n \<in> dom (ag_calls ag) \<Longrightarrow>
      sy_posts (w_sys (f i)) ! n = (a, p) \<Longrightarrow> agrees (sliceKey nid gid sid) D a" by blast
  define W where "W i = wrong D (the (slice_models (f i) addr sid))" for i
  have "W (Suc i) \<subseteq> W i" if late: "k0 \<le> i" for i
  proof -
    obtain ag S where ag: "w_agents (f i) addr = Some ag" "held (ag_payload ag) sid = Some S" using there by blast
    have "\<exists>S'. slice_models (f (Suc i)) addr sid = Some S' \<and> wrong D S' \<subseteq> wrong D S"
      by (rule slice_step [OF inv' moves sid ag]) (use agree [OF late ag(1)] unit [OF ag(1)] in simp)
    with ag show ?thesis by (auto simp: W_def slice_models_def)
  qed
  moreover have "finite (W k0)"
  proof -
    obtain ag S where ag: "w_agents (f k0) addr = Some ag" "held (ag_payload ag) sid = Some S" using there by blast
    then have "finite S" by (auto simp: held_def split: if_splits)
    moreover have "finite D" using des by (auto simp: desired_def)
    ultimately show ?thesis using ag by (simp add: W_def slice_models_def wrong_def)
  qed
  ultimately obtain k1 where k1: "k0 \<le> k1" "\<And>j. k1 \<le> j \<Longrightarrow> W j = W k1"
    using shrinking_rests [of W k0] by blast
  have "W k1 = {}"
  proof (rule ccontr)
    assume "W k1 \<noteq> {}"
    then obtain m where m: "m \<in> W k1" by blast
    have bad: "m \<in> wrong D S" if "k1 \<le> i" "slice_models (f i) addr sid = Some S" for i S
      using k1(2) [OF that(1)] m that(2) by (simp add: W_def)
    have "\<exists>j \<ge> i. sends addr (correction D sid m) (f j) (f (Suc j))" for i
      by (rule wrong_is_sent [where ?k0.0 = k1, OF inv run dist parts(1) heard ag1(1) who looks des [rule_format]])
        (rule bad)
    with parts(3) obtain j where j: "k1 \<le> j" "carries_out addr (correction D sid m) (f j) (f (Suc j))"
      unfolding keeps_trying_def by blast
    obtain ag S where "w_agents (f j) addr = Some ag" "held (ag_payload ag) sid = Some S" using there by blast
    then have "slice_models (f j) addr sid = Some S" by (simp add: slice_models_def)
    with carries_out_effect [OF j(2)] have "slice_models (f (Suc j)) addr sid =
        Some (if m \<in> D then insert m S else S - {m})" by (simp add: correction_def)
    from bad [OF _ this] j(1) show False by (auto simp: wrong_def split: if_splits)
  qed
  have settled: "slice_models (f j) addr sid = Some D" if late: "k1 \<le> j" for j
  proof -
    obtain ag S where "w_agents (f j) addr = Some ag" "held (ag_payload ag) sid = Some S" using there by blast
    then have S: "slice_models (f j) addr sid = Some S" by (simp add: slice_models_def)
    have "W j = {}" using k1(2) [OF late] \<open>W k1 = {}\<close> by simp
    with S show ?thesis by (simp add: W_def wrong_empty)
  qed
  have P: "held (ag_payload ag) sid = Some D" if "k1 \<le> i" "w_agents (f i) addr = Some ag" for i ag
    using settled [OF that(1)] that(2) by (simp add: slice_models_def)
  have "\<exists>k. \<forall>i \<ge> k. (\<exists>t q. last_report (node_key nid gid) (sy_applied (w_sys (f i))) = Some (t, report q) \<and>
      shape q = shape (ag_payload ag1)) \<and>
    (\<forall>sid' n loaded s. pass_looks nid gid sid' n loaded (w_sys (f i)) s \<longrightarrow>
      (\<exists>q. shape q = shape (ag_payload ag1) \<and> held q sid = Some D \<and> held q sid' = Some (set loaded)))"
    by (rule looks_follow [where P = "\<lambda>p. held p sid = Some D", OF inv run dist parts(1) heard ag1(1) who P])
  then obtain k2 where "\<And>i n loaded s. k2 \<le> i \<Longrightarrow> pass_looks nid gid sid n loaded (w_sys (f i)) s \<Longrightarrow> set loaded = D"
    by fastforce
  with settled show ?thesis by (intro exI [of _ "max k1 k2"]) (simp, blast)
qed

end
