(* ===== verification/Settled_Run.thy ===== *)
theory Settled_Run
  imports Convergence
begin

text \<open>
  A concrete world: one agent on a node with an empty slice, a client whose request is placed, a pass whose
  command the agent carries out, and then heartbeats and passes for ever. It meets everything that the
  properties of \<open>World\<close> and \<open>Convergence\<close> ask for.
\<close>

section \<open>Agent and scheduler\<close>

definition home :: string where
  "home = ''http://agent:9090''"

definition demo_build :: "string \<Rightarrow> build" where
  "demo_build addr = Production"

text \<open>The payload with nothing on its slice; with \<open>phi\<close> loaded there it is \<open>demo_payload\<close>.\<close>

definition bare :: HeartbeatPayload where
  "bare = demo_payload\<lparr>hp_mig_slices := map (\<lambda>s. s\<lparr>as_loaded_models := []\<rparr>) (hp_mig_slices demo_payload)\<rparr>"

definition known :: "HeartbeatPayload \<Rightarrow> bool" where
  "known p \<longleftrightarrow> p = bare \<or> p = demo_payload"

lemma known_sel:
  assumes "known p"
  shows "hp_node_id p = ''node-001''" "hp_gpu_id p = ''gpu-0''" "hp_agent_addr p = home" "payload_fits p"
    "refresh 3800 False None p = p"
  using assms by (auto simp: known_def bare_def demo_payload_def home_def payload_fits_def slice_fits_def u64_fits_def refresh_def)

lemma known_both [simp]: "known bare" "known demo_payload"
  by (simp_all add: known_def)

definition idle_agent :: "HeartbeatPayload \<Rightarrow> beat \<Rightarrow> agent" where
  "idle_agent p bt = \<lparr>ag_payload = p, ag_beat = bt, ag_calls = Map.empty\<rparr>"

definition demo_world :: "agent \<Rightarrow> system \<Rightarrow> nat set \<Rightarrow> world" where
  "demo_world ag s M = \<lparr>w_sys = s, w_agents = [home \<mapsto> ag], w_mail = M\<rparr>"

abbreviation demo_keys_1 :: "string list" where
  "demo_keys_1 \<equiv> [''node-001/gpu-0'']"

definition reg_of :: "HeartbeatPayload \<Rightarrow> NodeRegistry" where
  "reg_of p = applyHeartbeat 0 (report p) NewNodeRegistry"

definition node_of :: "HeartbeatPayload \<Rightarrow> GPUNode" where
  "node_of p = reported_node 0 p"

lemma nodes_reg_of: "known p \<Longrightarrow> nodes (reg_of p) = [''node-001/gpu-0'' \<mapsto> node_of p]"
  using known_sel [of p]
  by (simp add: reg_of_def applyHeartbeat_def nodes_Upsert key_of_def node_key_def node_of_def reported_node_def
      node_of_heartbeat_def report_def slash_def NewNodeRegistry_def)

lemma reg_of_keys: "known p \<Longrightarrow> enumerates demo_keys_1 (nodes (reg_of p))"
  by (simp add: enumerates_def nodes_reg_of)

lemma apply_again: "known p \<Longrightarrow> known q \<Longrightarrow> applyHeartbeat 0 (report p) (reg_of q) = reg_of p"
  using known_sel [of p]
  by (intro NodeRegistry.equality)
    (simp_all add: applyHeartbeat_def nodes_Upsert nodes_reg_of key_of_def node_key_def node_of_def reported_node_def
      node_of_heartbeat_def report_def slash_def)

text \<open>The gateway once a request for \<open>phi\<close> is placed on the slice.\<close>

definition rq_phi :: HttpRequest where
  "rq_phi = \<lparr>rq_method = ''POST'', rq_body = Inr \<lparr>ModelName = ''phi'', VRAMNeededMiB = 100, Priority = P0Production\<rparr>\<rparr>"

definition gw_1 :: gateway where
  "gw_1 = HandleSchedule_start insertion_sort demo_keys_1 (reg_of bare) 7 rq_phi (NewGateway NewReconciler (NewQueue 50) demo_mem)"

abbreviation rec_1 :: Reconciler where
  "rec_1 \<equiv> g_reconciler gw_1"

lemma desired_phi: "desired rec_1 ''node-001/gpu-0/0/0/0'' = Some {''phi''}"
  by code_simp

section \<open>A pass over the node\<close>

definition prewarm_phi :: ReconcileAction where
  "prewarm_phi = \<lparr>a_Type = ActionPrewarm, a_NodeID = ''node-001'', a_GPUID = ''gpu-0'', a_SliceID = ''0/0/0'', a_ModelName = ''phi''\<rparr>"

definition sent_on :: "HeartbeatPayload \<Rightarrow> ReconcileAction list" where
  "sent_on p = (if p = bare then [prewarm_phi] else [])"

lemma known_slices: "known p \<Longrightarrow> MIGEnabled (node_of p) \<and> MIGSlices (node_of p) = [report_slice (hd (hp_mig_slices p))]"
  by (auto simp: known_def bare_def node_of_def reported_node_def node_of_heartbeat_def report_def demo_payload_def)

lemma known_body: "known p \<Longrightarrow> slice_body in_order rec_1 (node_of p) 0 (report_slice (hd (hp_mig_slices p))) = sent_on p"
proof -
  have "slice_body in_order rec_1 (node_of bare) 0 (report_slice (hd (hp_mig_slices bare))) = [prewarm_phi]"
    "slice_body in_order rec_1 (node_of demo_payload) 0 (report_slice (hd (hp_mig_slices demo_payload))) = []"
    "bare \<noteq> demo_payload"
    by (code_simp, code_simp, simp add: bare_def demo_payload_def)
  then show "known p \<Longrightarrow> ?thesis" by (auto simp: known_def sent_on_def)
qed

lemma not_stale: "known p \<Longrightarrow> \<not> is_stale rec_1 0 (node_of p)"
proof -
  have "staleTimeout rec_1 = 2 * Second" by code_simp
  then show ?thesis by (simp add: is_stale_def node_of_def reported_node_def node_of_heartbeat_def Second_def)
qed

lemma pass_1:
  assumes "known p"
  shows "start_pass demo_keys_1 0 rec_1 (reg_of p) = Marking []"
    and "pass_step in_order demo_keys_1 rec_1 (reg_of p) (Marking []) = (reg_of p, Visiting [node_of p], [])"
    and "pass_step in_order demo_keys_1 rec_1 (reg_of p) (Visiting [node_of p]) =
      (reg_of p, Slicing (node_of p) 0 (MIGSlices (node_of p)) [], [])"
    and "pass_step in_order demo_keys_1 rec_1 (reg_of p) (Slicing (node_of p) 0 (MIGSlices (node_of p)) []) =
      (reg_of p, Slicing (node_of p) 1 [] [], sent_on p)"
proof -
  show "start_pass demo_keys_1 0 rec_1 (reg_of p) = Marking []"
    using not_stale [OF assms] assms
    by (simp add: start_pass_def StaleNodes_def nodes_reg_of map_filter_def is_stale_def)
  show "pass_step in_order demo_keys_1 rec_1 (reg_of p) (Marking []) = (reg_of p, Visiting [node_of p], [])"
    using assms by (simp add: All_def nodes_reg_of node_of_def reported_node_def map_filter_def)
qed (use known_slices [OF assms] known_body [OF assms] in simp_all)

definition walk :: "HeartbeatPayload \<Rightarrow> nat \<Rightarrow> control" where
  "walk p r = (if r = 1 then Marking [] else if r = 2 then Visiting [node_of p]
     else if r = 3 then Slicing (node_of p) 0 (MIGSlices (node_of p)) []
     else if r = 4 then Slicing (node_of p) 1 [] [] else if r = 5 then Visiting [] else Idle)"

lemma walk_step:
  assumes "known p" and "1 \<le> r" "r \<le> 5"
  shows "walk p r \<noteq> Idle \<and> pass_step in_order demo_keys_1 rec_1 (reg_of p) (walk p r) =
    (reg_of p, walk p (Suc r), if r = 3 then sent_on p else [])"
  using pass_1(2-4) [OF assms(1)] assms(2,3)
  by (cases "r = 1"; cases "r = 2"; cases "r = 3"; cases "r = 4") (simp_all add: walk_def)

section \<open>Steps of the scheduler\<close>

text \<open>Between heartbeats and passes; the registry is what the last heartbeat of the agent said.\<close>

definition calm :: "HeartbeatPayload \<Rightarrow> system \<Rightarrow> bool" where
  "calm p s \<longleftrightarrow> sy_reg s = reg_of p \<and> sy_reg s \<in> sy_seen s \<and> sy_gateway s = gw_1 \<and> sy_heartbeats s = make_chan 256 \<and>
     sy_pass s = Idle \<and> sy_unsent s = [] \<and> sy_actions s = make_chan 64"

lemma calmD:
  assumes "calm p s"
  shows "sy_reg s = reg_of p" "reg_of p \<in> sy_seen s" "sy_gateway s = gw_1" "sy_heartbeats s = make_chan 256"
    "sy_pass s = Idle" "sy_unsent s = []" "sy_actions s = make_chan 64"
  using assms by (auto simp: calm_def)

definition in_channel :: "HeartbeatPayload \<Rightarrow> system \<Rightarrow> system" where
  "in_channel p s = s\<lparr>sy_heartbeats := \<lparr>ch_buf = [report p], ch_cap = 256\<rparr>,
     sy_accepted := sy_accepted s @ [report p], sy_log := sy_log s @ logHeartbeat (report p)\<rparr>"

definition hear :: "HeartbeatPayload \<Rightarrow> system \<Rightarrow> system" where
  "hear p s = (in_channel p s)\<lparr>sy_heartbeats := make_chan 256, sy_reg := reg_of p,
     sy_seen := insert (reg_of p) (sy_seen s), sy_applied := sy_applied s @ [(0, report p)]\<rparr>"

lemma hear_calm: "calm q s \<Longrightarrow> calm p (hear p s)"
  by (simp add: calm_def hear_def in_channel_def)

lemma hear_applied:
  assumes "sy_pass s = Idle" "sy_unsent s = []" and "applyHeartbeat 0 (report p) (sy_reg s) = reg_of p"
  shows "apply_move (in_channel p s) (hear p s)"
proof -
  have "recv (sy_heartbeats (in_channel p s)) = Some (report p, make_chan 256)"
    by (simp add: in_channel_def recv_def make_chan_def)
  from reconciler_step.apply_heartbeat [OF _ _ this, of 0] assms show ?thesis
    by (simp add: in_channel_def hear_def apply_move_def)
qed

lemma calm_tick:
  assumes "known p" "calm p s"
  shows "reconciler_step s (s\<lparr>sy_pass := walk p 1\<rparr>)"
  using reconciler_step.tick [of s demo_keys_1 0] calmD [OF assms(2)] reg_of_keys [OF assms(1)] pass_1(1) [OF assms(1)]
  by (simp add: walk_def)

lemma calm_walk:
  assumes "known p" "calm p s" and "1 \<le> r" "r \<le> 5"
  shows "reconciler_step (s\<lparr>sy_pass := walk p r\<rparr>) (s\<lparr>sy_pass := walk p (Suc r), sy_unsent := (if r = 3 then sent_on p else []),
    sy_decided := sy_decided s @ (if r = 3 then sent_on p else [])\<rparr>)"
proof -
  let ?sent = "if r = 3 then sent_on p else []"
  let ?s = "s\<lparr>sy_pass := walk p r\<rparr>"
  have "reconciler_step ?s (?s\<lparr>sy_reg := reg_of p, sy_seen := insert (reg_of p) (sy_seen ?s), sy_pass := walk p (Suc r),
      sy_unsent := ?sent, sy_decided := sy_decided ?s @ ?sent\<rparr>)"
    by (rule reconciler_step.advance [where pick = in_order and ks = demo_keys_1])
      (use walk_step [OF assms(1,3,4)] calmD [OF assms(2)] reg_of_keys [OF assms(1)] in_order_ok in simp_all)
  moreover have "?s\<lparr>sy_reg := reg_of p, sy_seen := insert (reg_of p) (sy_seen ?s), sy_pass := walk p (Suc r),
      sy_unsent := ?sent, sy_decided := sy_decided ?s @ ?sent\<rparr> =
    s\<lparr>sy_pass := walk p (Suc r), sy_unsent := ?sent, sy_decided := sy_decided s @ ?sent\<rparr>"
    by (rule system.equality) (use calmD [OF assms(2)] in \<open>simp_all add: insert_absorb\<close>)
  ultimately show ?thesis by simp
qed

section \<open>Steps of the world\<close>

lemma demo_world_sel [simp]: "w_sys (demo_world ag s M) = s" "w_mail (demo_world ag s M) = M"
  "w_agents (demo_world ag s M) = [home \<mapsto> ag]"
  by (simp_all add: demo_world_def)

lemma demo_scheduler:
  assumes "sys_step s s'" and "sy_accepted s' = sy_accepted s"
  shows "world_step demo_build (demo_world ag s M) (demo_world ag s' (M \<union> {length (sy_posts s) ..< length (sy_posts s')}))"
  using world_step.scheduler [of "demo_world ag s M" s' demo_build] assms by (simp add: demo_world_def)

lemma demo_reconciler:
  assumes "reconciler_step s s'" and "sy_accepted s' = sy_accepted s" "sy_posts s' = sy_posts s"
  shows "world_step demo_build (demo_world ag s M) (demo_world ag s' M)"
  using demo_scheduler [OF sys_step.reconciler [OF assms(1)] assms(2), of ag M] assms(3) by simp

lemma demo_agent:
  assumes "agent_step Production ag ag'"
  shows "world_step demo_build (demo_world ag s M) (demo_world ag' s M)"
  using world_step.agent [where b = demo_build and w = "demo_world ag s M" and addr = home and ag' = ag'] assms
  by (simp add: demo_build_def) (simp add: demo_world_def)

lemma demo_refresh:
  assumes "known p"
  shows "world_step demo_build (demo_world (idle_agent p Resting) s M) (demo_world (idle_agent p Refreshed) s M)"
proof -
  have "sample_real (Some ''3800'') None = (3800, False)"
    by (simp add: sample_real_def unwrap_or_def trim_def parse_u64_def digit_value_def of_char_def Let_def)
  from refreshes.production [OF this, of p None] have "refreshes Production p p" by (simp add: known_sel(5) [OF assms])
  from agent_step.refreshed [of "idle_agent p Resting" Production p] this show ?thesis
    by (intro demo_agent) (simp add: idle_agent_def)
qed

lemma demo_copy: "world_step demo_build (demo_world (idle_agent p Refreshed) s M) (demo_world (idle_agent p (Posting p)) s M)"
  using agent_step.copied [of "idle_agent p Refreshed" Production] by (intro demo_agent) (simp add: idle_agent_def)

lemma demo_heartbeat:
  assumes "known p" and "sy_heartbeats s = make_chan 256"
  shows "world_step demo_build (demo_world (idle_agent p (Posting p)) s M) (demo_world (idle_agent p Resting) (in_channel p s) M)"
    and "hears home (demo_world (idle_agent p (Posting p)) s M) (demo_world (idle_agent p Resting) (in_channel p s) M)"
proof -
  note fits = known_sel(4) [OF assms(1)]
  have serve: "serveHeartbeat (heartbeat_request [] p) (sy_heartbeats (w_sys (demo_world (idle_agent p (Posting p)) s M))) =
      (logHeartbeat (report p), http_error [] 204, \<lparr>ch_buf = [report p], ch_cap = 256\<rparr>)"
    using fits assms(2)
    by (simp add: serveHeartbeat_def handleHeartbeat_def heartbeat_request_def make_chan_def try_send_def)
  have "acknowledged (heartbeat_request [] p) (http_error [] 204) = [report p]"
    using fits by (simp add: acknowledged_def heartbeat_request_def http_error_def)
  with world_step.heartbeat [where b = demo_build and addr = home and ag = "idle_agent p (Posting p)", OF _ _ serve]
  show "world_step demo_build (demo_world (idle_agent p (Posting p)) s M) (demo_world (idle_agent p Resting) (in_channel p s) M)"
    by (simp add: demo_world_def idle_agent_def in_channel_def)
  show "hears home (demo_world (idle_agent p (Posting p)) s M) (demo_world (idle_agent p Resting) (in_channel p s) M)"
    by (simp add: hears_def idle_agent_def in_channel_def)
qed

lemma demo_apply:
  assumes "known p" and "sy_pass s = Idle" "sy_unsent s = []" and "sy_reg s = NewNodeRegistry \<or> (\<exists>q. known q \<and> sy_reg s = reg_of q)"
  shows "apply_move (in_channel p s) (hear p s)"
    and "world_step demo_build (demo_world ag (in_channel p s) M) (demo_world ag (hear p s) M)"
proof -
  have "applyHeartbeat 0 (report p) (sy_reg s) = reg_of p" using assms(1,4) apply_again by (auto simp: reg_of_def [of p])
  from hear_applied [OF assms(2,3) this] show "apply_move (in_channel p s) (hear p s)" .
  then show "world_step demo_build (demo_world ag (in_channel p s) M) (demo_world ag (hear p s) M)"
    by (intro demo_reconciler) (simp_all add: apply_move_def hear_def)
qed

section \<open>The command\<close>

definition post_phi :: post where
  "post_phi = \<lparr>po_addr = home, po_url = home @ ''/command'', po_body =
     \<lparr>ac_Action = ''PREWARM'', ac_ModelName = ''phi'', ac_Quantization = [], ac_SliceID = ''0/0/0''\<rparr>\<rparr>"

abbreviation command_phi :: AgentCommand where
  "command_phi \<equiv> agent_view (po_body post_phi)"

definition loaded_phi :: outcome where
  "loaded_phi = Loaded (Inr \<lparr>lr_model_name = ''phi'', lr_vram_used_mib = 3800, lr_load_duration_sec = Fin 1,
     lr_affinity_cache_hit = False\<rparr>)"

lemma dispatched_phi:
  assumes "sy_reg s = reg_of bare"
  shows "\<exists>line. handleAction (sy_reg s) prewarm_phi = (line, Some post_phi)"
proof -
  have "Get (reg_of bare) ''node-001'' ''gpu-0'' = Some (node_of bare)"
    by (simp add: Get_def nodes_reg_of node_key_def slash_def)
  moreover have "AgentAddr (node_of bare) = home" "home \<noteq> []"
    using known_sel(3) [of bare]
    by (simp_all add: node_of_def reported_node_def node_of_heartbeat_def report_def home_def)
  ultimately show ?thesis
    by (simp add: assms handleAction_def dispatchToAgent_def prewarm_phi_def post_phi_def)
qed

definition line_phi :: string where
  "line_phi = fst (handleAction (reg_of bare) prewarm_phi)"

lemma answers_phi: "answers command_phi loaded_phi" "succeeded loaded_phi"
  by (simp_all add: answers_def loaded_phi_def succeeded_def agent_view_def post_phi_def)

lemma booked_phi: "fst (finish_command command_phi loaded_phi bare) = demo_payload"
  by (simp add: finish_command_def loaded_phi_def agent_view_def post_phi_def none_if_empty_def mark_loaded_def Let_def
      add_model_def bare_def demo_payload_def)

definition calling :: agent where
  "calling = accept_command 0 command_phi (idle_agent bare Resting)"

lemma calling_sel: "ag_calls calling = [0 \<mapsto> (command_phi, slice_cap command_phi bare)]"
  "calling\<lparr>ag_payload := fst (finish_command command_phi loaded_phi (ag_payload calling)), ag_calls := (ag_calls calling)(0 := None)\<rparr> =
     idle_agent demo_payload Resting"
  using booked_phi by (simp_all add: calling_def accept_command_def idle_agent_def)

section \<open>The run\<close>

text \<open>The scheduler when the client was answered, while the command is decided and sent, and after it.\<close>

definition sys_1 :: system where
  "sys_1 = (hear bare (main_init demo_mem))\<lparr>sy_gateway := gw_1\<rparr>"

definition sys_decided :: system where
  "sys_decided = sys_1\<lparr>sy_pass := walk bare 4, sy_unsent := [prewarm_phi], sy_decided := sy_decided sys_1 @ [prewarm_phi]\<rparr>"

definition sys_sent :: system where
  "sys_sent = sys_decided\<lparr>sy_unsent := [], sy_actions := \<lparr>ch_buf = [prewarm_phi], ch_cap = 64\<rparr>\<rparr>"

definition sys_posted :: system where
  "sys_posted = sys_sent\<lparr>sy_actions := make_chan 64, sy_handled := sy_handled sys_sent @ [prewarm_phi],
     sy_log := sy_log sys_sent @ [line_phi], sy_flights := sy_flights sys_sent @ [post_phi],
     sy_posts := sy_posts sys_sent @ [(prewarm_phi, post_phi)]\<rparr>"

definition sys_2 :: system where
  "sys_2 = sys_posted\<lparr>sy_pass := Idle\<rparr>"

text \<open>The first pass, up to the first heartbeat that reports the model.\<close>

definition lead :: "nat \<Rightarrow> world" where
  "lead i =
     (if i = 0 then demo_world (idle_agent bare Resting) sys_1 {}
      else if i \<le> 3 then demo_world (idle_agent bare Resting) (sys_1\<lparr>sy_pass := walk bare i\<rparr>) {}
      else if i = 4 then demo_world (idle_agent bare Resting) sys_decided {}
      else if i = 5 then demo_world (idle_agent bare Resting) sys_sent {}
      else if i = 6 then demo_world (idle_agent bare Resting) sys_posted {0}
      else if i = 7 then demo_world calling sys_posted {}
      else if i = 8 then demo_world (idle_agent demo_payload Resting) sys_posted {}
      else if i = 9 then demo_world (idle_agent demo_payload Resting) (sys_2\<lparr>sy_pass := walk bare 5\<rparr>) {}
      else if i = 10 then demo_world (idle_agent demo_payload Resting) sys_2 {}
      else if i = 11 then demo_world (idle_agent demo_payload Refreshed) sys_2 {}
      else if i = 12 then demo_world (idle_agent demo_payload (Posting demo_payload)) sys_2 {}
      else demo_world (idle_agent demo_payload Resting) (in_channel demo_payload sys_2) {})"

text \<open>From then on rounds: the agent samples, copies and posts, the report is applied, and a pass goes over the node.\<close>

definition heard :: "nat \<Rightarrow> system" where
  "heard c = ((hear demo_payload) ^^ c) (hear demo_payload sys_2)"

definition stage :: "nat \<Rightarrow> nat \<Rightarrow> world" where
  "stage c r =
     (if r \<le> 2 then demo_world (idle_agent demo_payload (if r = 0 then Resting else if r = 1 then Refreshed else Posting demo_payload)) (heard c) {}
      else if r = 3 then demo_world (idle_agent demo_payload Resting) (in_channel demo_payload (heard c)) {}
      else demo_world (idle_agent demo_payload Resting) ((heard (Suc c))\<lparr>sy_pass := walk demo_payload (r - 4)\<rparr>) {})"

definition demo_course :: "nat \<Rightarrow> world" where
  "demo_course i = (if i < 14 then lead i else stage ((i - 14) div 10) ((i - 14) mod 10))"

lemma sys_1_calm: "calm bare sys_1"
  by (simp add: calm_def sys_1_def hear_def in_channel_def main_init_def)

lemma sys_2_eq: "sys_2\<lparr>sy_pass := walk bare 4\<rparr> = sys_posted"
  by (simp add: sys_2_def sys_posted_def sys_sent_def sys_decided_def)

lemma sys_2_calm: "calm bare sys_2"
  using calmD [OF sys_1_calm] by (simp add: calm_def sys_2_def sys_posted_def sys_sent_def sys_decided_def)

lemma heard_0: "heard 0 = hear demo_payload sys_2"
  and heard_Suc: "heard (Suc c) = hear demo_payload (heard c)"
  by (simp_all add: heard_def)

lemma heard_calm: "calm demo_payload (heard c)"
  by (induction c) (auto simp: heard_0 heard_Suc intro: hear_calm sys_2_calm)

lemma sys_posts: "sy_posts sys_1 = []" "sy_posts sys_2 = [(prewarm_phi, post_phi)]"
  by (simp_all add: sys_2_def sys_posted_def sys_sent_def sys_decided_def sys_1_def hear_def in_channel_def main_init_def)

text \<open>The steps of the first pass.\<close>

lemma lead_moves:
  "reconciler_step sys_1 (sys_1\<lparr>sy_pass := walk bare 1\<rparr>)"
  "1 \<le> r \<Longrightarrow> r < 3 \<Longrightarrow> reconciler_step (sys_1\<lparr>sy_pass := walk bare r\<rparr>) (sys_1\<lparr>sy_pass := walk bare (Suc r)\<rparr>)"
  "reconciler_step (sys_1\<lparr>sy_pass := walk bare 3\<rparr>) sys_decided"
  "reconciler_step sys_decided sys_sent"
  "dispatcher_step sys_sent sys_posted"
  "reconciler_step sys_posted (sys_2\<lparr>sy_pass := walk bare 5\<rparr>)"
  "reconciler_step (sys_2\<lparr>sy_pass := walk bare 5\<rparr>) sys_2"
proof -
  note c1 = calmD [OF sys_1_calm] and c2 = calmD [OF sys_2_calm]
  have same: "s\<lparr>sy_pass := c, sy_unsent := [], sy_decided := sy_decided s\<rparr> = s\<lparr>sy_pass := c\<rparr>"
    if "sy_unsent s = []" for s :: system and c
    by (rule system.equality) (simp_all add: that)
  show "reconciler_step sys_1 (sys_1\<lparr>sy_pass := walk bare 1\<rparr>)" by (rule calm_tick [OF _ sys_1_calm]) simp
  show "reconciler_step (sys_1\<lparr>sy_pass := walk bare r\<rparr>) (sys_1\<lparr>sy_pass := walk bare (Suc r)\<rparr>)" if "1 \<le> r" "r < 3"
    using calm_walk [OF _ sys_1_calm, of r] that same [OF c1(6)] by simp
  show "reconciler_step (sys_1\<lparr>sy_pass := walk bare 3\<rparr>) sys_decided"
    using calm_walk [OF _ sys_1_calm, of 3] by (simp add: sys_decided_def sent_on_def)
  have "try_send prewarm_phi (sy_actions sys_decided) = Some \<lparr>ch_buf = [prewarm_phi], ch_cap = 64\<rparr>"
    using c1(7) by (simp add: sys_decided_def try_send_def make_chan_def)
  from reconciler_step.send_action [OF _ this, of "[]"] show "reconciler_step sys_decided sys_sent"
    unfolding sys_sent_def by (simp add: sys_decided_def)
  have "recv (sy_actions sys_sent) = Some (prewarm_phi, make_chan 64)" by (simp add: sys_sent_def recv_def make_chan_def)
  moreover have "sy_reg sys_sent = reg_of bare" using c1(1) by (simp add: sys_sent_def sys_decided_def)
  with dispatched_phi [of sys_sent] have "handleAction (sy_reg sys_sent) prewarm_phi = (line_phi, Some post_phi)"
    by (auto simp: line_phi_def)
  ultimately show "dispatcher_step sys_sent sys_posted"
    using dispatcher_step.handle_action [of sys_sent prewarm_phi "make_chan 64" line_phi "Some post_phi"]
    by (simp add: sys_posted_def dropped_def)
  show "reconciler_step sys_posted (sys_2\<lparr>sy_pass := walk bare 5\<rparr>)"
    using calm_walk [OF _ sys_2_calm, of 4] same [OF c2(6)] by (simp add: sys_2_eq)
  have "sys_2\<lparr>sy_pass := Idle\<rparr> = sys_2" by (simp add: sys_2_def)
  then show "reconciler_step (sys_2\<lparr>sy_pass := walk bare 5\<rparr>) sys_2"
    using calm_walk [OF _ sys_2_calm, of 5] same [OF c2(6), of Idle] by (simp add: walk_def)
qed

lemma lead_delivery:
  "world_step demo_build (lead 5) (lead 6)"
  "world_step demo_build (lead 6) (lead 7)"
  "world_step demo_build (lead 7) (lead 8)"
proof -
  have posts: "sy_posts sys_sent = []" "sy_posts sys_posted = [(prewarm_phi, post_phi)]"
    using sys_posts by (simp_all add: sys_2_def sys_posted_def sys_sent_def sys_decided_def)
  have "sy_accepted sys_posted = sy_accepted sys_sent" by (simp add: sys_posted_def)
  from demo_scheduler [OF sys_step.dispatcher [OF lead_moves(5)] this, of "idle_agent bare Resting" "{}"]
  show "world_step demo_build (lead 5) (lead 6)" by (simp add: lead_def posts)
  show "world_step demo_build (lead 6) (lead 7)"
    using world_step.command [where b = demo_build and n = 0 and addr = home and a = prewarm_phi and p = post_phi
        and w = "demo_world (idle_agent bare Resting) sys_posted {0}" and ag = "idle_agent bare Resting"] posts(2)
    by (simp add: lead_def) (simp add: demo_world_def post_phi_def calling_def)
  have "agent_step Production calling (idle_agent demo_payload Resting)"
    using agent_step.finished [of calling 0 command_phi "slice_cap command_phi bare" loaded_phi Production] answers_phi(1)
    unfolding calling_sel(2) by (simp add: calling_sel(1))
  from demo_agent [OF this, of sys_posted "{}"] show "world_step demo_build (lead 7) (lead 8)" by (simp add: lead_def)
qed

text \<open>Every step of it, and of the rounds.\<close>

lemma lead_step: "i < 13 \<Longrightarrow> world_step demo_build (lead i) (lead (Suc i))"
  and lead_last: "world_step demo_build (lead 13) (stage 0 0)"
proof -
  show "world_step demo_build (lead i) (lead (Suc i))" if "i < 13"
  proof -
    have "i = 0 \<or> i = 1 \<or> i = 2 \<or> i = 3 \<or> i = 4 \<or> i = 5 \<or> i = 6 \<or> i = 7 \<or> i = 8 \<or> i = 9 \<or> i = 10 \<or> i = 11 \<or> i = 12"
      using that by presburger
    then consider "i = 0" | "i = 1 \<or> i = 2" | "i = 3" | "i = 4" | "i = 5" | "i = 6" | "i = 7" | "i = 8" | "i = 9"
      | "i = 10" | "i = 11" | "i = 12" by blast
    then show ?thesis
    proof cases
      case 1
      then show ?thesis using demo_reconciler [OF lead_moves(1)] by (simp add: lead_def)
    next
      case 2
      then show ?thesis using demo_reconciler [OF lead_moves(2) [of i]] by (auto simp: lead_def)
    next
      case 3
      then show ?thesis using demo_reconciler [OF lead_moves(3)] by (simp add: lead_def) (simp add: sys_decided_def)
    next
      case 4
      then show ?thesis using demo_reconciler [OF lead_moves(4)] by (simp add: lead_def) (simp add: sys_sent_def)
    next
      case 5
      then show ?thesis using lead_delivery(1) by simp
    next
      case 6
      then show ?thesis using lead_delivery(2) by simp
    next
      case 7
      then show ?thesis using lead_delivery(3) by simp
    next
      case 8
      then show ?thesis using demo_reconciler [OF lead_moves(6)] by (simp add: lead_def) (simp add: sys_2_def)
    next
      case 9
      then show ?thesis using demo_reconciler [OF lead_moves(7)] by (simp add: lead_def)
    next
      case 10
      then show ?thesis using demo_refresh [OF known_both(2)] by (simp add: lead_def)
    next
      case 11
      then show ?thesis using demo_copy by (simp add: lead_def)
    next
      case 12
      then show ?thesis
        using demo_heartbeat(1) [OF known_both(2) calmD(4) [OF sys_2_calm]] by (simp add: lead_def)
    qed
  qed
  show "world_step demo_build (lead 13) (stage 0 0)"
  proof -
    have "sy_reg sys_2 = NewNodeRegistry \<or> (\<exists>q. known q \<and> sy_reg sys_2 = reg_of q)"
      using calmD(1) [OF sys_2_calm] known_both(1) by blast
    from demo_apply(2) [OF known_both(2) calmD(5,6) [OF sys_2_calm] this] show ?thesis
      by (simp add: lead_def stage_def heard_0)
  qed
qed

text \<open>The moves of the reconciler in a round.\<close>

lemma round_moves:
  "apply_move (w_sys (stage c 3)) (w_sys (stage c 4))"
  "reconciler_step (w_sys (stage c 4)) (w_sys (stage c 5))"
  "5 \<le> r \<Longrightarrow> r < 9 \<Longrightarrow> reconciler_step (w_sys (stage c r)) (w_sys (stage c (Suc r)))"
  "reconciler_step (w_sys (stage c 9)) (w_sys (stage (Suc c) 0))"
proof -
  have idle: "(heard k)\<lparr>sy_pass := Idle\<rparr> = heard k" for k
    by (rule system.equality) (simp_all add: calmD [OF heard_calm])
  have none: "sent_on demo_payload = []" by (simp add: sent_on_def bare_def demo_payload_def)
  have same: "(heard k)\<lparr>sy_pass := q, sy_unsent := [], sy_decided := sy_decided (heard k)\<rparr> = (heard k)\<lparr>sy_pass := q\<rparr>" for k q
    by (rule system.equality) (simp_all add: calmD [OF heard_calm])
  have walk: "reconciler_step ((heard k)\<lparr>sy_pass := walk demo_payload n\<rparr>) ((heard k)\<lparr>sy_pass := walk demo_payload (Suc n)\<rparr>)"
    if "1 \<le> n" "n \<le> 5" for k n
    using calm_walk [OF known_both(2) heard_calm that, of k] same by (simp add: none cong: if_cong)
  show "apply_move (w_sys (stage c 3)) (w_sys (stage c 4))"
  proof -
    have "sy_reg (heard c) = NewNodeRegistry \<or> (\<exists>q. known q \<and> sy_reg (heard c) = reg_of q)"
      using calmD(1) [OF heard_calm] known_both(2) by blast
    from demo_apply(1) [OF known_both(2) calmD(5,6) [OF heard_calm] this] idle [of "Suc c"] show ?thesis
      by (simp add: stage_def walk_def heard_Suc)
  qed
  show "reconciler_step (w_sys (stage c 4)) (w_sys (stage c 5))"
    using calm_tick [OF known_both(2) heard_calm, of "Suc c"] idle [of "Suc c"] by (simp add: stage_def walk_def)
  show "reconciler_step (w_sys (stage c r)) (w_sys (stage c (Suc r)))" if "5 \<le> r" "r < 9"
  proof -
    define n where "n = r - 4"
    have r: "r = n + 4" using that(1) by (simp add: n_def)
    from walk [of n "Suc c"] that show ?thesis by (simp add: r stage_def)
  qed
  show "reconciler_step (w_sys (stage c 9)) (w_sys (stage (Suc c) 0))"
    using walk [of 5 "Suc c"] idle [of "Suc c"] by (simp add: stage_def) (simp add: walk_def)
qed

lemma stage_quiet:
  "w_mail (stage c r) = {}" "sy_posts (w_sys (stage c r)) = [(prewarm_phi, post_phi)]"
  "recv (sy_actions (w_sys (stage c r))) = None" "sy_gateway (w_sys (stage c r)) = gw_1"
proof -
  have posts: "sy_posts (heard k) = [(prewarm_phi, post_phi)]" for k
    by (induction k) (simp_all add: heard_0 heard_Suc hear_def in_channel_def sys_posts)
  show "w_mail (stage c r) = {}" "sy_posts (w_sys (stage c r)) = [(prewarm_phi, post_phi)]"
    "recv (sy_actions (w_sys (stage c r))) = None" "sy_gateway (w_sys (stage c r)) = gw_1"
    using calmD(3,7) [OF heard_calm] by (simp_all add: stage_def in_channel_def posts recv_def make_chan_def)
qed

lemma stage_agents: "\<exists>bt. w_agents (stage c r) = [home \<mapsto> idle_agent demo_payload bt]"
  by (simp add: stage_def) blast

lemma stage_accepted: "3 \<le> r \<Longrightarrow> sy_accepted (w_sys (stage c r)) = sy_accepted (heard (Suc c))"
  "sy_accepted (w_sys (stage c 0)) = sy_accepted (heard c)"
  by (simp_all add: stage_def heard_Suc hear_def in_channel_def)

lemma stage_resting: "3 \<le> r \<Longrightarrow> stage c r = demo_world (idle_agent demo_payload Resting) (w_sys (stage c r)) {}"
  "stage c 0 = demo_world (idle_agent demo_payload Resting) (w_sys (stage c 0)) {}"
  by (simp_all add: stage_def)

lemma quiet_step:
  assumes "reconciler_step (w_sys w) (w_sys w')" and "w = demo_world ag (w_sys w) {}" "w' = demo_world ag (w_sys w') {}"
    and "sy_accepted (w_sys w') = sy_accepted (w_sys w)" "sy_posts (w_sys w') = sy_posts (w_sys w)"
  shows "world_step demo_build w w'"
  using demo_reconciler [OF assms(1,4,5), of ag "{}"] assms(2,3) by simp

lemma stage_step: "r < 9 \<Longrightarrow> world_step demo_build (stage c r) (stage c (Suc r))"
  and stage_around: "world_step demo_build (stage c 9) (stage (Suc c) 0)"
proof -
  show "world_step demo_build (stage c r) (stage c (Suc r))" if "r < 9"
  proof -
    consider "r = 0" | "r = 1" | "r = 2" | "3 \<le> r" by linarith
    then show ?thesis
    proof cases
      case 1
      then show ?thesis using demo_refresh [OF known_both(2)] by (simp add: stage_def)
    next
      case 2
      then show ?thesis using demo_copy by (simp add: stage_def)
    next
      case 3
      then show ?thesis
        using demo_heartbeat(1) [OF known_both(2) calmD(4) [OF heard_calm]] by (simp add: stage_def)
    next
      case 4
      then have "r = 3 \<or> r = 4 \<or> 5 \<le> r" by linarith
      then have "reconciler_step (w_sys (stage c r)) (w_sys (stage c (Suc r)))"
        using round_moves(1,2) [of c] round_moves(3) [of r c] that by (auto simp: apply_move_def eval_nat_numeral)
      then show ?thesis
        by (rule quiet_step) (use 4 stage_resting(1) [of r c] stage_resting(1) [of "Suc r" c] in
          \<open>simp_all add: stage_accepted stage_quiet\<close>)
    qed
  qed
  show "world_step demo_build (stage c 9) (stage (Suc c) 0)"
    by (rule quiet_step [OF round_moves(4)])
      (use stage_resting(1) [of 9 c] stage_resting(2) [of "Suc c"] in \<open>simp_all add: stage_accepted stage_quiet\<close>)
qed

lemma course_lead: "i < 14 \<Longrightarrow> demo_course i = lead i"
  and course_stage: "r < 10 \<Longrightarrow> demo_course (14 + (10 * c + r)) = stage c r"
  by (simp_all add: demo_course_def)

lemma course_is_run: "is_run (world_step demo_build) demo_course"
  unfolding is_run_def
proof
  fix i :: nat
  consider "i < 13" | "i = 13" | "14 \<le> i" by linarith
  then show "world_step demo_build (demo_course i) (demo_course (Suc i))"
  proof cases
    case 1
    then show ?thesis using lead_step [of i] by (simp add: course_lead)
  next
    case 2
    then show ?thesis using lead_last course_stage [of 0 0] by (simp add: course_lead)
  next
    case 3
    define k where "k = i - 14"
    let ?c = "k div 10" and ?r = "k mod 10"
    have i: "i = 14 + k" using 3 by (simp add: k_def)
    show ?thesis
    proof (cases "?r = 9")
      case True
      then show ?thesis using stage_around [of ?c] by (simp add: i demo_course_def div_Suc mod_Suc)
    next
      case False
      then have "?r < 9" using mod_less_divisor [of 10 k] by linarith
      then show ?thesis using stage_step [of ?r ?c] by (simp add: i demo_course_def div_Suc mod_Suc)
    qed
  qed
qed

text \<open>What happens at one stage of every round happens again and again; what never does, ends.\<close>

lemma every_round:
  assumes "\<And>c. P (stage c r) (stage c (Suc r))" and "r < 9"
  shows "\<exists>j \<ge> i. P (demo_course j) (demo_course (Suc j))"
proof -
  have "P (demo_course (14 + (10 * i + r))) (demo_course (14 + (10 * i + Suc r)))"
    using assms course_stage [of r i] course_stage [of "Suc r" i] by simp
  then show ?thesis by (intro exI [of _ "14 + (10 * i + r)"]) simp
qed

lemma in_rounds: "14 \<le> j \<Longrightarrow> \<exists>c r. demo_course j = stage c r"
  by (auto simp: demo_course_def)

lemma course_gateway: "sy_gateway (w_sys (demo_course i)) = gw_1"
proof (cases "i < 14")
  case True
  then show ?thesis
    using calmD(3) [OF sys_1_calm] calmD(3) [OF sys_2_calm]
    by (simp add: course_lead lead_def in_channel_def) (simp add: sys_posted_def sys_sent_def sys_decided_def)
next
  case False
  then show ?thesis using in_rounds [of i] stage_quiet(4) by auto
qed

section \<open>How it comes to the run\<close>

definition demo_start :: world where
  "demo_start = demo_world (idle_agent bare Resting) (main_init demo_mem) {}"

lemma demo_start_ok: "world_start demo_build demo_start"
proof -
  have "payload_wf bare" by (simp add: payload_wf_def bare_def demo_payload_def)
  then show ?thesis
    using known_sel(3) [of bare]
    by (auto simp: world_start_def demo_start_def idle_agent_def agent_ok_def build_ok_def demo_build_def split: if_splits)
qed

text \<open>The first heartbeat is applied, and a request is placed on the slice.\<close>

lemma demo_prefix: "(world_step demo_build)\<^sup>*\<^sup>* demo_start (demo_course 0)"
proof -
  let ?s0 = "main_init demo_mem" and ?s1 = "hear bare (main_init demo_mem)" and ?ag = "idle_agent bare Resting"
  have s0: "sy_heartbeats ?s0 = make_chan 256" "sy_pass ?s0 = Idle" "sy_unsent ?s0 = []" "sy_reg ?s0 = NewNodeRegistry"
    by (simp_all add: main_init_def)
  have "gw_step (sy_seen ?s1) (sy_gateway ?s1) gw_1"
    unfolding gw_1_def using go_insertion.slice_sorter_axioms reg_of_keys [OF known_both(1)]
    by (simp add: hear_def in_channel_def main_init_def) (rule gw_step.request, simp_all add: NewGateway_def)
  from sys_step.admission [OF this] have "sys_step ?s1 sys_1" by (simp add: sys_1_def)
  from demo_scheduler [OF this, of ?ag "{}"] have "world_step demo_build (demo_world ?ag ?s1 {}) (demo_course 0)"
    by (simp add: course_lead lead_def sys_1_def)
  with demo_refresh [OF known_both(1), of ?s0 "{}"] demo_copy [of bare ?s0 "{}"]
    demo_heartbeat(1) [OF known_both(1) s0(1), of "{}"] demo_apply(2) [OF known_both(1) s0(2,3) disjI1 [OF s0(4)], of ?ag "{}"]
  show ?thesis unfolding demo_start_def by (metis rtranclp.rtrancl_into_rtrancl rtranclp.rtrancl_refl)
qed

section \<open>What the run has\<close>

lemma course_fair: "fair_scheduler demo_course"
proof -
  have "\<exists>j \<ge> i. pass_move (w_sys (demo_course j)) (w_sys (demo_course (Suc j)))" for i
    using round_moves(3) [of 5]
    by (intro every_round [where r = 5]) (simp_all add: pass_move_def in_pass_def, simp add: stage_def walk_def)
  then have pass: "fair pass_move (system_run demo_course)" unfolding fair_def by blast
  have "\<exists>j \<ge> i. apply_move (w_sys (demo_course j)) (w_sys (demo_course (Suc j)))" for i
    using round_moves(1) by (intro every_round [where r = 3]) (simp_all add: eval_nat_numeral)
  then have taken: "strongly_fair apply_move (system_run demo_course)" unfolding strongly_fair_def by blast
  have "\<not> handle_move (w_sys (demo_course j)) t" if "14 \<le> j" for j t
    using in_rounds [OF that] stage_quiet(3) by (auto simp: handle_move_def elim!: dispatcher_stepE)
  then have "strongly_fair handle_move (system_run demo_course)" unfolding strongly_fair_def by blast
  with pass taken show ?thesis by (simp add: fair_scheduler_def)
qed

lemma course_network: "nothing_hangs home demo_course" "keeps_trying home demo_course"
proof -
  have later: "i \<le> max i 14" "14 \<le> max i 14" for i :: nat by simp_all
  have none: "\<exists>ag. w_agents (demo_course j) home = Some ag \<and> dom (ag_calls ag) = {}" if "14 \<le> j" for j
  proof -
    from in_rounds [OF that] obtain c r where "demo_course j = stage c r" by blast
    with stage_agents [of c r] show ?thesis by (auto simp: idle_agent_def)
  qed
  have "w_mail (demo_course j) = {}" if "14 \<le> j" for j using in_rounds [OF that] stage_quiet(1) by auto
  with none later show "nothing_hangs home demo_course" unfolding nothing_hangs_def by (metis empty_iff)
  have "\<not> sends home c (demo_course j) (demo_course (Suc j))" if "14 \<le> j" for c j
    using in_rounds [OF that] in_rounds [of "Suc j"] that stage_quiet(2) by (auto simp: sends_def)
  then show "keeps_trying home demo_course" unfolding keeps_trying_def by blast
qed

lemma course_heard: "\<forall>i. \<exists>j \<ge> i. hears home (demo_course j) (demo_course (Suc j))"
proof
  have "hears home (stage c 2) (stage c (Suc 2))" for c
    using demo_heartbeat(2) [OF known_both(2) calmD(4) [OF heard_calm]] by (simp add: stage_def)
  then show "\<exists>j \<ge> i. hears home (demo_course j) (demo_course (Suc j))" for i by (intro every_round [where r = 2]) simp_all
qed

lemma course_looks: "\<forall>i. \<exists>j \<ge> i. \<exists>n loaded.
  pass_looks ''node-001'' ''gpu-0'' ''0/0/0'' n loaded (w_sys (demo_course j)) (w_sys (demo_course (Suc j)))"
proof
  let ?n = "node_of demo_payload"
  have n: "?n \<in> healthy_nodes (reg_of demo_payload)" "NodeID ?n = ''node-001''" "GPUID ?n = ''gpu-0''"
    "(''0/0/0'', [''phi'']) \<in> units_of ?n"
    by (simp_all add: healthy_nodes_def nodes_reg_of node_of_def units_reported)
      (simp_all add: reported_node_def node_of_heartbeat_def report_def demo_payload_def)
  have idle: "(heard k)\<lparr>sy_pass := Idle\<rparr> = heard k" for k
    by (rule system.equality) (simp_all add: calmD [OF heard_calm])
  have "pass_looks ''node-001'' ''gpu-0'' ''0/0/0'' ?n [''phi''] (w_sys (stage c 4)) (w_sys (stage c (Suc 4)))" for c
    unfolding pass_looks_def
    by (intro conjI exI [of _ demo_keys_1] exI [of _ "0 :: int"])
      (use n reg_of_keys [OF known_both(2)] pass_1(1) [OF known_both(2)] calmD [OF heard_calm, of "Suc c"] idle [of "Suc c"]
        not_stale [OF known_both(2)] in \<open>simp_all add: stage_def walk_def\<close>)
  then have "\<exists>n loaded. pass_looks ''node-001'' ''gpu-0'' ''0/0/0'' n loaded (w_sys (stage c 4)) (w_sys (stage c (Suc 4)))" for c
    by blast
  then show "\<exists>j \<ge> i. \<exists>n loaded. pass_looks ''node-001'' ''gpu-0'' ''0/0/0'' n loaded (w_sys (demo_course j)) (w_sys (demo_course (Suc j)))" for i
    by (intro every_round [where r = 4]) simp_all
qed

section \<open>The properties at the run\<close>

theorem desired_state_is_reached_witness:
  "slice_models (demo_course 0) home ''0/0/0'' = Some {} \<and>
   (\<exists>k. \<forall>j \<ge> k. slice_models (demo_course j) home ''0/0/0'' = Some {''phi''})"
proof
  show "slice_models (demo_course 0) home ''0/0/0'' = Some {}"
    by (simp add: course_lead lead_def slice_models_def idle_agent_def held_def bare_def demo_payload_def)
  have agent: "w_agents demo_start home = Some (idle_agent bare Resting)" by (simp add: demo_start_def)
  have who: "''node-001'' = hp_node_id (ag_payload (idle_agent bare Resting))" "''gpu-0'' = hp_gpu_id (ag_payload (idle_agent bare Resting))"
    by (simp_all add: idle_agent_def known_sel)
  have des: "\<forall>i. desired (rec_of (w_sys (demo_course i))) (sliceKey ''node-001'' ''gpu-0'' ''0/0/0'') = Some {''phi''}"
    using desired_phi by (simp add: course_gateway sliceKey_def slash_def)
  from desired_state_is_reached [OF demo_start_ok demo_prefix course_is_run course_fair course_network course_heard
      agent who course_looks des]
  show "\<exists>k. \<forall>j \<ge> k. slice_models (demo_course j) home ''0/0/0'' = Some {''phi''}" by auto
qed

theorem agents_hold_what_was_placed_witness:
  "\<exists>ag. w_agents (demo_course 8) home = Some ag \<and> held (ag_payload ag) ''0/0/0'' = Some {''phi''} \<and>
     held bare ''0/0/0'' = Some {} \<and>
     (\<exists>i rq r d. g_handlers (sy_gateway (w_sys (demo_course 8))) i = Some \<lparr>h_request = rq, h_state = Replied r\<rparr> \<and>
        rs_status r = 200 \<and> rs_body r = DecisionJSON d \<and> sliceKey (d_NodeID d) (d_GPUID d) (d_SliceID d) = sliceKey ''node-001'' ''gpu-0'' ''0/0/0'')"
proof -
  have agent: "w_agents (demo_course 8) home = Some (idle_agent demo_payload Resting)" by (simp add: course_lead lead_def)
  have models: "held (ag_payload (idle_agent demo_payload Resting)) ''0/0/0'' = Some {''phi''}" "held bare ''0/0/0'' = Some {}"
    by (simp_all add: idle_agent_def held_def bare_def demo_payload_def)
  have start: "w_agents demo_start home = Some (idle_agent bare Resting)" by (simp add: demo_start_def)
  have "(world_step demo_build)\<^sup>*\<^sup>* demo_start (demo_course 8)"
    using demo_prefix run_steps [OF course_is_run, of 0 8] by (meson le0 rtranclp_trans)
  note placed = agents_hold_what_was_placed [OF demo_start_ok this agent _ models(1), of "''phi''"]
  have "hp_node_id (ag_payload (idle_agent demo_payload Resting)) = ''node-001''"
    "hp_gpu_id (ag_payload (idle_agent demo_payload Resting)) = ''gpu-0''" "ag_payload (idle_agent bare Resting) = bare"
    by (simp_all add: idle_agent_def known_sel)
  with placed models start
  have "\<exists>i rq r d. g_handlers (sy_gateway (w_sys (demo_course 8))) i = Some \<lparr>h_request = rq, h_state = Replied r\<rparr> \<and>
        rs_status r = 200 \<and> rs_body r = DecisionJSON d \<and> sliceKey (d_NodeID d) (d_GPUID d) (d_SliceID d) = sliceKey ''node-001'' ''gpu-0'' ''0/0/0''"
    by (simp only: option.inject) fastforce
  with agent models show ?thesis by blast
qed

end
