(* ===== verification/Spec2Isabelle.thy ===== *)
theory Spec2Isabelle
  imports Prelude Float64 Node_Registry Go_Sort Bin_Packer Go_Heap Task_Queue Reconcile
    Admission_Queue Gateway Traffic_Analyzer Model_Cache Dispatch Reconcile_Pass Json Heartbeat_Log
    Control_Plane Fair_Runs Pass_Properties Drain_Progress System_History Placements Lifecycle Wire Agent Closed_Loop
    Checkpoint Loader Full_Loop Serving Agent_Tasks World Convergence Settled_Run
begin

text \<open>
  A verification of the scheduler of the GPU orchestrator, the Go program under
  \<open>scheduler/\<close> in the repository, of its contract with the Rust agent under \<open>agent/\<close>, and of
  the agent's model loader, the Python program under \<open>agent/loader/\<close>.

  The program. Agents on the GPU nodes post heartbeats to \<open>/heartbeat\<close>; the handler of
  \<open>main.go\<close> puts them on a channel, and the reconciler goroutine (\<open>reconciler/reconciler.go\<close>)
  applies them to the node registry (\<open>registry/node_registry.go\<close>). Clients post placement
  requests to \<open>/schedule\<close>; the admission gateway (\<open>admission/gateway.go\<close>) asks the bin packer
  (\<open>scheduler/bin_packer.go\<close>) for a slice of a GPU, records a placement in the reconciler's
  desired state and answers, or parks the request in a weighted fair queue
  (\<open>admission/queue.go\<close>) that a drain loop retries. Every half second the reconciler compares
  desired and reported models and sends actions on a channel, from which \<open>handleActions\<close> of
  \<open>main.go\<close> posts commands to the agents. Beside this path stand the preemption queue of the
  bin packer, the traffic analyzer (\<open>traffic/traffic_analyzer.go\<close>) and the model cache
  (\<open>cache/model_cache.go\<close>); \<open>main.go\<close> starts the analyzer, and calls neither of the others.

  The theories.

  \<^item> \<open>Prelude\<close>: 64-bit integers (\<open>i64\<close>), clock readings in nanoseconds, iteration orders of Go
    maps (\<open>enumerates\<close>), buffered channels (\<open>chan\<close>, \<open>try_send\<close>, \<open>recv\<close>), and the locale
    \<open>invariant_system\<close>, interpreted for each component that is a state machine.

  \<^item> \<open>Float64\<close>: the binary64 operations the code uses (\<open>f64\<close>, rounding to nearest even), with
    the lemmas that turn its three floating-point comparisons into comparisons of integers.

  \<^item> \<open>Go_Sort\<close>, \<open>Go_Heap\<close>: what is used of the standard library. \<open>slice_sorter\<close> is the contract
    of \<open>sort.Slice\<close> (which is not stable and whose algorithm is not fixed), with insertion sort
    as an instance; \<open>heap_up\<close> and \<open>heap_down\<close> are the loops of \<open>container/heap\<close>, and
    \<open>heap_elements\<close> the contract of its interface.

  \<^item> \<open>Node_Registry\<close>: \<open>MIGSlice\<close>, \<open>GPUNode\<close>, \<open>NodeRegistry\<close> and their methods. The registry is a
    \<open>keyed_store\<close>: reads return the last write. Every node is filed under its own key.

  \<^item> \<open>Bin_Packer\<close>: \<open>Schedule\<close> and its helpers. The specification is \<open>placements\<close>, the pairs of a
    healthy node and a slice with room; \<open>Schedule\<close> fails exactly when there is none and
    otherwise returns the best of them in the mode of the cluster, for every order of the map
    and every sort. \<open>BestSliceFor\<close> of the registry, which chooses the same way by other means, agrees with it.

  \<^item> \<open>Task_Queue\<close>: \<open>Enqueue\<close> and \<open>Evict\<close>. The array is a heap, and successive evictions take the
    least important tasks first and never a production task (\<open>ranked_queue\<close>).

  \<^item> \<open>Reconcile\<close>: heartbeats, desired state and \<open>reconcile\<close>. The desired state refines a map of
    sets (\<open>placement_ledger\<close>); a pass emits exactly the difference between desired and reported
    models, whatever the orders of the maps it visits.

  \<^item> \<open>Admission_Queue\<close>: \<open>Admit\<close>, \<open>Next\<close>, \<open>Len\<close>. The queue refines three first-in first-out lists
    (\<open>class_queue\<close>), serves a backlog 7 to 2 to 1, and starves no class.

  \<^item> \<open>Gateway\<close>: the \<open>/schedule\<close> handler, cut at its \<open>select\<close> into the part before
    (\<open>HandleSchedule_start\<close>) and the two branches (\<open>HandleSchedule_result\<close>,
    \<open>HandleSchedule_timeout\<close>), and the drain loop, as a function (\<open>drainOnce\<close>) and as steps that
    interleave with handlers at every point where the code takes a lock, reads an atomic or uses
    a channel (\<open>gw_step\<close>). Pending requests live in a store, the queue holds their addresses.
    The invariant \<open>gw_inv\<close> gives: a request is in one place at a time, sends never block, every
    reply is justified, and the desired state is what clients were told. A request that timed out stays in the
    queue, marked, until the loop takes it (\<open>awaited\<close>); once out of the queue and the loop a request stays out.

  \<^item> \<open>Traffic_Analyzer\<close>: the rolling window and the rate-limited signals.

  \<^item> \<open>Model_Cache\<close>: the cache with its entries in a store, since \<open>WarmNodes\<close> hands out pointers.

  \<^item> \<open>Reconcile_Pass\<close>: a pass as its goroutine runs it (\<open>pass_step\<close> on the control points
    \<open>control\<close>): one blocking send at a time, the desired state of a slice read when the pass reaches
    it. Run with an unchanging desired state it is \<open>reconcile\<close>.

  \<^item> \<open>Dispatch\<close>, \<open>Heartbeat_Log\<close>: the handlers of \<open>main.go\<close>: the heartbeat endpoint and the lines
    it logs, the commands of \<open>handleActions\<close> and where they go.

  \<^item> \<open>Control_Plane\<close>: the whole system as interleaved steps of its goroutines (\<open>sys_step\<close>), with the
    end-to-end property that a model is only ever loaded where a client was told it was placed.

  \<^item> \<open>Fair_Runs\<close>, \<open>Pass_Properties\<close>: what a pass achieves in the middle of everything else. The locales
    \<open>progress_system\<close> and \<open>server_system\<close> are proof rules for fair runs: a component that is not
    neglected finishes what it is busy with, and a server that is ready again and again keeps up with
    what it owes. An instance of the first is the pass, which therefore always ends. A pass sends what is due at its start and its end, a placement is never undone, and
    every decision names a place the reconciler looks at.

  \<^item> \<open>Drain_Progress\<close>: a pass of the drain loop always ends, another instance of \<open>progress_system\<close>, within
    the moves its queue length at the tick allows (\<open>drain_work\<close>), and its sends never block.

  \<^item> \<open>System_History\<close>: what the scheduler knows, traced back to the reports. The system records the
    registries there have been and the heartbeats acknowledged and applied; the invariant
    \<open>history_inv\<close> says that the registry \<open>reflects\<close> the last report of every GPU. So a decision rests
    on a report that was acknowledged, a command goes where the last report said, and every
    acknowledged heartbeat is applied in order.

  \<^item> \<open>Placements\<close>: what becomes of a placement. Actions reach the dispatcher once each and in order
    (\<open>actions_inv\<close>, another \<open>server_system\<close>), and a model a client was told is placed, which a pass
    then misses on its GPU, is loaded by a command to the address of the GPU's last report.

  \<^item> \<open>Lifecycle\<close>: the process around the system, \<open>main\<close> and \<open>serveHeartbeats\<close>: goroutines start, see
    the cancelled context in their \<open>select\<close> (\<open>at_select\<close>) and return, the server shuts down, \<open>main\<close> returns
    (\<open>process_step\<close>). It runs the system and nothing else, loops stop at rest, and clients that wait when
    the signal comes may never be answered.

  \<^item> \<open>Json\<close>, \<open>Wire\<close>: JSON texts and the decoders of \<open>encoding/json\<close> for the messages of the
    scheduler: heartbeats, placement requests and decisions, commands and their answers.

  \<^item> \<open>Agent\<close>: the side of \<open>agent/src/main.rs\<close> the scheduler talks to: the heartbeat payload, the
    \<open>/command\<close> handler (\<open>handle_command\<close>) and its bookkeeping, and what the heartbeat loop makes of
    the payload, in production (\<open>refresh\<close>) and in the mock build (\<open>mock_mig\<close>, \<open>mock_plain\<close>).
    Heartbeats and commands cross the wire unchanged. The loader is a parameter (\<open>loader\<close>).

  \<^item> \<open>Closed_Loop\<close>: scheduler and agent together: one round of commands that the loader carries out
    (\<open>willing\<close>, \<open>honest\<close>) brings a GPU from whatever it has loaded to its desired models.

  \<^item> \<open>Checkpoint\<close>: the restart manifests of \<open>agent/loader/checkpoint.py\<close>. \<open>save\<close> is the list of the
    states the disk goes through, so that a crash is a prefix of it.

  \<^item> \<open>Loader\<close>: the model store (another \<open>keyed_store\<close>), the engines and the handlers of
    \<open>agent/loader/main.py\<close> and \<open>vllm_engine.py\<close>. A load is cut at its lock (\<open>load_begin\<close>,
    \<open>load_finish\<close>); \<open>load_model\<close> is one that nobody disturbs and \<open>loader_step\<close> interleaves loads and
    evictions. PyTorch's figures and the outcome of starting a vLLM engine are arguments.

  \<^item> \<open>Full_Loop\<close>: scheduler, agent and loader together (\<open>deliver\<close>): the \<open>loader\<close> of \<open>Agent\<close> is
    made of the loader's handlers on its store (\<open>loader_of\<close>). With synthetic engines (\<open>VLLM_MOCK\<close>) the loop
    closes with no assumption left on the loader, for a whole GPU and for one with slices that share no
    model (\<open>kept_apart\<close>); on slices that do, an eviction from one stops the engine of both.

  \<^item> \<open>Serving\<close>: what the loader does beside loading: \<open>/generate\<close>, with the mock engine's text, and the
    default directories of \<open>paths.py\<close>. Both leave the store as it is.

  \<^item> \<open>Agent_Tasks\<close>: the agent as its tasks. \<open>agent_main\<close> reads the environment; the heartbeat loop
    and the command handlers share the payload and are cut where they wait (\<open>agent_step\<close>): a command
    while its loader call is under way, the loop while its POST is. \<open>held\<close> is what is on the books of a
    slice, \<open>sample_real\<close> the reading of \<open>nvidia-smi\<close>'s output.

  \<^item> \<open>World\<close>: scheduler, all agents and the network as interleaved steps (\<open>world_step\<close>). Requests are
    delayed, reordered or lost. The invariant \<open>world_inv\<close> says who is who: reports come from agents, and
    a command that reaches an agent is for its GPU. So nothing is on the books that was not placed.

  \<^item> \<open>Convergence\<close>, \<open>Settled_Run\<close>: in a run in which no part fails for ever, what is desired on a slice
    is in the end what the agent holds there and what every pass sees, whatever was under way before. The
    parts are chased in turn: old decisions and commands drain, reports follow the agent's books,
    passes follow the reports, and each command that is carried out brings the books closer
    (\<open>wrong\<close>). \<open>Settled_Run\<close> is a concrete infinite run that meets all of it: an
    empty slice, a client who is answered, one PREWARM that is carried out, and then rounds without end.

  Reading the model. A lock held for a whole method makes the method one step. \<open>time.Now()\<close> is
  an argument, as is the order in which a \<open>range\<close> visits a map; the theorems quantify over
  them. HTTP requests are the method and the outcome of decoding the body, and \<open>Wire\<close> says what
  that outcome is for a text. Errors are values: \<open>Schedule\<close>, \<open>Admit\<close> and \<open>Evict\<close> return a sum, a send
  on a full channel or a receive from an empty one is None. All loops are recursive on the list
  or counter they run over, or have a measure (\<open>pass_run\<close>), so every definition is total; \<open>Next\<close>
  looks at ten slots, which is the bound in the code, and the JSON reader recurses on a counter
  that starts at twice the length of the text, which is enough for every rendered value
  (\<open>cost_length\<close>).

  Simplifications. In \<open>gw_step\<close> a call of \<open>Schedule\<close> reads some registry of a given set, in \<open>sys_step\<close>
  one of those there have been so far, which covers every interleaving with the reconciler; a handler counts as having replied from the
  moment its placement is committed, with only the writing of the reply left to do. The clock does not wrap and durations do not saturate. Strings are lists of bytes, and
  the theorems about texts are for ASCII; numbers in JSON are integers, and a decoder says whether
  it fails but not with which text. The log of the system holds the lines of \<open>main.go\<close>, not those of
  the reconciler and the analyzer; the lines a process writes when its goroutines start and return
  are in \<open>ps_lines\<close>, apart from the others. A tick may come at any time, and handlers may run as long
  as the process does, which covers what the server lets through while it shuts down. In \<open>Closed_Loop\<close>
  and \<open>Full_Loop\<close> a command is handled as a whole: its loader call and the bookkeeping after it are
  not interleaved with a heartbeat of the agent, nor its load with another one; \<open>World\<close> interleaves them.
  There requests cross the network as data, which the round trips of \<open>Wire\<close> and \<open>Agent\<close> justify, agents do not restart, and
  the answer that a dispatch logs is not tied to the one the agent gave. A load reads the store
  once before its lock, though an eviction may run between its reads there. The texts of the
  loader's errors are data (\<open>detail\<close>), not strings.

  Not modelled: the HTTP servers, their routing and the HTTP clients; what starts \<open>nvidia-smi\<close> (its output and exit
  status are arguments); of the loader, its logging and the freeing of memory by the garbage collector.
\<close>

end
